(* ===== verification/Prelude.thy ===== *)
theory Prelude
  imports Main "HOL-Library.Word" "HOL-Library.Char_ord" "HOL-Library.List_Lexorder"
    "HOL-Library.AList"
begin

unbundle bit_operations_syntax

section \<open>Prelude: the parts of Go and of its standard library the program uses\<close>

text \<open>
  Shared by every component: the types that stand for Go's machine integers, byte strings and
  maps, the functions of \<^verbatim>\<open>strings\<close>, \<^verbatim>\<open>strconv\<close>, \<^verbatim>\<open>sort\<close> and \<^verbatim>\<open>container/list\<close> the
  sources call, and the lemmas about them that the component proofs rest on.
  A Go string is a sequence of bytes; an Isabelle \<^typ>\<open>char\<close> is exactly one byte, so a Go
  string and a \<^verbatim>\<open>[]byte\<close> are both a \<^typ>\<open>string\<close> here. Go's order on strings is the
  lexicographic order on bytes, which is what the imported instances give.
\<close>

subsection \<open>Types and proof collections\<close>

type_synonym bytes = string
type_synonym int64 = "64 word"
type_synonym uint64 = "64 word"
type_synonym uint32 = "32 word"
type_synonym ('k, 'v) gomap = "('k \<times> 'v) list"

named_theorems go_strings \<open>facts about the modelled functions of package strings\<close>
named_theorems go_lists \<open>facts about package container/list\<close>
named_theorems go_maps \<open>facts about Go maps as association lists\<close>

text \<open>Go's signed comparison of two \<open>int64\<close> values.\<close>

definition slt64 :: "int64 \<Rightarrow> int64 \<Rightarrow> bool" where
  "slt64 a b \<longleftrightarrow> sint a < sint b"

lemma sint_eq_unat:
  fixes w :: int64
  assumes "0 \<le> sint w"
  shows "sint w = int (unat w)"
proof -
  have "sint w < 2 ^ 63" using sint_lt [of w] by simp
  with assms have "take_bit 64 (sint w) = sint w" by (simp add: take_bit_int_eq_self)
  then show ?thesis by (simp add: uint_sint)
qed

text \<open>Go's \<^verbatim>\<open>%\<close> truncates towards zero; indexing a slice out of range panics (\<^const>\<open>None\<close>).\<close>

definition go_rem :: "int \<Rightarrow> int \<Rightarrow> int" where
  "go_rem a b = (if a < 0 then - ((- a) mod \<bar>b\<bar>) else a mod \<bar>b\<bar>)"

definition go_index :: "'a list \<Rightarrow> int \<Rightarrow> 'a option" where
  "go_index xs i = (if 0 \<le> i \<and> i < int (length xs) then Some (xs ! nat i) else None)"

lemma go_index_mod:
  assumes "xs \<noteq> []" "0 \<le> a"
  shows "go_index xs (go_rem a (int (length xs))) = Some (xs ! (nat a mod length xs))"
proof -
  have "a mod int (length xs) = int (nat a mod length xs)" using assms(2) by (simp add: zmod_int)
  then show ?thesis using assms by (simp add: go_index_def go_rem_def)
qed

text \<open>Steps that may fail, one after the other.\<close>

definition and_then :: "'e + 'a \<Rightarrow> ('a \<Rightarrow> 'e + 'b) \<Rightarrow> 'e + 'b" where
  "and_then r f = (case r of Inl e \<Rightarrow> Inl e | Inr a \<Rightarrow> f a)"

lemma and_then_simps [simp]: "and_then (Inl e) f = Inl e" "and_then (Inr a) f = f a"
  by (simp_all add: and_then_def)

lemma and_then_Inr: "and_then r f = Inr b \<longleftrightarrow> (\<exists>a. r = Inr a \<and> f a = Inr b)"
  by (cases r) auto

subsection \<open>Package strings\<close>

definition strings_HasPrefix :: "string \<Rightarrow> string \<Rightarrow> bool" where
  "strings_HasPrefix s p \<longleftrightarrow> take (length p) s = p"

lemma HasPrefix_iff [go_strings]: "strings_HasPrefix s p \<longleftrightarrow> (\<exists>t. s = p @ t)"
  unfolding strings_HasPrefix_def by (metis append_eq_conv_conj append_take_drop_id)

lemma HasPrefix_append [simp]: "strings_HasPrefix (p @ s) p"
  by (simp add: strings_HasPrefix_def)

text \<open>\<^verbatim>\<open>strings.Split(s, sep)\<close> for a separator of one byte: always at least one part.\<close>

fun strings_Split :: "string \<Rightarrow> char \<Rightarrow> string list" where
  "strings_Split [] c = [[]]"
| "strings_Split (x # xs) c =
     (if x = c then [] # strings_Split xs c
      else (case strings_Split xs c of [] \<Rightarrow> [[x]] | w # ws \<Rightarrow> (x # w) # ws))"

text \<open>\<^verbatim>\<open>strings.SplitN(s, sep, 2)\<close>: at most one cut, at the first separator.\<close>

fun strings_SplitN2 :: "string \<Rightarrow> char \<Rightarrow> string list" where
  "strings_SplitN2 [] c = [[]]"
| "strings_SplitN2 (x # xs) c =
     (if x = c then [[], xs]
      else (case strings_SplitN2 xs c of [] \<Rightarrow> [[x]] | w # ws \<Rightarrow> (x # w) # ws))"

fun strings_Join :: "string list \<Rightarrow> string \<Rightarrow> string" where
  "strings_Join [] sep = []"
| "strings_Join [w] sep = w"
| "strings_Join (w # v # ws) sep = w @ sep @ strings_Join (v # ws) sep"

lemma Split_nonempty [simp]: "strings_Split s c \<noteq> []"
  by (induction s) (auto split: list.splits)

lemma Split_no_sep [go_strings]: "c \<notin> set s \<Longrightarrow> strings_Split s c = [s]"
  by (induction s) auto

lemma Split_append_sep [go_strings]:
  "c \<notin> set w \<Longrightarrow> strings_Split (w @ c # s) c = w # strings_Split s c"
  by (induction w) auto

lemma Split_parts_no_sep: "w \<in> set (strings_Split s c) \<Longrightarrow> c \<notin> set w"
  by (induction s arbitrary: w) (auto split: list.splits if_splits)

text \<open>Splitting what was joined gives the parts back, and joining what was split gives the
  string back.\<close>

lemma Split_Join [go_strings]:
  assumes "ws \<noteq> []" and "\<And>w. w \<in> set ws \<Longrightarrow> c \<notin> set w"
  shows "strings_Split (strings_Join ws [c]) c = ws"
  using assms by (induction ws "[c]" rule: strings_Join.induct) (auto simp: go_strings)

lemma Join_Cons: "ws \<noteq> [] \<Longrightarrow> strings_Join (w # ws) sep = w @ sep @ strings_Join ws sep"
  by (cases ws) auto

lemma Join_Split: "strings_Join (strings_Split s c) [c] = s"
proof (induction s)
  case (Cons x xs)
  obtain w ws where w: "strings_Split xs c = w # ws"
    using Split_nonempty by (cases "strings_Split xs c") auto
  show ?case using Cons w by (cases ws) auto
qed simp

lemma SplitN2_no_sep [go_strings]: "c \<notin> set s \<Longrightarrow> strings_SplitN2 s c = [s]"
  by (induction s) auto

lemma SplitN2_append_sep [go_strings]:
  "c \<notin> set w \<Longrightarrow> strings_SplitN2 (w @ c # s) c = [w, s]"
  by (induction w) auto

text \<open>\<^verbatim>\<open>strings.Index\<close>: the first position of a substring, or -1.\<close>

fun strings_Index :: "string \<Rightarrow> string \<Rightarrow> int" where
  "strings_Index [] sub = (if sub = [] then 0 else -1)"
| "strings_Index (x # xs) sub =
     (if strings_HasPrefix (x # xs) sub then 0
      else let i = strings_Index xs sub in if i < 0 then -1 else i + 1)"

lemma Index_append [go_strings]:
  "c \<notin> set w \<Longrightarrow> strings_Index (w @ c # s @ t) (c # s) = int (length w)"
  by (induction w) (auto simp: strings_HasPrefix_def Let_def)

subsection \<open>Package strconv\<close>

text \<open>\<^verbatim>\<open>strconv.Itoa\<close> on numbers that are not negative.\<close>

fun strconv_Itoa :: "nat \<Rightarrow> string" where
  "strconv_Itoa n = (if n < 10 then [char_of (48 + n)]
     else strconv_Itoa (n div 10) @ [char_of (48 + n mod 10)])"

declare strconv_Itoa.simps [simp del]

subsection \<open>Sums over lists\<close>

text \<open>One element is replaced.\<close>

lemma sum_list_update_less:
  fixes f :: "'a \<Rightarrow> nat"
  assumes "j < length xs"
  shows "sum_list (map f (xs[j := x])) + f (xs ! j) = sum_list (map f xs) + f x"
  using assms by (induction xs arbitrary: j) (auto split: nat.splits)

subsection \<open>Runs that end\<close>

text \<open>A relation whose steps keep an invariant and reduce a measure reaches a state without steps from everywhere.\<close>

lemma run_ends:
  fixes work :: "'s \<Rightarrow> nat"
  assumes "P s" and step: "\<And>s s'. P s \<Longrightarrow> R s s' \<Longrightarrow> P s' \<and> work s' < work s"
  shows "\<exists>s'. R\<^sup>*\<^sup>* s s' \<and> (\<forall>s''. \<not> R s' s'')"
  using assms(1)
proof (induction "work s" arbitrary: s rule: less_induct)
  case less
  show ?case
  proof (cases "\<exists>s1. R s s1")
    case True
    then obtain s1 where s1: "R s s1" by blast
    then have "P s1" "work s1 < work s" using step [OF less.prems] by auto
    then obtain s' where "R\<^sup>*\<^sup>* s1 s'" "\<forall>s''. \<not> R s' s''" using less.hyps by blast
    then show ?thesis using s1 by (meson converse_rtranclp_into_rtranclp)
  qed auto
qed

text \<open>Every run from \<open>s\<close> comes to an end, since each step reduces the measure, and the states in which runs end satisfy \<open>P\<close>.\<close>

definition ends_in :: "('s \<Rightarrow> 's \<Rightarrow> bool) \<Rightarrow> ('s \<Rightarrow> nat) \<Rightarrow> 's \<Rightarrow> ('s \<Rightarrow> bool) \<Rightarrow> bool" where
  "ends_in R work s P \<longleftrightarrow> (\<forall>s'. R\<^sup>*\<^sup>* s s' \<longrightarrow> (\<forall>s''. R s' s'' \<longrightarrow> work s'' < work s') \<and> ((\<forall>s''. \<not> R s' s'') \<longrightarrow> P s'))"

lemma ends_inI:
  assumes "I s" and "\<And>s s'. I s \<Longrightarrow> R s s' \<Longrightarrow> I s' \<and> work s' < work s" and "\<And>s. I s \<Longrightarrow> \<forall>s'. \<not> R s s' \<Longrightarrow> P s"
  shows "ends_in R work s P"
proof -
  have "I s'" if "R\<^sup>*\<^sup>* s s'" for s'
    using that assms(1) by (induction rule: rtranclp_induct) (use assms(2) in blast)+
  then show ?thesis using assms(2,3) unfolding ends_in_def by blast
qed

lemma ends_in_run:
  assumes "ends_in R work s P"
  shows "\<exists>s'. R\<^sup>*\<^sup>* s s' \<and> (\<forall>s''. \<not> R s' s'') \<and> P s'"
proof -
  have "\<exists>s'. R\<^sup>*\<^sup>* s s' \<and> (\<forall>s''. \<not> R s' s'')"
    by (rule run_ends [where P = "R\<^sup>*\<^sup>* s" and work = work]) (use assms in \<open>auto simp: ends_in_def intro: rtranclp.rtrancl_into_rtrancl\<close>)
  then show ?thesis using assms unfolding ends_in_def by blast
qed

lemma ends_in_mono: "ends_in R work s P \<Longrightarrow> (\<And>s'. P s' \<Longrightarrow> Q s') \<Longrightarrow> ends_in R work s Q"
  unfolding ends_in_def by blast

end
