(* ===== verification/Kv_Cache.thy ===== *)
theory Kv_Cache
  imports Prelude
begin

section \<open>What a client of a bounded cache may rely on\<close>

text \<open>
  The contract between a cache and its clients: \<^verbatim>\<open>lru.Cache\<close> promises it to \<^verbatim>\<open>cache.cache\<close>, and
  \<^verbatim>\<open>cache.cache\<close> promises it to \<^verbatim>\<open>cache.Group\<close>. A cache may forget any entry at any time an
  entry is added, but it never invents one and never returns a stale value.
\<close>

datatype 'v kvop = KGet string | KAdd string 'v

text \<open>A sequence of calls on a cache; \<^const>\<open>None\<close> when one of them does not return.\<close>

fun kv_run ::
  "('c \<Rightarrow> string \<Rightarrow> 'c \<times> 'v option) \<Rightarrow> ('c \<Rightarrow> string \<Rightarrow> 'v \<Rightarrow> 'c option) \<Rightarrow> 'v kvop list \<Rightarrow> 'c \<Rightarrow> 'c option" where
  "kv_run get add [] c = Some c"
| "kv_run get add (KGet k # ops) c = kv_run get add ops (fst (get c k))"
| "kv_run get add (KAdd k v # ops) c =
     (case add c k v of None \<Rightarrow> None | Some c' \<Rightarrow> kv_run get add ops c')"

text \<open>The value most recently added under a key; \<open>d\<close> when there was none.\<close>

fun last_added :: "'v kvop list \<Rightarrow> string \<Rightarrow> 'v option \<Rightarrow> 'v option" where
  "last_added [] k d = d"
| "last_added (KGet _ # ops) k d = last_added ops k d"
| "last_added (KAdd k' v # ops) k d = last_added ops k (if k' = k then Some v else d)"

lemma last_added_default: "last_added ops k None = Some v \<Longrightarrow> last_added ops k d = Some v"
  by (induction ops k d rule: last_added.induct) (auto split: if_splits)

locale kv_cache =
  fixes lookup :: "'c \<Rightarrow> string \<Rightarrow> 'v option"
    and get :: "'c \<Rightarrow> string \<Rightarrow> 'c \<times> 'v option"
    and add :: "'c \<Rightarrow> string \<Rightarrow> 'v \<Rightarrow> 'c option"
    and inv :: "'c \<Rightarrow> bool"
  assumes get_value: "inv c \<Longrightarrow> snd (get c k) = lookup c k"
    and get_lookup: "inv c \<Longrightarrow> lookup (fst (get c k)) k' = lookup c k'"
    and get_inv: "inv c \<Longrightarrow> inv (fst (get c k))"
    and add_returns: "inv c \<Longrightarrow> \<exists>c'. add c k v = Some c'"
    and add_inv: "inv c \<Longrightarrow> add c k v = Some c' \<Longrightarrow> inv c'"
    and add_same: "inv c \<Longrightarrow> add c k v = Some c' \<Longrightarrow> lookup c' k = Some w \<Longrightarrow> w = v"
    and add_other: "inv c \<Longrightarrow> add c k v = Some c' \<Longrightarrow> k' \<noteq> k \<Longrightarrow>
      lookup c' k' = Some w \<Longrightarrow> lookup c k' = Some w"
begin

text \<open>Every entry satisfies \<open>P\<close>: kept by both operations.\<close>

definition entries_ok :: "(string \<Rightarrow> 'v \<Rightarrow> bool) \<Rightarrow> 'c \<Rightarrow> bool" where
  "entries_ok P c \<longleftrightarrow> (\<forall>k v. lookup c k = Some v \<longrightarrow> P k v)"

lemma entries_ok_get: "inv c \<Longrightarrow> entries_ok P c \<Longrightarrow> entries_ok P (fst (get c k))"
  by (simp add: entries_ok_def get_lookup)

lemma entries_ok_hit: "inv c \<Longrightarrow> entries_ok P c \<Longrightarrow> snd (get c k) = Some v \<Longrightarrow> P k v"
  by (simp add: entries_ok_def get_value)

lemma entries_ok_add:
  assumes "inv c" "entries_ok P c" "P k v" "add c k v = Some c'"
  shows "entries_ok P c'"
  unfolding entries_ok_def
proof (intro allI impI)
  fix k' w assume w: "lookup c' k' = Some w"
  show "P k' w"
  proof (cases "k' = k")
    case True
    with w add_same [OF assms(1,4)] assms(3) show ?thesis by auto
  next
    case False
    with w add_other [OF assms(1,4)] assms(2) show ?thesis by (auto simp: entries_ok_def)
  qed
qed

lemma run_returns: "inv c \<Longrightarrow> \<exists>c'. kv_run get add ops c = Some c' \<and> inv c'"
proof (induction ops arbitrary: c)
  case (Cons op ops)
  show ?case
  proof (cases op)
    case (KGet k)
    with Cons show ?thesis by (simp add: get_inv)
  next
    case (KAdd k v)
    obtain c1 where "add c k v = Some c1" using add_returns [OF Cons.prems] by blast
    with KAdd Cons.IH [OF add_inv [OF Cons.prems]] show ?thesis by simp
  qed
qed simp

text \<open>After any sequence of calls, what is found under a key is the value added last.\<close>

lemma run_coherent:
  assumes "inv c" "kv_run get add ops c = Some c'" "lookup c' k = Some v"
  shows "last_added ops k (lookup c k) = Some v"
  using assms
proof (induction ops arbitrary: c)
  case (Cons op ops)
  show ?case
  proof (cases op)
    case (KGet k')
    then show ?thesis
      using Cons.IH [OF get_inv [OF Cons.prems(1)]] Cons.prems by (simp add: get_lookup)
  next
    case (KAdd k' v')
    with Cons.prems obtain c1 where c1: "add c k' v' = Some c1"
      "kv_run get add ops c1 = Some c'" by (auto split: option.splits)
    have ih: "last_added ops k (lookup c1 k) = Some v"
      using Cons.IH [OF add_inv [OF Cons.prems(1) c1(1)] c1(2) Cons.prems(3)] .
    have "lookup c1 k = None \<or> lookup c1 k = (if k' = k then Some v' else lookup c k)"
      using add_same [OF Cons.prems(1) c1(1)] add_other [OF Cons.prems(1) c1(1)]
      by (cases "lookup c1 k") auto
    then show ?thesis using ih KAdd last_added_default [of ops k v] by auto
  qed
qed simp

end

end
