(* ===== verification/Lru.thy ===== *)
theory Lru
  imports Kv_Cache
begin

section \<open>The LRU cache (\<^verbatim>\<open>cache/lru/lru.go\<close>)\<close>

text \<open>
  \<^verbatim>\<open>lru.Cache\<close> keeps a doubly linked list of entries, most recently used first, and a map
  from keys to elements of that list. The model keeps the pointers: an element is an address
  (\<^typ>\<open>nat\<close>), \<open>ll\<close> is the list of addresses from front to back, \<open>elems\<close> is the part of the
  heap that holds the entries, \<open>next_elem\<close> the next address the allocator hands out, and
  \<open>cmap\<close> is the field \<^verbatim>\<open>cache\<close>. Byte counts are \<^typ>\<open>int64\<close> and wrap as in Go. The interface
  method \<^verbatim>\<open>Value.Len\<close> is an argument \<open>Len\<close> of the operations. \<^verbatim>\<open>OnEvicted\<close> is a function of
  the client that acts on the client's own state \<open>'s\<close>, which the operations thread through.
  The loop of \<^verbatim>\<open>Add\<close> is a \<^theory_text>\<open>partial_function (option)\<close>: \<^const>\<open>None\<close> means that it does not
  return.

  The specification is a list of key/value pairs, most recent first (\<open>lru_abs\<close>).
\<close>

subsection \<open>Package container/list, as far as it is used\<close>

definition list_MoveToFront :: "nat list \<Rightarrow> nat \<Rightarrow> nat list" where
  "list_MoveToFront l e = (if e \<in> set l then e # remove1 e l else l)"

definition list_PushFront :: "nat list \<Rightarrow> nat \<Rightarrow> nat list" where
  "list_PushFront l e = e # l"

definition list_Back :: "nat list \<Rightarrow> nat option" where
  "list_Back l = (if l = [] then None else Some (last l))"

definition list_Remove :: "nat list \<Rightarrow> nat \<Rightarrow> nat list" where
  "list_Remove l e = remove1 e l"

subsection \<open>State and operations\<close>

record 'v entry =
  e_key :: string
  e_value :: 'v

record ('v, 's) lru_cache =
  maxBytes :: int64
  nbytes :: int64
  ll :: "nat list"
  elems :: "nat \<rightharpoonup> 'v entry"
  next_elem :: nat
  cmap :: "string \<rightharpoonup> nat"
  OnEvicted :: "(string \<Rightarrow> 'v \<Rightarrow> 's \<Rightarrow> 's) option"

definition lru_New :: "int64 \<Rightarrow> (string \<Rightarrow> 'v \<Rightarrow> 's \<Rightarrow> 's) option \<Rightarrow> ('v, 's) lru_cache" where
  "lru_New mb onEvicted =
     \<lparr>maxBytes = mb, nbytes = 0, ll = [], elems = Map.empty, next_elem = 0,
      cmap = Map.empty, OnEvicted = onEvicted\<rparr>"

definition lru_Get :: "('v, 's) lru_cache \<Rightarrow> string \<Rightarrow> ('v, 's) lru_cache \<times> 'v option" where
  "lru_Get c key =
     (case cmap c key of
        None \<Rightarrow> (c, None)
      | Some item \<Rightarrow>
          let c1 = c\<lparr>ll := list_MoveToFront (ll c) item\<rparr>;
              e = the (elems c1 item)
          in (c1, Some (e_value e)))"

definition lru_RemoveOldest ::
  "('v \<Rightarrow> int64) \<Rightarrow> ('v, 's) lru_cache \<Rightarrow> 's \<Rightarrow> ('v, 's) lru_cache \<times> 's" where
  "lru_RemoveOldest Len c s =
     (case list_Back (ll c) of
        None \<Rightarrow> (c, s)
      | Some item \<Rightarrow>
          let c1 = c\<lparr>ll := list_Remove (ll c) item\<rparr>;
              e = the (elems c1 item);
              c2 = c1\<lparr>cmap := (cmap c1)(e_key e := None)\<rparr>;
              c3 = c2\<lparr>nbytes := nbytes c2 - (of_nat (length (e_key e)) + Len (e_value e))\<rparr>
          in (c3, case OnEvicted c3 of None \<Rightarrow> s | Some f \<Rightarrow> f (e_key e) (e_value e) s))"

text \<open>The loop at the end of \<^verbatim>\<open>Add\<close> (lines 82 to 84).\<close>

partial_function (option) lru_evict ::
  "('v \<Rightarrow> int64) \<Rightarrow> ('v, 's) lru_cache \<Rightarrow> 's \<Rightarrow> (('v, 's) lru_cache \<times> 's) option" where
  "lru_evict Len c s =
     (if maxBytes c \<noteq> 0 \<and> slt64 (maxBytes c) (nbytes c)
      then lru_evict Len (fst (lru_RemoveOldest Len c s)) (snd (lru_RemoveOldest Len c s))
      else Some (c, s))"

text \<open>The body of \<^verbatim>\<open>Add\<close> before that loop.\<close>

definition lru_put ::
  "('v \<Rightarrow> int64) \<Rightarrow> ('v, 's) lru_cache \<Rightarrow> string \<Rightarrow> 'v \<Rightarrow> ('v, 's) lru_cache" where
  "lru_put Len c key v =
     (case cmap c key of
        Some item \<Rightarrow>
          let c1 = c\<lparr>ll := list_MoveToFront (ll c) item\<rparr>;
              e = the (elems c1 item);
              c2 = c1\<lparr>nbytes := nbytes c1 + (Len v - Len (e_value e))\<rparr>
          in c2\<lparr>elems := (elems c2)(item \<mapsto> e\<lparr>e_value := v\<rparr>)\<rparr>
      | None \<Rightarrow>
          let item = next_elem c;
              c1 = c\<lparr>next_elem := Suc item,
                     elems := (elems c)(item \<mapsto> \<lparr>e_key = key, e_value = v\<rparr>)\<rparr>;
              c2 = c1\<lparr>ll := list_PushFront (ll c1) item\<rparr>;
              c3 = c2\<lparr>cmap := (cmap c2)(key \<mapsto> item)\<rparr>
          in c3\<lparr>nbytes := nbytes c3 + (of_nat (length key) + Len v)\<rparr>)"

definition lru_Add ::
  "('v \<Rightarrow> int64) \<Rightarrow> ('v, 's) lru_cache \<Rightarrow> string \<Rightarrow> 'v \<Rightarrow> 's \<Rightarrow> (('v, 's) lru_cache \<times> 's) option" where
  "lru_Add Len c key v s = lru_evict Len (lru_put Len c key v) s"

definition lru_Len :: "('v, 's) lru_cache \<Rightarrow> int64" where
  "lru_Len c = of_nat (length (ll c))"

subsection \<open>The specification: an association list, most recently used first\<close>

definition lru_abs :: "('v, 's) lru_cache \<Rightarrow> (string \<times> 'v) list" where
  "lru_abs c = map (\<lambda>i. (e_key (the (elems c i)), e_value (the (elems c i)))) (ll c)"

definition kv_size :: "('v \<Rightarrow> int64) \<Rightarrow> string \<times> 'v \<Rightarrow> nat" where
  "kv_size Len = (\<lambda>(k, v). length k + unat (Len v))"

definition total_size :: "('v \<Rightarrow> int64) \<Rightarrow> (string \<times> 'v) list \<Rightarrow> nat" where
  "total_size Len xs = sum_list (map (kv_size Len) xs)"

definition move_front :: "string \<Rightarrow> 'v \<Rightarrow> (string \<times> 'v) list \<Rightarrow> (string \<times> 'v) list" where
  "move_front k v xs = (k, v) # filter (\<lambda>kv. fst kv \<noteq> k) xs"

text \<open>The longest prefix whose entries fit into \<open>b\<close> bytes.\<close>

fun fit :: "('e \<Rightarrow> nat) \<Rightarrow> nat \<Rightarrow> 'e list \<Rightarrow> 'e list" where
  "fit sz b [] = []"
| "fit sz b (x # xs) = (if sz x \<le> b then x # fit sz (b - sz x) xs else [])"

definition spec_evict :: "('v \<Rightarrow> int64) \<Rightarrow> int64 \<Rightarrow> (string \<times> 'v) list \<Rightarrow> (string \<times> 'v) list" where
  "spec_evict Len mb xs = (if mb = 0 then xs else fit (kv_size Len) (unat mb) xs)"

text \<open>What \<^verbatim>\<open>OnEvicted\<close> does to the client's state for a list of victims, in order.\<close>

definition notify ::
  "(string \<Rightarrow> 'v \<Rightarrow> 's \<Rightarrow> 's) option \<Rightarrow> (string \<times> 'v) list \<Rightarrow> 's \<Rightarrow> 's" where
  "notify h vs s = (case h of None \<Rightarrow> s | Some f \<Rightarrow> fold (\<lambda>(k, v). f k v) vs s)"

text \<open>The representation invariant: the list has no repetition, the map indexes exactly the
  elements of the list by their keys, the byte count is the sum of the entries' sizes modulo
  \<open>2 ^ 64\<close>, and the allocator has not yet handed out an address in use again.\<close>

definition word_size :: "('v \<Rightarrow> int64) \<Rightarrow> (string \<times> 'v) list \<Rightarrow> int64" where
  "word_size Len xs = sum_list (map (\<lambda>(k, v). of_nat (length k) + Len v) xs)"

definition lru_inv :: "('v \<Rightarrow> int64) \<Rightarrow> ('v, 's) lru_cache \<Rightarrow> bool" where
  "lru_inv Len c \<longleftrightarrow>
     distinct (ll c) \<and>
     (\<forall>i \<in> set (ll c). i < next_elem c \<and> elems c i \<noteq> None) \<and>
     (\<forall>k i. cmap c k = Some i \<longleftrightarrow> i \<in> set (ll c) \<and> e_key (the (elems c i)) = k) \<and>
     nbytes c = word_size Len (lru_abs c)"


subsection \<open>Facts about the specification\<close>

lemma total_size_simps [simp]:
  "total_size Len [] = 0"
  "total_size Len (x # xs) = kv_size Len x + total_size Len xs"
  "total_size Len (xs @ ys) = total_size Len xs + total_size Len ys"
  by (simp_all add: total_size_def)

lemma word_size_simps [simp]:
  "word_size Len [] = 0"
  "word_size Len ((k, v) # xs) = of_nat (length k) + Len v + word_size Len xs"
  "word_size Len (xs @ ys) = word_size Len xs + word_size Len ys"
  by (simp_all add: word_size_def)

lemma word_size_of_total: "word_size Len xs = of_nat (total_size Len xs)"
  by (induction xs) (auto simp: kv_size_def)

lemma word_size_filter:
  "distinct (map fst xs) \<Longrightarrow> map_of xs k = Some v \<Longrightarrow>
   word_size Len (filter (\<lambda>kv. fst kv \<noteq> k) xs) = word_size Len xs - (of_nat (length k) + Len v)"
proof (induction xs)
  case (Cons x xs)
  obtain k' v' where x: "x = (k', v')" by fastforce
  show ?case
  proof (cases "k' = k")
    case True
    with Cons.prems x have "filter (\<lambda>kv. fst kv \<noteq> k) xs = xs"
      by (auto simp: filter_id_conv)
    with True x Cons.prems show ?thesis by simp
  next
    case False
    with Cons x show ?thesis by simp
  qed
qed simp

lemma sint_total:
  assumes "total_size Len xs < 2 ^ 63"
  shows "sint (word_size Len xs) = int (total_size Len xs)"
  unfolding word_size_of_total using assms
  by (simp add: signed_of_nat signed_take_bit_int_eq_self)

lemma total_size_filter: "total_size Len (filter P xs) \<le> total_size Len xs"
  by (induction xs) auto

lemma total_size_butlast: "total_size Len (butlast xs) \<le> total_size Len xs"
  by (induction xs) auto

text \<open>\<^const>\<open>fit\<close> is the longest prefix that fits: it is a prefix, it fits, and a longer prefix
  does not.\<close>

lemma fit_fits: "sum_list (map sz (fit sz b xs)) \<le> b"
proof (induction xs arbitrary: b)
  case (Cons x xs)
  show ?case using Cons.IH [of "b - sz x"] by auto
qed simp

lemma fit_prefix: "\<exists>zs. xs = fit sz b xs @ zs"
  by (induction xs arbitrary: b) auto

lemma fit_id: "sum_list (map sz xs) \<le> b \<Longrightarrow> fit sz b xs = xs"
  by (induction xs arbitrary: b) auto

lemma fit_snoc: "b < sum_list (map sz xs) + sz x \<Longrightarrow> fit sz b (xs @ [x]) = fit sz b xs"
  by (induction xs arbitrary: b) auto

lemma fit_butlast: "b < sum_list (map sz xs) \<Longrightarrow> fit sz b xs = fit sz b (butlast xs)"
  by (cases xs rule: rev_cases) (auto simp: fit_snoc)

lemma fit_maximal:
  assumes "xs = ys @ zs" and "sum_list (map sz ys) \<le> b"
  shows "length ys \<le> length (fit sz b xs)"
  using assms by (induction ys arbitrary: xs b) auto

lemma set_fit: "set (fit sz b xs) \<subseteq> set xs"
  by (induction xs arbitrary: b) auto

subsection \<open>The invariant and what each operation does to the abstraction\<close>

lemma lru_inv_New [intro, simp]: "lru_inv Len (lru_New mb h)"
  by (simp add: lru_inv_def lru_New_def lru_abs_def)

lemma lru_abs_New [simp]: "lru_abs (lru_New mb h) = []"
  by (simp add: lru_abs_def lru_New_def)

lemma lru_New_fields [simp]: "maxBytes (lru_New mb h) = mb" "OnEvicted (lru_New mb h) = h"
  by (simp_all add: lru_New_def)

lemma lru_inv_nbytes: "lru_inv Len c \<Longrightarrow> nbytes c = word_size Len (lru_abs c)"
  by (simp add: lru_inv_def)

lemma inj_on_e_key:
  assumes "lru_inv Len c"
  shows "inj_on (\<lambda>i. e_key (the (elems c i))) (set (ll c))"
  using assms unfolding lru_inv_def inj_on_def by (metis option.inject)

lemma lru_inv_distinct_keys:
  assumes "lru_inv Len c"
  shows "distinct (map fst (lru_abs c))"
  using assms inj_on_e_key [OF assms]
  by (simp add: lru_abs_def comp_def distinct_map lru_inv_def)

lemma lru_inv_lookup:
  assumes inv: "lru_inv Len c"
  shows "map_of (lru_abs c) k = map_option (\<lambda>i. e_value (the (elems c i))) (cmap c k)"
proof (cases "cmap c k")
  case None
  with inv have "\<forall>i \<in> set (ll c). e_key (the (elems c i)) \<noteq> k"
    unfolding lru_inv_def by (metis option.distinct(1))
  with None show ?thesis by (force simp: lru_abs_def map_of_eq_None_iff)
next
  case (Some i)
  with inv have "i \<in> set (ll c)" "e_key (the (elems c i)) = k"
    by (auto simp: lru_inv_def)
  then have "(k, e_value (the (elems c i))) \<in> set (lru_abs c)"
    by (auto simp: lru_abs_def)
  with Some lru_inv_distinct_keys [OF inv] show ?thesis by simp
qed

text \<open>Taking an element out of the list takes its key out of the abstraction.\<close>

lemma abs_remove1:
  assumes inv: "lru_inv Len c" and item: "cmap c k = Some i"
  shows "map (\<lambda>i. (e_key (the (elems c i)), e_value (the (elems c i)))) (remove1 i (ll c)) =
         filter (\<lambda>kv. fst kv \<noteq> k) (lru_abs c)"
proof -
  have d: "distinct (ll c)" and i: "i \<in> set (ll c)" "e_key (the (elems c i)) = k"
    using inv item by (auto simp: lru_inv_def)
  have "filter (\<lambda>j. j \<noteq> i) (ll c) = filter (\<lambda>j. e_key (the (elems c j)) \<noteq> k) (ll c)"
    using i inj_on_e_key [OF inv] by (auto intro!: filter_cong simp: inj_on_def)
  then show ?thesis
    by (simp add: lru_abs_def filter_map comp_def distinct_remove1_removeAll [OF d] removeAll_filter_not_eq)
       (metis (mono_tags, lifting) filter_cong)
qed

lemma lru_Get_value:
  assumes "lru_inv Len c"
  shows "snd (lru_Get c k) = map_of (lru_abs c) k"
  by (simp add: lru_Get_def lru_inv_lookup [OF assms] Let_def split: option.splits)

lemma lru_Get_hit:
  "cmap c k = Some i \<Longrightarrow> fst (lru_Get c k) = c\<lparr>ll := list_MoveToFront (ll c) i\<rparr>"
  by (simp add: lru_Get_def Let_def)

lemma lru_Get_miss: "cmap c k = None \<Longrightarrow> lru_Get c k = (c, None)"
  by (simp add: lru_Get_def)

lemma lru_Get_abs:
  assumes inv: "lru_inv Len c"
  shows "lru_abs (fst (lru_Get c k)) =
    (case map_of (lru_abs c) k of None \<Rightarrow> lru_abs c | Some v \<Rightarrow> move_front k v (lru_abs c))"
proof (cases "cmap c k")
  case None
  then show ?thesis by (simp add: lru_Get_miss lru_inv_lookup [OF inv])
next
  case (Some i)
  then have i: "i \<in> set (ll c)" "e_key (the (elems c i)) = k"
    using inv by (auto simp: lru_inv_def)
  then have "lru_abs (fst (lru_Get c k)) =
      (k, e_value (the (elems c i))) # filter (\<lambda>kv. fst kv \<noteq> k) (lru_abs c)"
    using abs_remove1 [OF inv Some]
    by (simp add: lru_Get_hit [OF Some] lru_abs_def list_MoveToFront_def)
  with Some show ?thesis
    by (simp add: lru_inv_lookup [OF inv] move_front_def)
qed

lemma word_size_move_front:
  assumes "distinct (map fst xs)" "map_of xs k = Some v"
  shows "word_size Len (move_front k v xs) = word_size Len xs"
  using assms by (simp add: move_front_def word_size_filter)

lemma lru_inv_Get:
  assumes inv: "lru_inv Len c"
  shows "lru_inv Len (fst (lru_Get c k))"
proof (cases "cmap c k")
  case None
  then show ?thesis using inv by (simp add: lru_Get_def)
next
  case (Some i)
  have "nbytes (fst (lru_Get c k)) = nbytes c"
    using Some by (simp add: lru_Get_def Let_def)
  also have "\<dots> = word_size Len (lru_abs (fst (lru_Get c k)))"
    using inv Some word_size_move_front [OF lru_inv_distinct_keys [OF inv]]
    by (simp add: lru_Get_abs [OF inv] lru_inv_lookup [OF inv]) (simp add: lru_inv_def)
  finally have n: "nbytes (fst (lru_Get c k)) = word_size Len (lru_abs (fst (lru_Get c k)))" .
  have "i \<in> set (ll c)" using inv Some by (auto simp: lru_inv_def)
  then have "set (list_MoveToFront (ll c) i) = set (ll c)" "distinct (list_MoveToFront (ll c) i)"
    using inv by (auto simp: list_MoveToFront_def lru_inv_def)
  with inv n show ?thesis
    unfolding lru_inv_def lru_Get_hit [OF Some] by simp
qed

lemma lru_put_abs:
  assumes inv: "lru_inv Len c"
  shows "lru_abs (lru_put Len c k v) = move_front k v (lru_abs c)"
proof (cases "cmap c k")
  case None
  have fresh: "next_elem c \<notin> set (ll c)" using inv by (auto simp: lru_inv_def)
  have "\<forall>i \<in> set (ll c). e_key (the (elems c i)) \<noteq> k"
    using inv None unfolding lru_inv_def by (metis option.distinct(1))
  then have "filter (\<lambda>kv. fst kv \<noteq> k) (lru_abs c) = lru_abs c"
    by (auto simp: filter_id_conv lru_abs_def)
  with None fresh show ?thesis
    by (auto simp: lru_put_def Let_def lru_abs_def list_PushFront_def move_front_def)
next
  case (Some i)
  then have i: "i \<in> set (ll c)" "e_key (the (elems c i)) = k" "distinct (ll c)"
    using inv by (auto simp: lru_inv_def)
  let ?pair = "\<lambda>i. (e_key (the (elems c i)), e_value (the (elems c i)))"
  have "i \<notin> set (remove1 i (ll c))" using i by simp
  then have "map (\<lambda>j. (e_key (the (elems (lru_put Len c k v) j)), e_value (the (elems (lru_put Len c k v) j))))
      (remove1 i (ll c)) = map ?pair (remove1 i (ll c))"
    using Some by (auto simp: lru_put_def Let_def)
  with Some i show ?thesis
    using abs_remove1 [OF inv Some]
    by (simp add: lru_abs_def move_front_def) (simp add: lru_put_def Let_def list_MoveToFront_def)
qed

lemma lru_put_fields [simp]:
  "maxBytes (lru_put Len c k v) = maxBytes c"
  "OnEvicted (lru_put Len c k v) = OnEvicted c"
  by (simp_all add: lru_put_def Let_def split: option.splits)

lemma lru_put_nbytes:
  assumes inv: "lru_inv Len c"
  shows "nbytes (lru_put Len c k v) = word_size Len (move_front k v (lru_abs c))"
proof (cases "cmap c k")
  case None
  then have "map_of (lru_abs c) k = None" by (simp add: lru_inv_lookup [OF inv])
  then have "filter (\<lambda>kv. fst kv \<noteq> k) (lru_abs c) = lru_abs c"
    by (auto simp: filter_id_conv map_of_eq_None_iff)
  with None show ?thesis
    by (simp add: lru_put_def Let_def move_front_def lru_inv_nbytes [OF inv])
next
  case (Some i)
  have "map_of (lru_abs c) k = Some (e_value (the (elems c i)))"
    using Some by (simp add: lru_inv_lookup [OF inv])
  then have "word_size Len (filter (\<lambda>kv. fst kv \<noteq> k) (lru_abs c)) =
      word_size Len (lru_abs c) - (of_nat (length k) + Len (e_value (the (elems c i))))"
    by (rule word_size_filter [OF lru_inv_distinct_keys [OF inv]])
  with Some show ?thesis
    by (simp add: lru_put_def Let_def move_front_def lru_inv_nbytes [OF inv])
qed

lemma lru_inv_put:
  assumes inv: "lru_inv Len c"
  shows "lru_inv Len (lru_put Len c k v)"
proof (cases "cmap c k")
  case None
  have d: "distinct (ll c)" and b: "\<forall>i \<in> set (ll c). i < next_elem c \<and> elems c i \<noteq> None"
    and m: "\<And>k i. cmap c k = Some i \<longleftrightarrow> i \<in> set (ll c) \<and> e_key (the (elems c i)) = k"
    using inv by (auto simp: lru_inv_def)
  have fresh: "next_elem c \<notin> set (ll c)" using b by auto
  have new: "e_key (the (elems c i)) \<noteq> k" if "i \<in> set (ll c)" for i
    using None m that by (metis option.distinct(1))
  show ?thesis unfolding lru_inv_def lru_put_abs [OF inv] lru_put_nbytes [OF inv]
    using None d b m fresh new
    by (auto simp: lru_put_def Let_def list_PushFront_def less_Suc_eq)
next
  case (Some j)
  have d: "distinct (ll c)" and b: "\<forall>i \<in> set (ll c). i < next_elem c \<and> elems c i \<noteq> None"
    and m: "\<And>k i. cmap c k = Some i \<longleftrightarrow> i \<in> set (ll c) \<and> e_key (the (elems c i)) = k"
    using inv by (auto simp: lru_inv_def)
  have j: "j \<in> set (ll c)" "e_key (the (elems c j)) = k" using m Some by auto
  have l: "set (list_MoveToFront (ll c) j) = set (ll c)" "distinct (list_MoveToFront (ll c) j)"
    using j d by (auto simp: list_MoveToFront_def)
  have f: "ll (lru_put Len c k v) = list_MoveToFront (ll c) j"
    "elems (lru_put Len c k v) = (elems c)(j \<mapsto> (the (elems c j))\<lparr>e_value := v\<rparr>)"
    "cmap (lru_put Len c k v) = cmap c" "next_elem (lru_put Len c k v) = next_elem c"
    using Some by (simp_all add: lru_put_def Let_def)
  show ?thesis unfolding lru_inv_def lru_put_abs [OF inv] lru_put_nbytes [OF inv] f
    using d b m j l by auto
qed

lemma lru_RemoveOldest_fields [simp]:
  "maxBytes (fst (lru_RemoveOldest Len c s)) = maxBytes c"
  "OnEvicted (fst (lru_RemoveOldest Len c s)) = OnEvicted c"
  by (simp_all add: lru_RemoveOldest_def Let_def split: option.splits)

lemma lru_RemoveOldest_empty: "ll c = [] \<Longrightarrow> lru_RemoveOldest Len c s = (c, s)"
  by (simp add: lru_RemoveOldest_def list_Back_def)

text \<open>On a cache with entries the oldest one goes: the record after the call, field by field.\<close>

lemma lru_RemoveOldest_snoc:
  assumes inv: "lru_inv Len c" and l: "ll c = is @ [i]"
  defines "k \<equiv> e_key (the (elems c i))" and "v \<equiv> e_value (the (elems c i))"
  shows "lru_RemoveOldest Len c s =
    (c\<lparr>ll := is, cmap := (cmap c)(k := None), nbytes := nbytes c - (of_nat (length k) + Len v)\<rparr>,
     notify (OnEvicted c) [(k, v)] s)"
proof -
  have "i \<notin> set is" using inv l by (simp add: lru_inv_def)
  then have "remove1 i (is @ [i]) = is" by (simp add: remove1_append)
  then show ?thesis using l
    by (simp add: lru_RemoveOldest_def list_Back_def list_Remove_def Let_def k_def v_def notify_def
        split: option.splits)
qed

lemma lru_RemoveOldest_abs:
  assumes inv: "lru_inv Len c"
  shows "lru_abs (fst (lru_RemoveOldest Len c s)) = butlast (lru_abs c)"
proof (cases "ll c" rule: rev_cases)
  case Nil
  then show ?thesis by (simp add: lru_RemoveOldest_empty lru_abs_def)
next
  case (snoc "is" i)
  then show ?thesis by (simp add: lru_RemoveOldest_snoc [OF inv snoc] lru_abs_def)
qed

lemma lru_RemoveOldest_notify:
  assumes inv: "lru_inv Len c" and "lru_abs c = xs @ [x]"
  shows "snd (lru_RemoveOldest Len c s) = notify (OnEvicted c) [x] s"
proof (cases "ll c" rule: rev_cases)
  case Nil
  with assms show ?thesis by (simp add: lru_abs_def)
next
  case (snoc "is" i)
  with assms(2) show ?thesis by (simp add: lru_RemoveOldest_snoc [OF inv snoc] lru_abs_def)
qed

lemma lru_inv_RemoveOldest:
  assumes inv: "lru_inv Len c"
  shows "lru_inv Len (fst (lru_RemoveOldest Len c s))"
proof (cases "ll c" rule: rev_cases)
  case Nil
  with inv show ?thesis by (simp add: lru_RemoveOldest_empty)
next
  case (snoc "is" i)
  let ?k = "e_key (the (elems c i))"
  let ?c = "fst (lru_RemoveOldest Len c s)"
  have d: "distinct (is @ [i])" and b: "\<forall>j \<in> set is. j < next_elem c \<and> elems c j \<noteq> None"
    and m: "\<And>k j. cmap c k = Some j \<longleftrightarrow> j \<in> set (is @ [i]) \<and> e_key (the (elems c j)) = k"
    using inv snoc by (auto simp: lru_inv_def)
  have mi: "((cmap c)(?k := None)) k = Some j \<longleftrightarrow> j \<in> set is \<and> e_key (the (elems c j)) = k" for k j
    using d m [of k j] m [of ?k i] m [of ?k j] by (cases "k = ?k") auto
  have abs: "lru_abs c = lru_abs ?c @ [(?k, e_value (the (elems c i)))]"
    by (simp add: lru_RemoveOldest_snoc [OF inv snoc] lru_abs_def snoc)
  have "nbytes ?c = nbytes c - (of_nat (length ?k) + Len (e_value (the (elems c i))))"
    by (simp add: lru_RemoveOldest_snoc [OF inv snoc])
  also have "\<dots> = word_size Len (lru_abs ?c)"
    unfolding lru_inv_nbytes [OF inv] by (subst abs) simp
  finally show ?thesis
    unfolding lru_inv_def using d b mi
    by (simp add: lru_RemoveOldest_snoc [OF inv snoc, of s])
qed

subsection \<open>The eviction loop\<close>

lemmas lru_ops_abs = lru_Get_abs lru_put_abs lru_RemoveOldest_abs
lemmas lru_ops_inv = lru_inv_Get lru_inv_put lru_inv_RemoveOldest

text \<open>The loop returns whenever the limit is not negative, whatever the sizes add up to: on the
  empty list the byte count is 0 and the guard fails. What is left is a prefix of the list, and
  the client has been told of the rest, oldest first.\<close>

lemma lru_evict_returns:
  assumes "lru_inv Len c" and "0 \<le> sint (maxBytes c)"
  shows "\<exists>c' s' vs. lru_evict Len c s = Some (c', s') \<and> lru_inv Len c' \<and>
           lru_abs c = lru_abs c' @ vs \<and> s' = notify (OnEvicted c) (rev vs) s \<and>
           maxBytes c' = maxBytes c \<and> OnEvicted c' = OnEvicted c \<and>
           \<not> (maxBytes c \<noteq> 0 \<and> slt64 (maxBytes c) (nbytes c'))"
  using assms
proof (induction "length (lru_abs c)" arbitrary: c s rule: less_induct)
  case less
  show ?case
  proof (cases "maxBytes c \<noteq> 0 \<and> slt64 (maxBytes c) (nbytes c)")
    case False
    then show ?thesis using less.prems
      by (subst lru_evict.simps) (auto simp: notify_def split: option.splits)
  next
    case True
    have "lru_abs c \<noteq> []"
      using True less.prems lru_inv_nbytes [OF less.prems(1)] by (auto simp: slt64_def)
    then obtain xs x where xs: "lru_abs c = xs @ [x]" by (metis rev_exhaust)
    let ?c = "fst (lru_RemoveOldest Len c s)" and ?s = "snd (lru_RemoveOldest Len c s)"
    have abs: "lru_abs ?c = xs" using xs by (simp add: lru_RemoveOldest_abs [OF less.prems(1)])
    have "\<exists>c' s' vs. lru_evict Len ?c ?s = Some (c', s') \<and> lru_inv Len c' \<and>
           lru_abs ?c = lru_abs c' @ vs \<and> s' = notify (OnEvicted ?c) (rev vs) ?s \<and>
           maxBytes c' = maxBytes ?c \<and> OnEvicted c' = OnEvicted ?c \<and>
           \<not> (maxBytes ?c \<noteq> 0 \<and> slt64 (maxBytes ?c) (nbytes c'))"
      by (rule less.hyps) (use less.prems xs abs in \<open>auto intro: lru_inv_RemoveOldest\<close>)
    then obtain c' s' vs where ih: "lru_evict Len ?c ?s = Some (c', s')" "lru_inv Len c'"
        "xs = lru_abs c' @ vs" "s' = notify (OnEvicted c) (rev vs) ?s" "maxBytes c' = maxBytes c"
        "OnEvicted c' = OnEvicted c" "\<not> (maxBytes c \<noteq> 0 \<and> slt64 (maxBytes c) (nbytes c'))"
      by (auto simp: abs)
    have "lru_evict Len c s = Some (c', s')"
      using ih(1) True by (subst lru_evict.simps) simp
    moreover have "s' = notify (OnEvicted c) (rev (vs @ [x])) s"
      using ih(4) lru_RemoveOldest_notify [OF less.prems(1) xs, of s]
      by (auto simp: notify_def split: option.splits)
    ultimately show ?thesis using ih xs by (auto intro!: exI [of _ "vs @ [x]"])
  qed
qed

lemma slt64_total:
  assumes "total_size Len xs < 2 ^ 63" and "0 \<le> sint m"
  shows "slt64 m (word_size Len xs) \<longleftrightarrow> unat m < total_size Len xs"
  unfolding slt64_def sint_total [OF assms(1)] sint_eq_unat [OF assms(2)] by (rule of_nat_less_iff)

lemma lru_evict_exact:
  assumes "lru_inv Len c" and "0 \<le> sint (maxBytes c)" and "total_size Len (lru_abs c) < 2 ^ 63"
    and "lru_evict Len c s = Some (c', s')"
  shows "lru_abs c' = spec_evict Len (maxBytes c) (lru_abs c)"
  using assms
proof (induction "length (lru_abs c)" arbitrary: c s rule: less_induct)
  case less
  let ?xs = "lru_abs c"
  have guard: "slt64 (maxBytes c) (nbytes c) \<longleftrightarrow> unat (maxBytes c) < total_size Len ?xs"
    using slt64_total [OF less.prems(3,2)] lru_inv_nbytes [OF less.prems(1)] by simp
  show ?case
  proof (cases "maxBytes c \<noteq> 0 \<and> slt64 (maxBytes c) (nbytes c)")
    case False
    then have "c' = c" using less.prems(4) by (subst (asm) lru_evict.simps) auto
    with False guard show ?thesis
      by (auto simp: spec_evict_def total_size_def intro!: fit_id [symmetric])
  next
    case True
    let ?c = "fst (lru_RemoveOldest Len c s)"
    have abs: "lru_abs ?c = butlast ?xs" by (rule lru_RemoveOldest_abs [OF less.prems(1)])
    have "lru_evict Len ?c (snd (lru_RemoveOldest Len c s)) = Some (c', s')"
      using less.prems(4) True by (subst (asm) lru_evict.simps) simp
    moreover have "?xs \<noteq> []" using True guard by auto
    ultimately have "lru_abs c' = spec_evict Len (maxBytes ?c) (lru_abs ?c)"
      using less.prems total_size_butlast [of Len ?xs]
      by (intro less.hyps) (auto simp: abs intro: lru_inv_RemoveOldest)
    also have "\<dots> = spec_evict Len (maxBytes c) ?xs"
      using True guard fit_butlast [of "unat (maxBytes c)" "kv_size Len" ?xs]
      by (simp add: abs spec_evict_def total_size_def)
    finally show ?thesis .
  qed
qed

text \<open>With a negative limit every iteration finds the guard true, on the empty list too.\<close>

lemma lru_evict_negative:
  fixes Len :: "'v \<Rightarrow> int64" and c :: "('v, 's) lru_cache"
  assumes "sint (maxBytes c) < 0" "lru_inv Len c" "total_size Len (lru_abs c) < 2 ^ 63"
  shows "lru_evict Len c s = None"
proof (rule ccontr)
  assume "lru_evict Len c s \<noteq> None"
  then obtain r where ret: "lru_evict Len c s = Some r" by blast
  have "\<not> (sint (maxBytes c) < 0 \<and> lru_inv Len c \<and> total_size Len (lru_abs c) < 2 ^ 63)"
  proof (rule lru_evict.raw_induct [where P = "\<lambda>Len c s r. \<not> (sint (maxBytes c) < 0 \<and> lru_inv Len c \<and>
        total_size Len (lru_abs c) < 2 ^ 63)", OF _ ret], rule notI, elim conjE)
    fix f :: "('v \<Rightarrow> int64) \<Rightarrow> ('v, 's) lru_cache \<Rightarrow> 's \<Rightarrow> (('v, 's) lru_cache \<times> 's) option"
      and Len :: "'v \<Rightarrow> int64" and c :: "('v, 's) lru_cache" and s :: 's and r
    let ?c = "fst (lru_RemoveOldest Len c s)" and ?s = "snd (lru_RemoveOldest Len c s)"
    assume IH: "\<And>Len c s r. f Len c s = Some r \<Longrightarrow>
        \<not> (sint (maxBytes c) < 0 \<and> lru_inv Len c \<and> total_size Len (lru_abs c) < 2 ^ 63)"
      and eq: "(if maxBytes c \<noteq> 0 \<and> slt64 (maxBytes c) (nbytes c) then f Len ?c ?s else Some (c, s)) = Some r"
      and neg: "sint (maxBytes c) < 0" and inv: "lru_inv Len c" and sz: "total_size Len (lru_abs c) < 2 ^ 63"
    have "maxBytes c \<noteq> 0 \<and> slt64 (maxBytes c) (nbytes c)"
      using neg lru_inv_nbytes [OF inv] sint_total [OF sz] by (auto simp: slt64_def)
    with eq have "f Len ?c ?s = Some r" by simp
    then have "\<not> (sint (maxBytes ?c) < 0 \<and> lru_inv Len ?c \<and> total_size Len (lru_abs ?c) < 2 ^ 63)"
      by (rule IH)
    with neg inv sz show False
      using total_size_butlast [of Len "lru_abs c"]
      by (auto simp: lru_inv_RemoveOldest lru_RemoveOldest_abs)
  qed
  with assms show False by simp
qed

subsection \<open>The cache keeps the contract of \<open>kv_cache\<close>\<close>

definition lru_ok :: "('v \<Rightarrow> int64) \<Rightarrow> ('v, 's) lru_cache \<times> 's \<Rightarrow> bool" where
  "lru_ok Len = (\<lambda>(c, s). lru_inv Len c \<and> 0 \<le> sint (maxBytes c))"

definition lru_get_s ::
  "('v, 's) lru_cache \<times> 's \<Rightarrow> string \<Rightarrow> (('v, 's) lru_cache \<times> 's) \<times> 'v option" where
  "lru_get_s = (\<lambda>(c, s) k. ((fst (lru_Get c k), s), snd (lru_Get c k)))"

definition lru_add_s ::
  "('v \<Rightarrow> int64) \<Rightarrow> ('v, 's) lru_cache \<times> 's \<Rightarrow> string \<Rightarrow> 'v \<Rightarrow> (('v, 's) lru_cache \<times> 's) option" where
  "lru_add_s Len = (\<lambda>(c, s) k v. lru_Add Len c k v s)"

lemma map_of_move_front: "map_of (move_front k v xs) = (map_of xs)(k \<mapsto> v)"
proof -
  have "map_of (filter (\<lambda>kv. fst kv \<noteq> k) xs) k' = (if k' = k then None else map_of xs k')" for k'
    by (induction xs) auto
  then show ?thesis by (auto simp: move_front_def)
qed

lemma lru_Get_maxBytes [simp]: "maxBytes (fst (lru_Get c k)) = maxBytes c"
  by (simp add: lru_Get_def Let_def split: option.splits)

lemma distinct_move_front: "distinct (map fst xs) \<Longrightarrow> distinct (map fst (move_front k v xs))"
  by (auto simp: move_front_def distinct_map inj_on_def)

lemma lru_Add_returns:
  assumes "lru_inv Len c" "0 \<le> sint (maxBytes c)"
  shows "\<exists>c' vs. lru_Add Len c k v s = Some (c', notify (OnEvicted c) (rev vs) s) \<and> lru_inv Len c' \<and>
           move_front k v (lru_abs c) = lru_abs c' @ vs \<and>
           maxBytes c' = maxBytes c \<and> (maxBytes c = 0 \<or> sint (nbytes c') \<le> sint (maxBytes c))"
  using lru_evict_returns [OF lru_inv_put [OF assms(1)], of k v s] assms
  by (auto simp: lru_Add_def lru_put_abs slt64_def not_less)

lemma map_of_prefix:
  assumes "distinct (map fst (xs @ ys))" "map_of xs k = Some v"
  shows "map_of (xs @ ys) k = Some v"
  using assms by (simp add: map_add_Some_iff)

lemma lru_add_s_returns:
  assumes "lru_ok Len cs"
  shows "\<exists>cs' vs. lru_add_s Len cs k v = Some cs' \<and> lru_ok Len cs' \<and>
    move_front k v (lru_abs (fst cs)) = lru_abs (fst cs') @ vs"
proof (cases cs)
  case (Pair c s)
  with assms have ok: "lru_inv Len c" "0 \<le> sint (maxBytes c)" by (auto simp: lru_ok_def)
  from lru_Add_returns [OF ok, of k v s] Pair ok show ?thesis
    by (auto simp: lru_add_s_def lru_ok_def)
qed

lemma lru_add_s_lookup:
  assumes ok: "lru_ok Len cs" and add: "lru_add_s Len cs k v = Some cs'"
    and hit: "map_of (lru_abs (fst cs')) k' = Some w"
  shows "((map_of (lru_abs (fst cs)))(k \<mapsto> v)) k' = Some w"
proof -
  have d: "distinct (map fst (lru_abs (fst cs)))"
    using ok by (auto simp: lru_ok_def intro: lru_inv_distinct_keys)
  obtain vs where "move_front k v (lru_abs (fst cs)) = lru_abs (fst cs') @ vs"
    using lru_add_s_returns [OF ok, of k v] add by auto
  then show ?thesis
    using map_of_prefix [of "lru_abs (fst cs')" vs] hit distinct_move_front [OF d, of k v]
    by (metis map_of_move_front)
qed

interpretation lru: kv_cache "\<lambda>cs k. map_of (lru_abs (fst cs)) k" lru_get_s "lru_add_s Len" "lru_ok Len"
proof (unfold_locales, goal_cases)
  case (1 c k)
  then show ?case by (cases c) (simp add: lru_get_s_def lru_ok_def lru_Get_value [where Len = Len])
next
  case (2 c k k')
  then show ?case
    by (cases c) (auto simp: lru_get_s_def lru_ok_def lru_Get_abs [where Len = Len] map_of_move_front
        split: option.splits)
next
  case (3 c k)
  then show ?case by (cases c) (simp add: lru_get_s_def lru_ok_def lru_inv_Get)
next
  case (4 c k v)
  then show ?case using lru_add_s_returns [of Len c k v] by auto
next
  case (5 c k v c')
  then show ?case using lru_add_s_returns [of Len c k v] by auto
next
  case (6 c k v c' w)
  then show ?case using lru_add_s_lookup [of Len c k v c' k w] by simp
next
  case (7 c k v c' k' w)
  then show ?case using lru_add_s_lookup [of Len c k v c' k' w] by simp
qed

subsection \<open>Properties\<close>

text \<open>The values of \<^verbatim>\<open>lru_test.go\<close>: strings whose \<^verbatim>\<open>Len\<close> is their length.\<close>

definition str_Len :: "string \<Rightarrow> int64" where
  "str_Len v = of_nat (length v)"

text \<open>C1: \<^verbatim>\<open>Add\<close> refines the specification. On a well-formed cache with a limit that is not negative,
  and as long as the sizes of the entries sum to less than \<open>2 ^ 63\<close>, the call returns; the new
  entry is in front, what is kept is the longest run of most recently used entries that fits into
  the limit (everything when the limit is 0), and \<^verbatim>\<open>OnEvicted\<close> has been called on each entry that
  was dropped, oldest first.\<close>

theorem lru_Add_refines:
  assumes "lru_inv Len c" and "0 \<le> sint (maxBytes c)"
    and "total_size Len (move_front k v (lru_abs c)) < 2 ^ 63"
  shows "\<exists>c' s'. lru_Add Len c k v s = Some (c', s') \<and> lru_inv Len c' \<and>
    lru_abs c' = spec_evict Len (maxBytes c) (move_front k v (lru_abs c)) \<and>
    s' = notify (OnEvicted c) (rev (drop (length (lru_abs c')) (move_front k v (lru_abs c)))) s"
proof -
  obtain c' vs where r: "lru_Add Len c k v s = Some (c', notify (OnEvicted c) (rev vs) s)"
    "lru_inv Len c'" "move_front k v (lru_abs c) = lru_abs c' @ vs"
    using lru_Add_returns [OF assms(1,2), of k v s] by blast
  have "lru_abs c' = spec_evict Len (maxBytes c) (move_front k v (lru_abs c))"
    using lru_evict_exact [OF lru_inv_put [OF assms(1)], of k v s] r(1) assms
    by (simp add: lru_put_abs lru_Add_def)
  moreover have "vs = drop (length (lru_abs c')) (move_front k v (lru_abs c))" by (simp add: r(3))
  ultimately show ?thesis using r(1,2) by blast
qed

theorem lru_Add_refines_witness:
  "\<exists>c' s'. lru_Add str_Len (lru_put str_Len (lru_New 4 (Some (\<lambda>k v s. s @ [k]))) ''k1'' ''v1'') ''k2'' ''v2'' []
       = Some (c', s') \<and> lru_abs c' = [(''k2'', ''v2'')] \<and> s' = [''k1'']"
proof -
  let ?c = "lru_put str_Len (lru_New 4 (Some (\<lambda>k v s. s @ [k]))) ''k1'' ''v1'' :: (string, string list) lru_cache"
  have inv: "lru_inv str_Len ?c" by (rule lru_inv_put) simp
  have abs: "lru_abs ?c = [(''k1'', ''v1'')]" by (simp add: lru_put_abs [of str_Len] move_front_def)
  have sz: "total_size str_Len (move_front ''k2'' ''v2'' (lru_abs ?c)) < 2 ^ 63"
    by (simp add: abs move_front_def kv_size_def str_Len_def)
  show ?thesis
    using lru_Add_refines [OF inv _ sz, of "[]"]
    by (auto simp: abs move_front_def spec_evict_def kv_size_def str_Len_def notify_def)
qed

text \<open>\<^verbatim>\<open>Get\<close> returns the value stored under the key, or nothing when there is none; a hit moves
  the entry to the front and changes nothing else; the representation invariant is kept.\<close>

theorem lru_Get_refines:
  assumes "lru_inv Len c"
  shows "lru_inv Len (fst (lru_Get c k)) \<and> snd (lru_Get c k) = map_of (lru_abs c) k \<and>
    lru_abs (fst (lru_Get c k)) =
      (case map_of (lru_abs c) k of None \<Rightarrow> lru_abs c | Some v \<Rightarrow> move_front k v (lru_abs c))"
  using assms by (simp add: lru_inv_Get lru_Get_value lru_Get_abs)

theorem lru_Get_refines_witness:
  "lru_abs (fst (lru_Get (lru_put str_Len (lru_put str_Len
       (lru_New 0 None :: (string, unit) lru_cache) ''a'' ''1'') ''b'' ''2'') ''a''))
     = [(''a'', ''1''), (''b'', ''2'')]"
proof -
  let ?c = "lru_put str_Len (lru_put str_Len (lru_New 0 None) ''a'' ''1'') ''b'' ''2'' :: (string, unit) lru_cache"
  have inv: "lru_inv str_Len ?c" by (intro lru_inv_put lru_inv_New)
  have "lru_abs ?c = [(''b'', ''2''), (''a'', ''1'')]"
    by (simp add: lru_put_abs [of str_Len] lru_inv_put move_front_def)
  then show ?thesis using lru_Get_refines [OF inv, of "''a''"] by (simp add: move_front_def)
qed

text \<open>C2: with a positive limit the byte count never exceeds it after \<^verbatim>\<open>Add\<close>, and the byte count is
  the exact sum of the sizes of the entries in the cache, also where that sum wraps around
  \<open>2 ^ 64\<close> in between.\<close>

theorem lru_Add_within_limit:
  assumes "lru_inv Len c" and "0 < sint (maxBytes c)"
  shows "\<exists>c' s'. lru_Add Len c k v s = Some (c', s') \<and> sint (nbytes c') \<le> sint (maxBytes c') \<and>
    nbytes c' = of_nat (total_size Len (lru_abs c'))"
proof -
  obtain c' vs where "lru_Add Len c k v s = Some (c', notify (OnEvicted c) (rev vs) s)"
    "lru_inv Len c'" "maxBytes c' = maxBytes c" "maxBytes c = 0 \<or> sint (nbytes c') \<le> sint (maxBytes c)"
    using lru_Add_returns [OF assms(1), of k v s] assms(2) by auto
  with assms(2) show ?thesis by (auto simp: lru_inv_nbytes word_size_of_total)
qed

theorem lru_Add_within_limit_witness:
  "\<exists>c' s'. lru_Add str_Len (lru_New 4 None) ''k'' ''value'' () = Some (c', s') \<and>
     sint (nbytes c') \<le> sint (maxBytes c')"
  using lru_Add_within_limit [of str_Len "lru_New 4 None" "''k''" "''value''" "()"] by auto

text \<open>C3: after any sequence of \<^verbatim>\<open>Get\<close> and \<^verbatim>\<open>Add\<close> calls on a new cache with a limit that is not
  negative, all of which return, a key that is found has the value that was added last under it.\<close>

theorem lru_coherent:
  assumes "0 \<le> sint mb"
  shows "\<exists>cs. kv_run lru_get_s (lru_add_s Len) ops (lru_New mb h, s) = Some cs \<and>
    (\<forall>k v. snd (lru_Get (fst cs) k) = Some v \<longrightarrow> last_added ops k None = Some v)"
proof -
  have ok: "lru_ok Len (lru_New mb h, s)" using assms by (simp add: lru_ok_def)
  obtain cs where cs: "kv_run lru_get_s (lru_add_s Len) ops (lru_New mb h, s) = Some cs" "lru_ok Len cs"
    using lru.run_returns [OF ok] by blast
  have "last_added ops k None = Some v" if "snd (lru_Get (fst cs) k) = Some v" for k v
    using lru.run_coherent [OF ok cs(1), of k v] that cs(2)
    by (auto simp: lru_ok_def lru_Get_value [where Len = Len] split: prod.splits)
  with cs show ?thesis by blast
qed

theorem lru_coherent_witness:
  "\<exists>cs. kv_run lru_get_s (lru_add_s str_Len) [KAdd ''a'' ''1'', KAdd ''a'' ''2''] (lru_New 9 None, ()) = Some cs \<and>
     (\<forall>v. snd (lru_Get (fst cs) ''a'') = Some v \<longrightarrow> v = ''2'')"
proof -
  let ?ops = "[KAdd ''a'' ''1'', KAdd ''a'' ''2'']"
  obtain cs where cs: "kv_run lru_get_s (lru_add_s str_Len) ?ops (lru_New 9 None, ()) = Some cs"
    "\<forall>k v. snd (lru_Get (fst cs) k) = Some v \<longrightarrow> last_added ?ops k None = Some v"
    using lru_coherent [of 9 str_Len ?ops None "()"] by auto
  have "snd (lru_Get (fst cs) ''a'') = Some v \<longrightarrow> v = ''2''" for v
    using cs(2) [rule_format, of "''a''" v] by simp
  with cs(1) show ?thesis by blast
qed

text \<open>C4: with a negative limit \<^verbatim>\<open>Add\<close> does not return: the loop goes on calling \<^verbatim>\<open>RemoveOldest\<close> on the
  empty list.\<close>

theorem lru_Add_negative_limit_diverges:
  assumes "lru_inv Len c" and "sint (maxBytes c) < 0"
    and "total_size Len (move_front k v (lru_abs c)) < 2 ^ 63"
  shows "lru_Add Len c k v s = None"
  unfolding lru_Add_def using assms
  by (intro lru_evict_negative) (auto simp: lru_put_abs intro: lru_inv_put)

theorem lru_Add_negative_limit_diverges_witness:
  "lru_Add str_Len (lru_New (-1) None) ''k'' ''v'' () = None"
  by (rule lru_Add_negative_limit_diverges)
     (simp_all add: move_front_def kv_size_def str_Len_def)

end
