(* ===== verification/Consistenthash.thy ===== *)
theory Consistenthash
  imports Prelude
begin

section \<open>The consistent hash ring (\<^verbatim>\<open>cache/consistenthash/consistenthash.go\<close>)\<close>

text \<open>
  \<^verbatim>\<open>Map\<close> keeps \<open>replicas\<close> virtual points per node on a ring of hashes: \<open>keys\<close> is the sorted slice
  of all points, \<open>hashMap\<close> the node that owns a point. \<^verbatim>\<open>Get\<close> finds, by binary search, the first
  point at or after the hash of the key and wraps around to the first point of the ring.
  A \<^verbatim>\<open>uint32\<close> converted to \<^verbatim>\<open>int\<close> is never negative and never overflows, so points are \<^typ>\<open>int\<close>.
  The hash function is a field of the record, as in the code; \<^verbatim>\<open>New\<close> replaces a \<^verbatim>\<open>nil\<close> function
  (\<^const>\<open>None\<close>) by \<^verbatim>\<open>crc32.ChecksumIEEE\<close>, which is modelled bit by bit.
\<close>

subsection \<open>Standard library: hash/crc32 and sort\<close>

definition crc32_shift :: "uint32 \<Rightarrow> uint32" where
  "crc32_shift c = (if bit c 0 then drop_bit 1 c XOR 0xEDB88320 else drop_bit 1 c)"

definition crc32_byte :: "uint32 \<Rightarrow> char \<Rightarrow> uint32" where
  "crc32_byte c b = (crc32_shift ^^ 8) (c XOR of_char b)"

definition crc32_ChecksumIEEE :: "bytes \<Rightarrow> uint32" where
  "crc32_ChecksumIEEE data = NOT (foldl crc32_byte 0xFFFFFFFF data)"



text \<open>\<^verbatim>\<open>sort.Search(n, f)\<close>: the loop on the bounds \<open>i\<close> and \<open>j\<close>.\<close>

function sort_Search_loop :: "(nat \<Rightarrow> bool) \<Rightarrow> nat \<Rightarrow> nat \<Rightarrow> nat" where
  "sort_Search_loop f i j =
     (if i < j
      then (let h = (i + j) div 2
            in if \<not> f h then sort_Search_loop f (Suc h) j else sort_Search_loop f i h)
      else i)"
  by pat_completeness auto
termination
  by (relation "measure (\<lambda>(f, i, j). j - i)") auto

declare sort_Search_loop.simps [simp del]

definition sort_Search :: "nat \<Rightarrow> (nat \<Rightarrow> bool) \<Rightarrow> nat" where
  "sort_Search n f = sort_Search_loop f 0 n"

subsection \<open>State and operations\<close>

record ch_map =
  ch_hash :: "bytes \<Rightarrow> uint32"
  replicas :: int
  keys :: "int list"
  hashMap :: "int \<rightharpoonup> string"

definition ch_New :: "int \<Rightarrow> (bytes \<Rightarrow> uint32) option \<Rightarrow> ch_map" where
  "ch_New r fn =
     \<lparr>ch_hash = (case fn of None \<Rightarrow> crc32_ChecksumIEEE | Some f \<Rightarrow> f),
      replicas = r, keys = [], hashMap = Map.empty\<rparr>"

text \<open>The body of the inner loop of \<^verbatim>\<open>Add\<close>, the inner loop, and \<^verbatim>\<open>Add\<close>.\<close>

definition ch_add_point :: "string \<Rightarrow> ch_map \<Rightarrow> nat \<Rightarrow> ch_map" where
  "ch_add_point key m i =
     (let hash = uint (ch_hash m (strconv_Itoa i @ key))
      in m\<lparr>keys := keys m @ [hash], hashMap := (hashMap m)(hash \<mapsto> key)\<rparr>)"

definition ch_add_node :: "ch_map \<Rightarrow> string \<Rightarrow> ch_map" where
  "ch_add_node m key = foldl (ch_add_point key) m [0..<nat (replicas m)]"

definition ch_Add :: "ch_map \<Rightarrow> string list \<Rightarrow> ch_map" where
  "ch_Add m ks = (let m' = foldl ch_add_node m ks in m'\<lparr>keys := sort (keys m')\<rparr>)"

definition ch_Get :: "ch_map \<Rightarrow> string \<Rightarrow> string" where
  "ch_Get m key =
     (if length (keys m) = 0 then []
      else let hash = uint (ch_hash m key);
               idx = sort_Search (length (keys m)) (\<lambda>i. keys m ! i \<ge> hash)
           in (case hashMap m (keys m ! (idx mod length (keys m))) of None \<Rightarrow> [] | Some s \<Rightarrow> s))"

subsection \<open>Specification\<close>

text \<open>The point of the ring a hash belongs to: the first one at or after it, or the first one of
  the ring; by linear scan.\<close>

definition ring_point :: "int list \<Rightarrow> int \<Rightarrow> int" where
  "ring_point ks h = (let ge = filter (\<lambda>x. h \<le> x) ks in Min (set (if ge = [] then ks else ge)))"

text \<open>The virtual points of a node.\<close>

definition node_points :: "(bytes \<Rightarrow> uint32) \<Rightarrow> int \<Rightarrow> string \<Rightarrow> int set" where
  "node_points hash r n = (\<lambda>i. uint (hash (strconv_Itoa i @ n))) ` {0..<nat r}"

definition ch_inv :: "ch_map \<Rightarrow> bool" where
  "ch_inv m \<longleftrightarrow> sorted (keys m) \<and> set (keys m) = dom (hashMap m)"

subsection \<open>Binary search\<close>

lemma sort_Search_loop_correct:
  assumes "i \<le> j" "\<And>a b. a \<le> b \<Longrightarrow> b < j \<Longrightarrow> f a \<Longrightarrow> f b"
  shows "i \<le> sort_Search_loop f i j \<and> sort_Search_loop f i j \<le> j \<and>
    (\<forall>a. i \<le> a \<longrightarrow> a < sort_Search_loop f i j \<longrightarrow> \<not> f a) \<and>
    (sort_Search_loop f i j < j \<longrightarrow> f (sort_Search_loop f i j))"
  using assms
proof (induction f i j rule: sort_Search_loop.induct)
  case (1 f i j)
  let ?h = "(i + j) div 2"
  show ?case
  proof (cases "i < j")
    case False
    then have "sort_Search_loop f i j = i" by (subst sort_Search_loop.simps) simp
    then show ?thesis using False "1.prems" by simp
  next
    case True
    show ?thesis
    proof (cases "f ?h")
      case fh: True
      let ?r = "sort_Search_loop f i ?h"
      have r: "sort_Search_loop f i j = ?r"
        using True fh by (simp add: sort_Search_loop.simps [of f i j] Let_def)
      have h: "i \<le> ?h" "?h < j" using True by auto
      have "i \<le> ?r \<and> ?r \<le> ?h \<and> (\<forall>a. i \<le> a \<longrightarrow> a < ?r \<longrightarrow> \<not> f a) \<and> (?r < ?h \<longrightarrow> f ?r)"
      proof (rule "1.IH"(2) [OF True refl])
        show "f b" if "a \<le> b" "b < ?h" "f a" for a b
          by (rule "1.prems"(2) [OF that(1) less_trans [OF that(2) h(2)] that(3)])
      qed (use fh h in simp_all)
      moreover from this have "f ?r" using fh by (metis le_neq_implies_less)
      ultimately show ?thesis unfolding r using h by simp
    next
      case fh: False
      let ?r = "sort_Search_loop f (Suc ?h) j"
      have r: "sort_Search_loop f i j = ?r"
        using True fh by (simp add: sort_Search_loop.simps [of f i j] Let_def)
      have h: "?h < j" "i \<le> ?h" using True by auto
      have low: "\<not> f a" if "a \<le> ?h" for a
        using fh "1.prems"(2) [of a ?h] that h by blast
      have "Suc ?h \<le> ?r \<and> ?r \<le> j \<and> (\<forall>a. Suc ?h \<le> a \<longrightarrow> a < ?r \<longrightarrow> \<not> f a) \<and> (?r < j \<longrightarrow> f ?r)"
        by (rule "1.IH"(1) [OF True refl fh _ "1.prems"(2)]) (use h in simp)
      then show ?thesis unfolding r using h low by (auto simp: not_less_eq_eq [symmetric])
    qed
  qed
qed

lemma sort_Search_sorted:
  fixes xs :: "int list" and h :: int
  assumes "sorted xs"
  defines "idx \<equiv> sort_Search (length xs) (\<lambda>i. xs ! i \<ge> h)"
  shows "idx \<le> length xs" "\<And>a. a < idx \<Longrightarrow> xs ! a < h" "idx < length xs \<Longrightarrow> h \<le> xs ! idx"
proof -
  have mono: "\<And>a b. a \<le> b \<Longrightarrow> b < length xs \<Longrightarrow> h \<le> xs ! a \<Longrightarrow> h \<le> xs ! b"
    using assms(1) by (meson order_trans sorted_nth_mono)
  note * = sort_Search_loop_correct [of 0 "length xs" "\<lambda>i. h \<le> xs ! i", OF _ mono]
  show "idx \<le> length xs" "\<And>a. a < idx \<Longrightarrow> xs ! a < h" "idx < length xs \<Longrightarrow> h \<le> xs ! idx"
    using * by (auto simp: idx_def sort_Search_def not_le)
qed

lemma Min_eqI_list: "x \<in> set xs \<Longrightarrow> (\<And>y. y \<in> set xs \<Longrightarrow> x \<le> y) \<Longrightarrow> Min (set xs) = x"
  by (rule Min_eqI) auto

text \<open>The binary search and the wrap-around together find the point of the linear scan.\<close>

lemma search_ring_point:
  fixes xs :: "int list" and h :: int
  assumes s: "sorted xs" and ne: "xs \<noteq> []"
  defines "idx \<equiv> sort_Search (length xs) (\<lambda>i. xs ! i \<ge> h)"
  shows "xs ! (idx mod length xs) = ring_point xs h"
proof (cases "idx < length xs")
  case True
  have lt: "\<And>a. a < idx \<Longrightarrow> xs ! a < h" and ge: "h \<le> xs ! idx"
    using sort_Search_sorted [OF s, where h = h] True by (auto simp: idx_def)
  have "xs ! idx \<le> y" if y: "y \<in> set xs" "h \<le> y" for y
  proof -
    obtain b where b: "b < length xs" "y = xs ! b" using y(1) by (auto simp: in_set_conv_nth)
    then have "idx \<le> b" using lt [of b] y(2) by (cases "b < idx") auto
    then show ?thesis using b s by (simp add: sorted_nth_mono)
  qed
  then have "Min (set (filter (\<lambda>x. h \<le> x) xs)) = xs ! idx"
    using True ge by (intro Min_eqI_list) auto
  moreover have "filter (\<lambda>x. h \<le> x) xs \<noteq> []" using True ge by (auto simp: filter_empty_conv)
  ultimately show ?thesis using True by (simp add: ring_point_def)
next
  case False
  then have idx: "idx = length xs" and lt: "\<And>a. a < length xs \<Longrightarrow> xs ! a < h"
    using sort_Search_sorted [OF s, where h = h] by (auto simp: idx_def)
  then have "\<forall>x \<in> set xs. \<not> h \<le> x" by (metis in_set_conv_nth not_le)
  then have "filter (\<lambda>x. h \<le> x) xs = []" by (simp add: filter_empty_conv)
  moreover have "Min (set xs) = xs ! 0"
    using ne s by (intro Min_eqI_list) (auto simp: in_set_conv_nth sorted_nth_mono)
  ultimately show ?thesis using idx by (simp add: ring_point_def)
qed

subsection \<open>What \<^verbatim>\<open>Add\<close> does to the ring\<close>

lemma ch_add_points:
  "foldl (ch_add_point key) m is =
     m\<lparr>keys := keys m @ map (\<lambda>i. uint (ch_hash m (strconv_Itoa i @ key))) is,
       hashMap := (\<lambda>p. if p \<in> (\<lambda>i. uint (ch_hash m (strconv_Itoa i @ key))) ` set is
                       then Some key else hashMap m p)\<rparr>"
  by (induction "is" arbitrary: m) (auto simp: ch_add_point_def Let_def fun_eq_iff)

lemma ch_add_node_eq:
  "ch_add_node m n =
     m\<lparr>keys := keys m @ map (\<lambda>i. uint (ch_hash m (strconv_Itoa i @ n))) [0..<nat (replicas m)],
       hashMap := (\<lambda>p. if p \<in> node_points (ch_hash m) (replicas m) n then Some n else hashMap m p)\<rparr>"
  by (simp add: ch_add_node_def ch_add_points node_points_def)

lemma ch_add_node_fields [simp]:
  "ch_hash (ch_add_node m n) = ch_hash m" "replicas (ch_add_node m n) = replicas m"
  by (simp_all add: ch_add_node_eq)

lemma ch_add_nodes_fields [simp]:
  "ch_hash (foldl ch_add_node m ks) = ch_hash m" "replicas (foldl ch_add_node m ks) = replicas m"
  by (induction ks arbitrary: m) auto

lemma ch_Add_fields [simp]:
  "ch_hash (ch_Add m ks) = ch_hash m" "replicas (ch_Add m ks) = replicas m"
  "hashMap (ch_Add m ks) = hashMap (foldl ch_add_node m ks)"
  "set (keys (ch_Add m ks)) = set (keys (foldl ch_add_node m ks))"
  "sorted (keys (ch_Add m ks))"
  by (simp_all add: ch_Add_def Let_def)

lemma set_keys_add_nodes:
  "set (keys (foldl ch_add_node m ks)) =
     set (keys m) \<union> (\<Union>n \<in> set ks. node_points (ch_hash m) (replicas m) n)"
  by (induction ks arbitrary: m) (auto simp: ch_add_node_eq node_points_def)

text \<open>A point belongs to the last node added that has it.\<close>

lemma hashMap_add_nodes:
  "hashMap (foldl ch_add_node m ks) p =
     (case filter (\<lambda>n. p \<in> node_points (ch_hash m) (replicas m) n) ks of
        [] \<Rightarrow> hashMap m p | n # ns \<Rightarrow> Some (last (n # ns)))"
proof (induction ks arbitrary: m)
  case (Cons k ks)
  show ?case
    by (simp add: Cons.IH) (auto simp: ch_add_node_eq split: list.splits)
qed simp

lemma hashMap_add_nodes_owner:
  assumes "hashMap (foldl ch_add_node (ch_New r fn) ks) p = Some n"
  shows "n \<in> set ks \<and> p \<in> node_points (ch_hash (ch_New r fn)) r n"
proof -
  let ?f = "filter (\<lambda>n. p \<in> node_points (ch_hash (ch_New r fn)) r n) ks"
  have "?f \<noteq> []" "n = last ?f"
    using assms by (auto simp: hashMap_add_nodes ch_New_def split: list.splits)
  then have "n \<in> set ?f" by (metis last_in_set)
  then show ?thesis by simp
qed

lemma dom_hashMap_add_nodes:
  "dom (hashMap (foldl ch_add_node m ks)) =
     dom (hashMap m) \<union> (\<Union>n \<in> set ks. node_points (ch_hash m) (replicas m) n)"
  by (induction ks arbitrary: m) (auto simp: ch_add_node_eq dom_def)

lemma ch_inv_New [simp]: "ch_inv (ch_New r fn)"
  by (simp add: ch_inv_def ch_New_def)

lemma ch_inv_Add: "ch_inv m \<Longrightarrow> ch_inv (ch_Add m ks)"
  by (simp add: ch_inv_def set_keys_add_nodes dom_hashMap_add_nodes)

lemma ring_point_in: "ks \<noteq> [] \<Longrightarrow> ring_point ks h \<in> set ks"
  using Min_in [of "set (filter (\<lambda>x. h \<le> x) ks)"] Min_in [of "set ks"]
  by (auto simp: ring_point_def filter_empty_conv)

lemma ch_Get_point:
  assumes inv: "ch_inv m" and ne: "keys m \<noteq> []"
  shows "hashMap m (ring_point (keys m) (uint (ch_hash m k))) = Some (ch_Get m k)"
proof -
  let ?p = "ring_point (keys m) (uint (ch_hash m k))"
  have "?p \<in> dom (hashMap m)" using inv ring_point_in [OF ne] by (auto simp: ch_inv_def)
  then obtain n where "hashMap m ?p = Some n" by blast
  moreover have "sorted (keys m)" using inv by (simp add: ch_inv_def)
  ultimately show ?thesis
    using search_ring_point [of "keys m" "uint (ch_hash m k)"] ne by (simp add: ch_Get_def Let_def)
qed

lemma ch_keys_nonempty:
  assumes "ks \<noteq> []" "0 < r"
  shows "keys (ch_Add (ch_New r fn) ks) \<noteq> []"
proof -
  have "set (keys (ch_Add (ch_New r fn) ks)) \<noteq> {}"
    using assms by (auto simp: set_keys_add_nodes node_points_def ch_New_def neq_Nil_conv)
  then show ?thesis by (metis set_empty)
qed

lemma ch_Get_owner:
  assumes "ks \<noteq> []" "0 < r"
  shows "ch_Get (ch_Add (ch_New r fn) ks) k \<in> set ks"
  using ch_Get_point [OF ch_inv_Add [OF ch_inv_New] ch_keys_nonempty [OF assms], of fn k]
  by (auto dest: hashMap_add_nodes_owner)

lemma ch_Get_empty: "keys m = [] \<Longrightarrow> ch_Get m k = []"
  by (simp add: ch_Get_def)

lemma ring_point_least:
  assumes "ks \<noteq> []"
  shows "if \<exists>q \<in> set ks. h \<le> q then h \<le> ring_point ks h \<and> (\<forall>q \<in> set ks. h \<le> q \<longrightarrow> ring_point ks h \<le> q)
         else \<forall>q \<in> set ks. ring_point ks h \<le> q"
proof (cases "filter (\<lambda>x. h \<le> x) ks = []")
  case True
  then have "ring_point ks h = Min (set ks)" by (simp add: ring_point_def)
  with True show ?thesis by (simp add: filter_empty_conv)
next
  case False
  then have "ring_point ks h = Min (set (filter (\<lambda>x. h \<le> x) ks))" by (simp add: ring_point_def)
  moreover have "Min (set (filter (\<lambda>x. h \<le> x) ks)) \<in> set (filter (\<lambda>x. h \<le> x) ks)"
    using False by (intro Min_in) (auto simp: filter_empty_conv)
  moreover have "\<exists>q \<in> set ks. h \<le> q" using False by (auto simp: filter_empty_conv)
  ultimately show ?thesis by auto
qed

text \<open>A ring that grows by some points: the point of a hash is a new one or the old one.\<close>

lemma ring_point_grow:
  assumes "ks \<noteq> []" and "set ks' = set ks \<union> N"
  shows "ring_point ks' h \<in> N \<or> ring_point ks' h = ring_point ks h"
proof (cases "ring_point ks' h \<in> N")
  case False
  have ne: "ks' \<noteq> []" using assms by (cases ks) auto
  have in': "ring_point ks' h \<in> set ks" and "in": "ring_point ks h \<in> set ks"
    using ring_point_in [OF ne, of h] ring_point_in [OF assms(1), of h] False assms(2) by auto
  have sub: "set ks \<subseteq> set ks'" using assms(2) by simp
  note least = ring_point_least [OF assms(1), of h] ring_point_least [OF ne, of h]
  show ?thesis
  proof (cases "\<exists>q \<in> set ks. h \<le> q")
    case True
    with sub have "\<exists>q \<in> set ks'. h \<le> q" by blast
    with True least "in" in' sub show ?thesis by (auto intro!: antisym)
  next
    case none: False
    with in' least(2) have "\<not> (\<exists>q \<in> set ks'. h \<le> q)" by (auto split: if_splits)
    with none least "in" in' sub show ?thesis by (auto intro!: antisym)
  qed
qed simp

lemma ch_Get_order:
  assumes "set ks = set ks'"
    and free: "\<And>n n'. n \<in> set ks \<Longrightarrow> n' \<in> set ks \<Longrightarrow> n \<noteq> n' \<Longrightarrow>
      node_points (ch_hash (ch_New r fn)) r n \<inter> node_points (ch_hash (ch_New r fn)) r n' = {}"
  shows "ch_Get (ch_Add (ch_New r fn) ks) k = ch_Get (ch_Add (ch_New r fn) ks') k"
proof -
  let ?m = "ch_Add (ch_New r fn) ks" and ?m' = "ch_Add (ch_New r fn) ks'"
  have keys: "set (keys ?m) = set (keys ?m')" by (simp add: set_keys_add_nodes assms(1))
  show ?thesis
  proof (cases "keys ?m = []")
    case True
    with keys have "keys ?m' = []" by (metis set_empty)
    with True show ?thesis by (simp add: ch_Get_empty)
  next
    case False
    with keys have False': "keys ?m' \<noteq> []" by (metis set_empty)
    let ?h = "uint (ch_hash ?m k)"
    have "ring_point (keys ?m') ?h = ring_point (keys ?m) ?h"
      using ring_point_grow [OF False', of "keys ?m" "{}" ?h] keys by simp
    moreover obtain p where "p = ring_point (keys ?m) ?h" by simp
    ultimately have "hashMap ?m p = Some (ch_Get ?m k)" "hashMap ?m' p = Some (ch_Get ?m' k)"
      using ch_Get_point [OF ch_inv_Add [OF ch_inv_New] False, of k]
        ch_Get_point [OF ch_inv_Add [OF ch_inv_New] False', of k] by simp_all
    then show ?thesis
      using free assms(1) by (auto dest!: hashMap_add_nodes_owner)
  qed
qed

subsection \<open>Properties\<close>

text \<open>The hash of \<^verbatim>\<open>consistenthash_test.go\<close>: the bytes read as a decimal number.\<close>

definition atoi_hash :: "bytes \<Rightarrow> uint32" where
  "atoi_hash s = of_nat (foldl (\<lambda>n c. 10 * n + (of_char c - 48)) 0 s)"

text \<open>C5: on a ring to which at least one node was added with at least one replica, \<^verbatim>\<open>Get\<close> returns the
  owner of the first point at or after the hash of the key, or of the first point of the ring when
  there is none after it; and what it returns is one of the nodes added.\<close>

theorem ch_Get_first_point:
  assumes "ks \<noteq> []" and "0 < r" and m_def: "m = ch_Add (ch_New r fn) ks"
  shows "\<exists>p \<in> set (keys m). hashMap m p = Some (ch_Get m k) \<and> ch_Get m k \<in> set ks \<and>
    (let h = uint (ch_hash m k) in
       if \<exists>q \<in> set (keys m). h \<le> q then h \<le> p \<and> (\<forall>q \<in> set (keys m). h \<le> q \<longrightarrow> p \<le> q)
       else \<forall>q \<in> set (keys m). p \<le> q)"
proof -
  have inv: "ch_inv m" by (simp add: m_def ch_inv_Add)
  have ne: "keys m \<noteq> []" unfolding m_def by (rule ch_keys_nonempty [OF assms(1,2)])
  let ?p = "ring_point (keys m) (uint (ch_hash m k))"
  have own: "hashMap m ?p = Some (ch_Get m k)" by (rule ch_Get_point [OF inv ne])
  have "ch_Get m k \<in> set ks" unfolding m_def by (rule ch_Get_owner [OF assms(1,2)])
  then show ?thesis
    using own ring_point_in [OF ne] ring_point_least [OF ne, of "uint (ch_hash m k)"]
    unfolding Let_def by (intro bexI [of _ ?p] conjI)
qed

text \<open>C6: adding a node moves keys to that node only. Every key is then served by the new node or by
  the node that served it before, hash collisions included.\<close>

theorem ch_Add_minimal_disruption:
  assumes "ch_inv m"
  shows "ch_Get (ch_Add m [n]) k = n \<or> ch_Get (ch_Add m [n]) k = ch_Get m k"
proof -
  let ?m = "ch_Add m [n]" and ?N = "node_points (ch_hash m) (replicas m) n"
  have keys: "set (keys ?m) = set (keys m) \<union> ?N" using set_keys_add_nodes [of m "[n]"] by simp
  have own: "hashMap ?m p = (if p \<in> ?N then Some n else hashMap m p)" for p
    by (simp add: ch_add_node_eq)
  show ?thesis
  proof (cases "keys ?m = []")
    case True
    with keys show ?thesis by (simp add: ch_Get_empty)
  next
    case False
    let ?h = "uint (ch_hash m k)"
    have get: "hashMap ?m (ring_point (keys ?m) ?h) = Some (ch_Get ?m k)"
      using ch_Get_point [OF ch_inv_Add [OF assms] False] by simp
    show ?thesis
    proof (cases "ring_point (keys ?m) ?h \<in> ?N")
      case True
      with get own show ?thesis by simp
    next
      case old: False
      then have "keys m \<noteq> []" using ring_point_in [OF False, of ?h] keys by auto
      moreover from this old have "ring_point (keys ?m) ?h = ring_point (keys m) ?h"
        using ring_point_grow [OF _ keys] by blast
      ultimately show ?thesis using get own old ch_Get_point [OF assms, of k] by simp
    qed
  qed
qed

theorem ch_Add_minimal_disruption_witness:
  "ch_Get (ch_Add (ch_Add (ch_New 3 (Some atoi_hash)) [''6'', ''4'', ''2'']) [''8'']) ''27''
     \<in> {''8'', ch_Get (ch_Add (ch_New 3 (Some atoi_hash)) [''6'', ''4'', ''2'']) ''27''}"
  using ch_Add_minimal_disruption [OF ch_inv_Add [OF ch_inv_New], of 3 "Some atoi_hash"] by simp

text \<open>When no two nodes share a virtual point, the order in which nodes were added does not matter:
  processes that build the ring from the same nodes in any order pick the same node for every key.\<close>

theorem ch_order_independent:
  assumes "set ks = set ks'"
    and free: "\<And>n n'. n \<in> set ks \<Longrightarrow> n' \<in> set ks \<Longrightarrow> n \<noteq> n' \<Longrightarrow>
      node_points (ch_hash (ch_New r fn)) r n \<inter> node_points (ch_hash (ch_New r fn)) r n' = {}"
  shows "ch_Get (ch_Add (ch_New r fn) ks) k = ch_Get (ch_Add (ch_New r fn) ks') k"
  using assms by (rule ch_Get_order)

theorem ch_Get_first_point_witness:
  "ch_Get (ch_Add (ch_New 3 (Some atoi_hash)) [''6'', ''4'', ''2'']) ''11'' \<in> {''6'', ''4'', ''2''}"
  using ch_Get_first_point [of "[''6'', ''4'', ''2'']" 3 _ "Some atoi_hash" "''11''"] by auto

theorem ch_order_independent_witness:
  "ch_Get (ch_Add (ch_New 2 (Some atoi_hash)) [''6'', ''4'']) ''11'' =
   ch_Get (ch_Add (ch_New 2 (Some atoi_hash)) [''4'', ''6'']) ''11''"
proof (rule ch_order_independent)
  have r: "{0..<nat 2} = {0, Suc 0}" by auto
  have "node_points atoi_hash 2 ''6'' = {6, 16}" "node_points atoi_hash 2 ''4'' = {4, 14}"
    unfolding node_points_def r by (simp_all add: atoi_hash_def strconv_Itoa.simps)
  then show "node_points (ch_hash (ch_New 2 (Some atoi_hash))) 2 n \<inter>
      node_points (ch_hash (ch_New 2 (Some atoi_hash))) 2 n' = {}"
    if "n \<in> set [''6'', ''4'']" "n' \<in> set [''6'', ''4'']" "n \<noteq> n'" for n n'
    using that by (auto simp: ch_New_def)
qed auto

end
