(* ===== verification/Singleflight.thy ===== *)
theory Singleflight
  imports Prelude
begin

section \<open>Duplicate call suppression (\<^verbatim>\<open>cache/singleflight/singleflight.go\<close>)\<close>

text \<open>
  \<^verbatim>\<open>Group.Do(key, fn)\<close> runs \<open>fn\<close> once for all goroutines that ask for the same key while it runs.
  Any number of goroutines (numbered by \<^typ>\<open>nat\<close>) execute \<^verbatim>\<open>Do\<close> concurrently. The sections
  between \<^verbatim>\<open>mu.Lock\<close> and \<^verbatim>\<open>mu.Unlock\<close> are atomic; the assignment of the result, \<^verbatim>\<open>wg.Done\<close> and
  \<^verbatim>\<open>wg.Wait\<close> are steps of their own, so that every interleaving the code admits is a run of the
  step relation. A \<^verbatim>\<open>call\<close> is an object on the heap; \<open>'r\<close> stands for the pair of value and
  error that \<open>fn\<close> returns, and \<^const>\<open>None\<close> for the zero values of \<^verbatim>\<open>c.val\<close> and \<^verbatim>\<open>c.err\<close>.
  \<open>fn\<close> may also panic, which ends the goroutine. A \<^verbatim>\<open>nil\<close> map \<^verbatim>\<open>g.m\<close> behaves as the empty one
  that lines 18 to 20 put in its place.
\<close>

subsection \<open>State\<close>

record 'r call =
  wg :: nat
  c_ret :: "'r option"

datatype 'r sf_pc =
    Outside
  | Waiting string nat
  | InFn string nat
  | FnDone string nat
  | Finished string nat
  | Deleted string nat
  | Returned string "'r option"
  | Panicked string nat

text \<open>\<open>sf_log\<close> records which results \<open>fn\<close> returned for which key; no step reads it.\<close>

record 'r sf_group =
  sf_m :: "string \<rightharpoonup> nat"
  sf_calls :: "nat \<rightharpoonup> 'r call"
  sf_next :: nat
  sf_pc :: "nat \<Rightarrow> 'r sf_pc"
  sf_log :: "(string \<times> 'r) list"

definition sf_init :: "'r sf_group" where
  "sf_init = \<lparr>sf_m = Map.empty, sf_calls = Map.empty, sf_next = 0, sf_pc = (\<lambda>_. Outside), sf_log = []\<rparr>"

subsection \<open>The steps of \<^verbatim>\<open>Do\<close>\<close>

definition set_pc :: "'r sf_group \<Rightarrow> nat \<Rightarrow> 'r sf_pc \<Rightarrow> 'r sf_group" where
  "set_pc s i p = s\<lparr>sf_pc := (sf_pc s)(i := p)\<rparr>"

text \<open>The first critical section: join the call in flight, or register a new one.\<close>

definition sf_enter :: "'r sf_group \<Rightarrow> nat \<Rightarrow> string \<Rightarrow> 'r sf_group" where
  "sf_enter s i key =
     (case sf_m s key of
        Some c \<Rightarrow> set_pc s i (Waiting key c)
      | None \<Rightarrow>
          let c = sf_next s;
              s1 = s\<lparr>sf_next := Suc c, sf_calls := (sf_calls s)(c \<mapsto> \<lparr>wg = 1, c_ret = None\<rparr>)\<rparr>;
              s2 = s1\<lparr>sf_m := (sf_m s1)(key \<mapsto> c)\<rparr>
          in set_pc s2 i (InFn key c))"

text \<open>\<^verbatim>\<open>c.val, c.err = fn()\<close>\<close>

definition sf_fn_return :: "'r sf_group \<Rightarrow> nat \<Rightarrow> string \<Rightarrow> nat \<Rightarrow> 'r \<Rightarrow> 'r sf_group" where
  "sf_fn_return s i key c r =
     set_pc (s\<lparr>sf_calls := (sf_calls s)(c \<mapsto> (the (sf_calls s c))\<lparr>c_ret := Some r\<rparr>),
               sf_log := sf_log s @ [(key, r)]\<rparr>) i (FnDone key c)"

text \<open>\<^verbatim>\<open>c.wg.Done()\<close>\<close>

definition sf_done :: "'r sf_group \<Rightarrow> nat \<Rightarrow> string \<Rightarrow> nat \<Rightarrow> 'r sf_group" where
  "sf_done s i key c =
     (let obj = the (sf_calls s c)
      in set_pc (s\<lparr>sf_calls := (sf_calls s)(c \<mapsto> obj\<lparr>wg := wg obj - 1\<rparr>)\<rparr>) i (Finished key c))"

text \<open>The second critical section, \<^verbatim>\<open>delete(g.m, key)\<close>.\<close>

definition sf_delete :: "'r sf_group \<Rightarrow> nat \<Rightarrow> string \<Rightarrow> nat \<Rightarrow> 'r sf_group" where
  "sf_delete s i key c = set_pc (s\<lparr>sf_m := (sf_m s)(key := None)\<rparr>) i (Deleted key c)"

text \<open>\<^verbatim>\<open>return c.val, c.err\<close>, of the goroutine that ran \<open>fn\<close> and of one whose \<^verbatim>\<open>Wait\<close> is over.\<close>

definition sf_return :: "'r sf_group \<Rightarrow> nat \<Rightarrow> string \<Rightarrow> nat \<Rightarrow> 'r sf_group" where
  "sf_return s i key c = set_pc s i (Returned key (c_ret (the (sf_calls s c))))"

text \<open>\<^verbatim>\<open>Do\<close> executed by goroutine \<open>i\<close> while the others stand still. \<open>fn\<close> acts on the client's state
  \<open>'w\<close>; \<^const>\<open>None\<close> means that the call does not return, because \<open>fn\<close> does not or because it waits
  for a call that somebody else would have to finish.\<close>

definition sf_Do ::
  "'r sf_group \<Rightarrow> nat \<Rightarrow> string \<Rightarrow> ('w \<Rightarrow> ('r \<times> 'w) option) \<Rightarrow> 'w \<Rightarrow> ('r sf_group \<times> 'r option \<times> 'w) option" where
  "sf_Do s i key fn w =
     (let s1 = sf_enter s i key
      in case sf_pc s1 i of
           Waiting k c \<Rightarrow>
             if wg (the (sf_calls s1 c)) = 0
             then Some (sf_return s1 i k c, c_ret (the (sf_calls s1 c)), w) else None
         | InFn k c \<Rightarrow>
             (case fn w of
                None \<Rightarrow> None
              | Some (r, w') \<Rightarrow>
                  let s2 = sf_fn_return s1 i k c r;
                      s3 = sf_done s2 i k c;
                      s4 = sf_delete s3 i k c
                  in Some (sf_return s4 i k c, c_ret (the (sf_calls s4 c)), w'))
         | _ \<Rightarrow> None)"

fun can_call :: "'r sf_pc \<Rightarrow> bool" where
  "can_call Outside = True"
| "can_call (Returned _ _) = True"
| "can_call _ = False"

text \<open>Steps that bring a call of \<^verbatim>\<open>Do\<close> forward.\<close>

inductive sf_progress :: "nat \<Rightarrow> 'r sf_group \<Rightarrow> 'r sf_group \<Rightarrow> bool" where
  fn_return: "sf_pc s i = InFn key c \<Longrightarrow> sf_progress i s (sf_fn_return s i key c r)"
| wg_done: "sf_pc s i = FnDone key c \<Longrightarrow> sf_progress i s (sf_done s i key c)"
| del: "sf_pc s i = Finished key c \<Longrightarrow> sf_progress i s (sf_delete s i key c)"
| ret: "sf_pc s i = Deleted key c \<Longrightarrow> sf_progress i s (sf_return s i key c)"
| wake: "sf_pc s i = Waiting key c \<Longrightarrow> wg (the (sf_calls s c)) = 0 \<Longrightarrow> sf_progress i s (sf_return s i key c)"

inductive sf_step :: "'r sf_group \<Rightarrow> 'r sf_group \<Rightarrow> bool" where
  progress: "sf_progress i s s' \<Longrightarrow> sf_step s s'"
| enter: "can_call (sf_pc s i) \<Longrightarrow> sf_step s (sf_enter s i key)"
| panic: "sf_pc s i = InFn key c \<Longrightarrow> sf_step s (set_pc s i (Panicked key c))"

inductive sf_reachable :: "'r sf_group \<Rightarrow> bool" where
  init: "sf_reachable sf_init"
| step: "sf_reachable s \<Longrightarrow> sf_step s s' \<Longrightarrow> sf_reachable s'"

inductive_cases sf_stepE: "sf_step s s'"
inductive_cases sf_progressE: "sf_progress i s s'"

subsection \<open>The invariant\<close>

text \<open>The goroutine that leads a call: the key it holds in the map and the call object.\<close>

fun leads :: "'r sf_pc \<Rightarrow> (string \<times> nat) option" where
  "leads (InFn key c) = Some (key, c)"
| "leads (FnDone key c) = Some (key, c)"
| "leads (Finished key c) = Some (key, c)"
| "leads (Panicked key c) = Some (key, c)"
| "leads _ = None"

definition open_call :: "'r sf_group \<Rightarrow> nat \<Rightarrow> bool" where
  "open_call s c \<longleftrightarrow> (\<exists>x. sf_calls s c = Some \<lparr>wg = 1, c_ret = x\<rparr>)"

text \<open>The call of a key is over: its result is one \<open>fn\<close> returned for that key.\<close>

definition closed_call :: "'r sf_group \<Rightarrow> string \<Rightarrow> nat \<Rightarrow> bool" where
  "closed_call s key c \<longleftrightarrow> (\<exists>r. sf_calls s c = Some \<lparr>wg = 0, c_ret = Some r\<rparr> \<and> (key, r) \<in> set (sf_log s))"

fun pc_ok :: "'r sf_group \<Rightarrow> 'r sf_pc \<Rightarrow> bool" where
  "pc_ok s Outside = True"
| "pc_ok s (Waiting key c) = (closed_call s key c \<or> open_call s c \<and> sf_m s key = Some c)"
| "pc_ok s (InFn key c) = (sf_calls s c = Some \<lparr>wg = 1, c_ret = None\<rparr>)"
| "pc_ok s (FnDone key c) = (\<exists>r. sf_calls s c = Some \<lparr>wg = 1, c_ret = Some r\<rparr> \<and> (key, r) \<in> set (sf_log s))"
| "pc_ok s (Finished key c) = closed_call s key c"
| "pc_ok s (Deleted key c) = closed_call s key c"
| "pc_ok s (Returned key x) = (\<exists>r. x = Some r \<and> (key, r) \<in> set (sf_log s))"
| "pc_ok s (Panicked key c) = (sf_calls s c = Some \<lparr>wg = 1, c_ret = None\<rparr>)"

definition sf_inv :: "'r sf_group \<Rightarrow> bool" where
  "sf_inv s \<longleftrightarrow>
     (\<forall>i. pc_ok s (sf_pc s i)) \<and>
     (\<forall>key c. sf_m s key = Some c \<longleftrightarrow> (\<exists>i. leads (sf_pc s i) = Some (key, c))) \<and>
     (\<forall>i j key c c'. leads (sf_pc s i) = Some (key, c) \<longrightarrow> leads (sf_pc s j) = Some (key, c') \<longrightarrow> i = j) \<and>
     (\<forall>i j key key' c. leads (sf_pc s i) = Some (key, c) \<longrightarrow> leads (sf_pc s j) = Some (key', c) \<longrightarrow> i = j) \<and>
     (\<forall>c. sf_calls s c \<noteq> None \<longrightarrow> c < sf_next s)"

lemma sf_invD:
  assumes "sf_inv s"
  shows "pc_ok s (sf_pc s i)"
    and "sf_m s key = Some c \<longleftrightarrow> (\<exists>i. leads (sf_pc s i) = Some (key, c))"
    and "leads (sf_pc s i) = Some (key, c) \<Longrightarrow> leads (sf_pc s j) = Some (key, c') \<Longrightarrow> i = j"
    and "leads (sf_pc s i) = Some (key, c) \<Longrightarrow> leads (sf_pc s j) = Some (key', c) \<Longrightarrow> i = j"
    and "sf_calls s c = Some x \<Longrightarrow> c < sf_next s"
  using assms unfolding sf_inv_def by blast+

lemma sf_invI:
  assumes "\<And>i. pc_ok s (sf_pc s i)"
    and "\<And>key c. sf_m s key = Some c \<longleftrightarrow> (\<exists>i. leads (sf_pc s i) = Some (key, c))"
    and "\<And>i j key c c'. leads (sf_pc s i) = Some (key, c) \<Longrightarrow> leads (sf_pc s j) = Some (key, c') \<Longrightarrow> i = j"
    and "\<And>i j key key' c. leads (sf_pc s i) = Some (key, c) \<Longrightarrow> leads (sf_pc s j) = Some (key', c) \<Longrightarrow> i = j"
    and "\<And>c x. sf_calls s c = Some x \<Longrightarrow> c < sf_next s"
  shows "sf_inv s"
  unfolding sf_inv_def using assms by blast

lemma ex_leads_upd:
  "leads (f i) \<noteq> Some x \<Longrightarrow>
   (\<exists>j. leads ((f(i := p)) j) = Some x) \<longleftrightarrow> leads p = Some x \<or> (\<exists>j. leads (f j) = Some x)"
  by (metis fun_upd_apply)

text \<open>A step that leaves the map alone and keeps what goroutine \<open>i\<close> leads keeps the uniqueness
  part of the invariant.\<close>

lemma sf_inv_same_leads:
  assumes inv: "sf_inv s" and l: "leads p = leads (sf_pc s i)"
    and s': "sf_m s' = sf_m s" "sf_pc s' = (sf_pc s)(i := p)" "sf_next s' = sf_next s"
      "\<And>c. sf_calls s' c \<noteq> None \<Longrightarrow> sf_calls s c \<noteq> None"
    and ok: "pc_ok s' p" "\<And>j. j \<noteq> i \<Longrightarrow> pc_ok s' (sf_pc s j)"
  shows "sf_inv s'"
proof -
  have leads: "leads (sf_pc s' j) = leads (sf_pc s j)" for j using l s'(2) by simp
  show ?thesis
  proof (rule sf_invI)
    show "pc_ok s' (sf_pc s' j)" for j using ok s'(2) by simp
    show "sf_m s' key = Some c \<longleftrightarrow> (\<exists>i. leads (sf_pc s' i) = Some (key, c))" for key c
      unfolding leads s'(1) by (rule sf_invD(2) [OF inv])
    show "j = k" if "leads (sf_pc s' j) = Some (key, c)" "leads (sf_pc s' k) = Some (key, c')"
      for j k key c c'
      using that unfolding leads by (rule sf_invD(3) [OF inv])
    show "j = k" if "leads (sf_pc s' j) = Some (key, c)" "leads (sf_pc s' k) = Some (key', c)"
      for j k key key' c
      using that unfolding leads by (rule sf_invD(4) [OF inv])
    show "c < sf_next s'" if "sf_calls s' c = Some x" for c x
      using s'(3) s'(4) [of c] that sf_invD(5) [OF inv, of c] by auto
  qed
qed

lemma sf_inv_init: "sf_inv sf_init"
  by (simp add: sf_inv_def sf_init_def)

lemma sf_inv_fn_return:
  assumes inv: "sf_inv s" and pc: "sf_pc s i = InFn key c"
  shows "sf_inv (sf_fn_return s i key c r)"
proof (rule sf_inv_same_leads [OF inv, where i = i and p = "FnDone key c"])
  have c: "sf_calls s c = Some \<lparr>wg = 1, c_ret = None\<rparr>" using sf_invD(1) [OF inv, of i] pc by simp
  then show "pc_ok (sf_fn_return s i key c r) (FnDone key c)"
    by (auto simp: sf_fn_return_def set_pc_def)
  fix j assume j: "j \<noteq> i"
  have "leads (sf_pc s j) \<noteq> Some (k, c)" for k
    using sf_invD(4) [OF inv, of i key c j k] pc j by auto
  then show "pc_ok (sf_fn_return s i key c r) (sf_pc s j)"
    using sf_invD(1) [OF inv, of j] c
    by (cases "sf_pc s j") (auto simp: sf_fn_return_def set_pc_def open_call_def closed_call_def)
qed (use sf_invD(1) [OF inv, of i] pc in \<open>auto simp: sf_fn_return_def set_pc_def split: if_splits\<close>)

lemma sf_inv_done:
  assumes inv: "sf_inv s" and pc: "sf_pc s i = FnDone key c"
  shows "sf_inv (sf_done s i key c)"
proof (rule sf_inv_same_leads [OF inv, where i = i and p = "Finished key c"])
  obtain r where c: "sf_calls s c = Some \<lparr>wg = 1, c_ret = Some r\<rparr>" "(key, r) \<in> set (sf_log s)"
    using sf_invD(1) [OF inv, of i] pc by auto
  then show "pc_ok (sf_done s i key c) (Finished key c)"
    by (auto simp: sf_done_def set_pc_def closed_call_def)
  fix j assume j: "j \<noteq> i"
  have "leads (sf_pc s j) \<noteq> Some (k, c)" for k
    using sf_invD(4) [OF inv, of i key c j k] pc j by auto
  moreover have "k = key" if "sf_m s k = Some c" for k
    using that sf_invD(2) [OF inv, of k c] sf_invD(4) [OF inv, of i key c _ k] pc by auto
  ultimately show "pc_ok (sf_done s i key c) (sf_pc s j)"
    using sf_invD(1) [OF inv, of j] c
    by (cases "sf_pc s j") (auto simp: sf_done_def set_pc_def open_call_def closed_call_def Let_def)
qed (use sf_invD(1) [OF inv, of i] pc in \<open>auto simp: sf_done_def set_pc_def Let_def split: if_splits\<close>)

lemma sf_inv_return:
  assumes inv: "sf_inv s" and pc: "sf_pc s i = Deleted key c \<or> sf_pc s i = Waiting key c"
    and closed: "closed_call s key c"
  shows "sf_inv (sf_return s i key c)"
proof (rule sf_inv_same_leads [OF inv, where i = i and p = "Returned key (c_ret (the (sf_calls s c)))"])
  show "pc_ok (sf_return s i key c) (Returned key (c_ret (the (sf_calls s c))))"
    using closed by (auto simp: closed_call_def sf_return_def set_pc_def)
  show "pc_ok (sf_return s i key c) (sf_pc s j)" for j
    using sf_invD(1) [OF inv, of j]
    by (cases "sf_pc s j") (auto simp: sf_return_def set_pc_def open_call_def closed_call_def)
qed (use pc in \<open>auto simp: sf_return_def set_pc_def\<close>)

lemma sf_inv_panic:
  assumes inv: "sf_inv s" and pc: "sf_pc s i = InFn key c"
  shows "sf_inv (set_pc s i (Panicked key c))"
proof (rule sf_inv_same_leads [OF inv, where i = i and p = "Panicked key c"])
  show "pc_ok (set_pc s i (Panicked key c)) (Panicked key c)"
    using sf_invD(1) [OF inv, of i] pc by (simp add: set_pc_def)
  show "pc_ok (set_pc s i (Panicked key c)) (sf_pc s j)" for j
    using sf_invD(1) [OF inv, of j]
    by (cases "sf_pc s j") (auto simp: set_pc_def open_call_def closed_call_def)
qed (use pc in \<open>auto simp: set_pc_def\<close>)

lemma sf_inv_delete:
  assumes inv: "sf_inv s" and pc: "sf_pc s i = Finished key c"
  shows "sf_inv (sf_delete s i key c)"
proof -
  have m: "sf_m s key = Some c" using sf_invD(2) [OF inv, of key c] pc by (metis leads.simps(3))
  have cl: "closed_call s key c" using sf_invD(1) [OF inv, of i] pc by simp
  have "pc_ok (sf_delete s i key c) (sf_pc s j)" for j
    using sf_invD(1) [OF inv, of j] m cl
    by (cases "sf_pc s j") (auto simp: sf_delete_def set_pc_def open_call_def closed_call_def)
  moreover have "pc_ok (sf_delete s i key c) (Deleted key c)"
    using cl by (simp add: sf_delete_def set_pc_def closed_call_def)
  moreover have "sf_pc (sf_delete s i key c) = (sf_pc s)(i := Deleted key c)"
    "sf_m (sf_delete s i key c) = (sf_m s)(key := None)" "sf_next (sf_delete s i key c) = sf_next s"
    "sf_calls (sf_delete s i key c) = sf_calls s"
    by (simp_all add: sf_delete_def set_pc_def)
  moreover have only: "j = i" if "leads (sf_pc s j) = Some (key, c')" for j c'
    using sf_invD(3) [OF inv, of j key c' i c] that pc by simp
  moreover have "((sf_m s)(key := None)) k = Some d \<longleftrightarrow>
      (\<exists>j. leads (((sf_pc s)(i := Deleted key c)) j) = Some (k, d))" for k d
  proof (cases "k = key")
    case True
    then show ?thesis using only by auto
  next
    case False
    then show ?thesis
      using sf_invD(2) [OF inv, of k d] pc by (subst ex_leads_upd) auto
  qed
  ultimately show ?thesis
    using inv pc unfolding sf_inv_def
    by (intro conjI allI impI) (auto split: if_splits)
qed

lemma sf_inv_enter:
  assumes inv: "sf_inv s" and pc: "can_call (sf_pc s i)"
  shows "sf_inv (sf_enter s i key)"
proof (cases "sf_m s key")
  case (Some c)
  have nl: "leads (sf_pc s i) = None" using pc by (cases "sf_pc s i") auto
  obtain j where j: "leads (sf_pc s j) = Some (key, c)" using sf_invD(2) [OF inv] Some by blast
  have ok: "pc_ok s (Waiting key c)"
    using sf_invD(1) [OF inv, of j] j Some by (cases "sf_pc s j") (auto simp: open_call_def closed_call_def)
  have e: "sf_enter s i key = set_pc s i (Waiting key c)" using Some by (simp add: sf_enter_def)
  show ?thesis unfolding e
  proof (rule sf_inv_same_leads [OF inv, where i = i and p = "Waiting key c"])
    show "pc_ok (set_pc s i (Waiting key c)) (Waiting key c)"
      using ok by (simp add: set_pc_def open_call_def closed_call_def)
    show "pc_ok (set_pc s i (Waiting key c)) (sf_pc s k)" for k
      using sf_invD(1) [OF inv, of k]
      by (cases "sf_pc s k") (auto simp: set_pc_def open_call_def closed_call_def)
  qed (use nl in \<open>auto simp: set_pc_def\<close>)
next
  case None
  let ?c = "sf_next s" and ?s = "sf_enter s i key"
  have nl: "leads (sf_pc s i) = None" using pc by (cases "sf_pc s i") auto
  have f: "sf_pc ?s = (sf_pc s)(i := InFn key ?c)" "sf_m ?s = (sf_m s)(key \<mapsto> ?c)"
    "sf_calls ?s = (sf_calls s)(?c \<mapsto> \<lparr>wg = 1, c_ret = None\<rparr>)" "sf_next ?s = Suc ?c" "sf_log ?s = sf_log s"
    using None by (simp_all add: sf_enter_def Let_def set_pc_def)
  have fresh: "sf_calls s ?c = None" using sf_invD(5) [OF inv, of ?c] by (cases "sf_calls s ?c") auto
  have nokey: "leads (sf_pc s j) \<noteq> Some (key, c)" for j c
    using None sf_invD(2) [OF inv, of key c] by auto
  have noc: "leads (sf_pc s j) \<noteq> Some (k, ?c)" for j k
    using sf_invD(1) [OF inv, of j] fresh by (cases "sf_pc s j") (auto simp: closed_call_def)
  have "pc_ok ?s (sf_pc s j)" for j
    using sf_invD(1) [OF inv, of j] fresh None
    by (cases "sf_pc s j") (auto simp: f open_call_def closed_call_def)
  moreover have "pc_ok ?s (InFn key ?c)" by (simp add: f)
  moreover have "sf_m ?s k = Some c \<longleftrightarrow> (\<exists>j. leads (sf_pc ?s j) = Some (k, c))" for k c
  proof (cases "k = key")
    case True
    then show ?thesis using nokey by (auto simp: f)
  next
    case False
    then have "sf_m ?s k = Some c \<longleftrightarrow> (\<exists>j. leads (sf_pc s j) = Some (k, c))"
      using sf_invD(2) [OF inv, of k c] by (simp add: f)
    also have "\<dots> \<longleftrightarrow> (\<exists>j. leads (sf_pc ?s j) = Some (k, c))"
      using False nl unfolding f by (subst ex_leads_upd) auto
    finally show ?thesis .
  qed
  ultimately show ?thesis
    using inv nl nokey noc unfolding sf_inv_def
    by (intro conjI allI impI) (auto simp: f less_Suc_eq split: if_splits)
qed

lemma sf_inv_progress:
  assumes inv: "sf_inv s" and st: "sf_progress i s s'"
  shows "sf_inv s'"
  using st
proof (cases rule: sf_progress.cases)
  case (fn_return key c r)
  then show ?thesis using sf_inv_fn_return [OF inv] by simp
next
  case (wg_done key c)
  then show ?thesis using sf_inv_done [OF inv] by simp
next
  case (del key c)
  then show ?thesis using sf_inv_delete [OF inv] by simp
next
  case (ret key c)
  then show ?thesis using sf_inv_return [OF inv, of i key c] sf_invD(1) [OF inv, of i] by simp
next
  case (wake key c)
  then have "closed_call s key c"
    using sf_invD(1) [OF inv, of i] by (auto simp: open_call_def)
  then show ?thesis using sf_inv_return [OF inv, of i key c] wake by simp
qed

lemma sf_inv_step: "sf_inv s \<Longrightarrow> sf_step s s' \<Longrightarrow> sf_inv s'"
  by (auto elim!: sf_stepE intro: sf_inv_progress sf_inv_enter sf_inv_panic)

lemma sf_reachable_inv: "sf_reachable s \<Longrightarrow> sf_inv s"
  by (induction rule: sf_reachable.induct) (auto intro: sf_inv_init sf_inv_step)

text \<open>On a group with no call in flight for the key, \<^const>\<open>sf_Do\<close> is a run of the step relation; it
  returns what \<open>fn\<close> returns and leaves the map as it was.\<close>

lemma sf_Do_alone:
  assumes "can_call (sf_pc s i)" "sf_m s key = None" "fn w = Some (r, w')"
  shows "\<exists>s'. sf_Do s i key fn w = Some (s', Some r, w') \<and> sf_step\<^sup>*\<^sup>* s s' \<and> sf_m s' = sf_m s \<and>
    sf_pc s' = (sf_pc s)(i := Returned key (Some r))"
proof -
  let ?c = "sf_next s"
  define s1 where "s1 = sf_enter s i key"
  define s2 where "s2 = sf_fn_return s1 i key ?c r"
  define s3 where "s3 = sf_done s2 i key ?c"
  define s4 where "s4 = sf_delete s3 i key ?c"
  define s5 where "s5 = sf_return s4 i key ?c"
  note defs = s1_def s2_def s3_def s4_def s5_def sf_enter_def sf_fn_return_def sf_done_def sf_delete_def
    sf_return_def set_pc_def Let_def
  have pc: "sf_pc s1 i = InFn key ?c" "sf_pc s2 i = FnDone key ?c" "sf_pc s3 i = Finished key ?c"
    "sf_pc s4 i = Deleted key ?c"
    using assms(2) by (simp_all add: defs)
  have "sf_step s s1" unfolding s1_def by (rule sf_step.enter [OF assms(1)])
  moreover have "sf_step s1 s2" "sf_step s2 s3" "sf_step s3 s4" "sf_step s4 s5"
    unfolding s2_def s3_def s4_def s5_def using pc [unfolded s2_def s3_def s4_def]
    by (auto intro: sf_step.progress sf_progress.intros)
  ultimately have "sf_step\<^sup>*\<^sup>* s s5" by (meson converse_rtranclp_into_rtranclp rtranclp.rtrancl_refl)
  moreover have "sf_Do s i key fn w = Some (s5, Some r, w')"
    using assms(3) pc(1) unfolding sf_Do_def s1_def [symmetric]
    by (simp add: Let_def s2_def [symmetric] s3_def [symmetric] s4_def [symmetric] s5_def [symmetric])
       (use assms(2) in \<open>simp add: defs\<close>)
  moreover have "sf_m s5 = sf_m s" "sf_pc s5 = (sf_pc s)(i := Returned key (Some r))"
    using assms(2) by (auto simp: defs)
  ultimately show ?thesis by blast
qed

lemma sf_Do_diverges:
  "can_call (sf_pc s i) \<Longrightarrow> sf_m s key = None \<Longrightarrow> fn w = None \<Longrightarrow> sf_Do s i key fn w = None"
  by (simp add: sf_Do_def sf_enter_def set_pc_def Let_def)

lemma sf_inv_steps: "sf_step\<^sup>*\<^sup>* s t \<Longrightarrow> sf_inv s \<Longrightarrow> sf_inv t"
  by (induction rule: rtranclp_induct) (auto intro: sf_inv_step)

subsection \<open>Progress\<close>

fun pc_rank :: "'r sf_pc \<Rightarrow> nat" where
  "pc_rank (InFn _ _) = 4"
| "pc_rank (FnDone _ _) = 3"
| "pc_rank (Finished _ _) = 2"
| "pc_rank (Deleted _ _) = 1"
| "pc_rank (Waiting _ _) = 1"
| "pc_rank _ = 0"

definition sf_busy :: "'r sf_group \<Rightarrow> nat set" where
  "sf_busy s = {i. pc_rank (sf_pc s i) \<noteq> 0}"

text \<open>How many steps the calls in flight still have to make.\<close>

definition sf_work :: "'r sf_group \<Rightarrow> nat" where
  "sf_work s = (\<Sum>i \<in> sf_busy s. pc_rank (sf_pc s i))"

lemma sf_step_pc: "sf_step s s' \<Longrightarrow> \<exists>i p. sf_pc s' = (sf_pc s)(i := p)"
  by (auto elim!: sf_stepE sf_progressE simp: sf_enter_def sf_fn_return_def sf_done_def sf_delete_def
      sf_return_def set_pc_def Let_def split: option.splits) blast+

lemma sf_reachable_finite: "sf_reachable s \<Longrightarrow> finite (sf_busy s)"
proof (induction rule: sf_reachable.induct)
  case init
  then show ?case by (simp add: sf_busy_def sf_init_def)
next
  case (step s s')
  obtain i p where "sf_pc s' = (sf_pc s)(i := p)" using sf_step_pc [OF step.hyps(2)] by blast
  then have "sf_busy s' \<subseteq> insert i (sf_busy s)" by (auto simp: sf_busy_def)
  with step.IH show ?case by (meson finite_insert finite_subset)
qed

lemma sf_progress_rank:
  "sf_progress i s s' \<Longrightarrow> \<exists>p. sf_pc s' = (sf_pc s)(i := p) \<and> pc_rank p < pc_rank (sf_pc s i)"
  by (auto elim!: sf_progressE simp: sf_fn_return_def sf_done_def sf_delete_def sf_return_def set_pc_def Let_def)

lemma sf_work_superset:
  assumes "finite A" "sf_busy s \<subseteq> A"
  shows "sf_work s = (\<Sum>i \<in> A. pc_rank (sf_pc s i))"
  unfolding sf_work_def using assms by (intro sum.mono_neutral_left) (auto simp: sf_busy_def)

lemma sf_progress_work:
  assumes "finite (sf_busy s)" "sf_progress i s s'"
  shows "sf_work s' < sf_work s"
proof -
  obtain p where p: "sf_pc s' = (sf_pc s)(i := p)" "pc_rank p < pc_rank (sf_pc s i)"
    using sf_progress_rank [OF assms(2)] by blast
  then have i: "i \<in> sf_busy s" and sub: "sf_busy s' \<subseteq> sf_busy s" by (auto simp: sf_busy_def)
  have "sf_work s' = (\<Sum>j \<in> sf_busy s. pc_rank (sf_pc s' j))" by (rule sf_work_superset [OF assms(1) sub])
  also have "\<dots> < sf_work s"
    unfolding sf_work_def using assms(1) i p
    by (intro sum_strict_mono_ex1) auto
  finally show ?thesis .
qed

lemma sf_leader_can_move:
  assumes "leads (sf_pc s j) = Some (key, c)" "\<forall>k d. sf_pc s j \<noteq> Panicked k d"
  shows "\<exists>s'. sf_progress j s s'"
  using assms by (cases "sf_pc s j") (auto intro: sf_progress.intros)

lemma sf_can_move:
  assumes inv: "sf_inv s" and np: "\<forall>j k d. sf_pc s j \<noteq> Panicked k d" and b: "i \<in> sf_busy s"
  shows "\<exists>j s'. sf_progress j s s'"
proof (cases "sf_pc s i")
  case (Waiting key c)
  show ?thesis
  proof (cases "wg (the (sf_calls s c)) = 0")
    case True
    with Waiting show ?thesis by (blast intro: sf_progress.wake)
  next
    case False
    with Waiting sf_invD(1) [OF inv, of i] have "sf_m s key = Some c" by (auto simp: closed_call_def)
    then obtain j where "leads (sf_pc s j) = Some (key, c)" using sf_invD(2) [OF inv] by blast
    with np show ?thesis using sf_leader_can_move by blast
  qed
qed (use b np in \<open>auto simp: sf_busy_def intro: sf_progress.intros\<close>)

text \<open>A goroutine that panicked in \<open>fn\<close> stays where it is, and so does everyone who waits for it.\<close>

lemma sf_step_panicked:
  assumes inv: "sf_inv s" and p: "sf_pc s i = Panicked key c" and st: "sf_step s s'"
  shows "sf_pc s' i = Panicked key c" "sf_pc s j = Waiting key c \<Longrightarrow> sf_pc s' j = Waiting key c"
proof -
  have "sf_calls s c = Some \<lparr>wg = 1, c_ret = None\<rparr>" using sf_invD(1) [OF inv, of i] p by simp
  then show "sf_pc s' i = Panicked key c" "sf_pc s j = Waiting key c \<Longrightarrow> sf_pc s' j = Waiting key c"
    using st p
    by (auto elim!: sf_stepE sf_progressE simp: sf_enter_def sf_fn_return_def sf_done_def sf_delete_def
      sf_return_def set_pc_def Let_def split: option.splits)
qed

lemma sf_panicked_forever:
  assumes "sf_inv s" "sf_pc s i = Panicked key c" "sf_step\<^sup>*\<^sup>* s t"
  shows "sf_inv t \<and> sf_pc t i = Panicked key c \<and> (\<forall>j. sf_pc s j = Waiting key c \<longrightarrow> sf_pc t j = Waiting key c)"
  using assms(3)
proof (induction rule: rtranclp_induct)
  case base
  with assms show ?case by simp
next
  case (step t u)
  then show ?case using sf_step_panicked [of t i key c u] sf_inv_step by blast
qed

subsection \<open>Properties\<close>

text \<open>C7: in every reachable state at most one goroutine executes \<open>fn\<close> for a given key.\<close>

theorem sf_single_flight:
  assumes "sf_reachable s" and "sf_pc s i = InFn key c" and "sf_pc s j = InFn key d"
  shows "i = j"
  using sf_invD(3) [OF sf_reachable_inv [OF assms(1)], of i key c j d] assms by simp

theorem sf_single_flight_witness:
  "\<exists>s :: nat sf_group. sf_reachable s \<and> sf_pc s 0 = InFn ''k'' 0 \<and> {j. \<exists>d. sf_pc s j = InFn ''k'' d} = {0}"
proof -
  let ?s = "sf_enter sf_init 0 ''k'' :: nat sf_group"
  have r: "sf_reachable ?s"
    by (rule sf_reachable.step [OF sf_reachable.init sf_step.enter]) (simp add: sf_init_def)
  have p: "sf_pc ?s 0 = InFn ''k'' 0" by (simp add: sf_enter_def sf_init_def Let_def set_pc_def)
  then have "{j. \<exists>d. sf_pc ?s j = InFn ''k'' d} = {0}" using sf_single_flight [OF r _ p] by auto
  with r p show ?thesis by blast
qed

text \<open>C8: whoever returns from \<^verbatim>\<open>Do(key, fn)\<close> returns a result that an execution of \<open>fn\<close> for that very
  key has returned, never the zero values of a call that is not finished.\<close>

theorem sf_returns_fn_result:
  assumes "sf_reachable s" and "sf_pc s i = Returned key x"
  shows "\<exists>r. x = Some r \<and> (key, r) \<in> set (sf_log s)"
  using sf_invD(1) [OF sf_reachable_inv [OF assms(1)], of i] assms by simp

text \<open>C9: no deadlock. In a reachable state in which no \<open>fn\<close> has panicked, every progress step of any
  goroutine reduces the outstanding work, and as long as a call is in flight some goroutine can
  make such a step: every schedule that does not start new calls ends with all calls returned.\<close>

theorem sf_no_deadlock:
  assumes "sf_reachable s" and "\<forall>j key c. sf_pc s j \<noteq> Panicked key c"
  shows "(\<forall>i s'. sf_progress i s s' \<longrightarrow> sf_work s' < sf_work s) \<and>
    (\<not> can_call (sf_pc s i) \<longrightarrow> (\<exists>j s'. sf_progress j s s'))"
proof -
  have "i \<in> sf_busy s" if "\<not> can_call (sf_pc s i)"
    using that assms(2) by (cases "sf_pc s i") (auto simp: sf_busy_def)
  then show ?thesis
    using sf_progress_work [OF sf_reachable_finite [OF assms(1)]]
      sf_can_move [OF sf_reachable_inv [OF assms(1)] assms(2)] by blast
qed

text \<open>The run of one goroutine that calls \<^verbatim>\<open>Do(''k'', fn)\<close> alone, \<open>fn\<close> returning 7.\<close>

definition solo_run :: "nat sf_group" where
  "solo_run =
     (let s1 = sf_enter sf_init 0 ''k''; s2 = sf_fn_return s1 0 ''k'' 0 7; s3 = sf_done s2 0 ''k'' 0;
          s4 = sf_delete s3 0 ''k'' 0
      in sf_return s4 0 ''k'' 0)"

lemmas sf_ops = sf_enter_def sf_fn_return_def sf_done_def sf_delete_def sf_return_def set_pc_def sf_init_def Let_def

lemma solo_run_reachable: "sf_reachable solo_run"
  unfolding solo_run_def Let_def
  by (rule sf_reachable.step [OF sf_reachable.step [OF sf_reachable.step [OF sf_reachable.step
        [OF sf_reachable.step [OF sf_reachable.init sf_step.enter] sf_step.progress [OF sf_progress.fn_return]]
        sf_step.progress [OF sf_progress.wg_done]] sf_step.progress [OF sf_progress.del]]
        sf_step.progress [OF sf_progress.ret]]) (simp_all add: sf_ops)

theorem sf_returns_fn_result_witness:
  "sf_pc solo_run 0 = Returned ''k'' (Some 7) \<and> (''k'', 7) \<in> set (sf_log solo_run)"
proof -
  have "sf_pc solo_run 0 = Returned ''k'' (Some 7)" by (simp add: solo_run_def sf_ops)
  with sf_returns_fn_result [OF solo_run_reachable this] show ?thesis by auto
qed

theorem sf_no_deadlock_witness:
  "\<exists>s :: nat sf_group. sf_reachable s \<and> \<not> can_call (sf_pc s 0) \<and> (\<exists>j s'. sf_progress j s s')"
proof -
  let ?s = "sf_enter sf_init 0 ''k'' :: nat sf_group"
  have r: "sf_reachable ?s"
    by (rule sf_reachable.step [OF sf_reachable.init sf_step.enter]) (simp add: sf_init_def)
  moreover have "\<not> can_call (sf_pc ?s 0)" "\<forall>j key c. sf_pc ?s j \<noteq> Panicked key c"
    by (simp_all add: sf_ops)
  ultimately show ?thesis using sf_no_deadlock [OF r, of 0] by blast
qed

text \<open>C10: when \<open>fn\<close> panics, its key stays in the map for good. In every later state each goroutine that
  was waiting for the call is still waiting, and whoever calls \<^verbatim>\<open>Do\<close> with that key joins them.\<close>

theorem sf_panic_blocks_key:
  assumes "sf_reachable s" and "sf_pc s i = Panicked key c" and "sf_step\<^sup>*\<^sup>* s t"
  shows "sf_m t key = Some c \<and> (\<forall>j. sf_pc s j = Waiting key c \<longrightarrow> sf_pc t j = Waiting key c) \<and>
    (\<forall>j. sf_enter t j key = set_pc t j (Waiting key c))"
proof -
  have t: "sf_inv t" "sf_pc t i = Panicked key c" "\<forall>j. sf_pc s j = Waiting key c \<longrightarrow> sf_pc t j = Waiting key c"
    using sf_panicked_forever [OF sf_reachable_inv [OF assms(1)] assms(2,3)] by auto
  then have "sf_m t key = Some c" using sf_invD(2) [OF t(1), of key c] by (metis leads.simps(4))
  with t show ?thesis by (simp add: sf_enter_def)
qed

theorem sf_panic_blocks_key_witness:
  "\<exists>s :: nat sf_group. sf_reachable s \<and> sf_pc s 0 = Panicked ''k'' 0 \<and> sf_enter s 1 ''k'' = set_pc s 1 (Waiting ''k'' 0)"
proof -
  let ?s1 = "sf_enter sf_init 0 ''k'' :: nat sf_group"
  let ?s = "set_pc ?s1 0 (Panicked ''k'' 0)"
  have r: "sf_reachable ?s"
    by (rule sf_reachable.step [OF sf_reachable.step [OF sf_reachable.init sf_step.enter] sf_step.panic])
       (simp_all add: sf_ops)
  have p: "sf_pc ?s 0 = Panicked ''k'' 0" by (simp add: set_pc_def)
  show ?thesis using r p sf_panic_blocks_key [OF r p, of ?s] by blast
qed

end
