(* ===== verification/Geecache.thy ===== *)
theory Geecache
  imports Lru Singleflight
begin

section \<open>Cache groups (\<^verbatim>\<open>cache/byteview.go\<close>, \<^verbatim>\<open>cache/cache.go\<close>, \<^verbatim>\<open>cache/geecache.go\<close>, \<^verbatim>\<open>cache/peers.go\<close>)\<close>

text \<open>
  A \<^verbatim>\<open>Group\<close> answers \<^verbatim>\<open>Get\<close> from its own LRU cache, else, through the single-flight loader, from the
  peer that owns the key, else from the user's getter, whose result it caches. \<open>'w\<close> is the state of
  the world outside the cache (the data source, the network): a getter and a peer read and change
  it. \<^const>\<open>None\<close> as the result of a call means that it does not return normally (it panics, blocks or
  loops). Errors of Go (\<^verbatim>\<open>error\<close> values) are their messages, on the left of a sum.
\<close>

subsection \<open>\<^verbatim>\<open>ByteView\<close>\<close>

record byteview =
  bv_b :: bytes

text \<open>The built-in \<^verbatim>\<open>copy\<close>: as many bytes as the shorter of the two slices has.\<close>

definition go_copy :: "bytes \<Rightarrow> bytes \<Rightarrow> bytes" where
  "go_copy dst src = take (length dst) src @ drop (length src) dst"

definition cloneBytes :: "bytes \<Rightarrow> bytes" where
  "cloneBytes b = (let c = replicate (length b) CHR 0x00 in go_copy c b)"

definition bv_Len :: "byteview \<Rightarrow> int64" where
  "bv_Len v = of_nat (length (bv_b v))"

definition bv_ByteSlice :: "byteview \<Rightarrow> bytes" where
  "bv_ByteSlice v = cloneBytes (bv_b v)"

definition bv_String :: "byteview \<Rightarrow> string" where
  "bv_String v = bv_b v"

lemma cloneBytes_id [simp]: "cloneBytes b = b"
  by (simp add: cloneBytes_def go_copy_def)

subsection \<open>\<^verbatim>\<open>cache\<close>: an LRU cache made on first use\<close>

record cache_st =
  c_lru :: "(byteview, unit) lru_cache option"
  cacheBytes :: int64

definition cache_add :: "cache_st \<Rightarrow> string \<Rightarrow> byteview \<Rightarrow> cache_st option" where
  "cache_add c key v =
     (let l = (case c_lru c of None \<Rightarrow> lru_New (cacheBytes c) None | Some l \<Rightarrow> l)
      in case lru_Add bv_Len l key v () of
           None \<Rightarrow> None
         | Some (l', _) \<Rightarrow> Some (c\<lparr>c_lru := Some l'\<rparr>))"

definition cache_get :: "cache_st \<Rightarrow> string \<Rightarrow> cache_st \<times> byteview option" where
  "cache_get c key =
     (case c_lru c of
        None \<Rightarrow> (c, None)
      | Some l \<Rightarrow> (c\<lparr>c_lru := Some (fst (lru_Get l key))\<rparr>, snd (lru_Get l key)))"

text \<open>The entries, most recently used first, and the representation invariant.\<close>

definition cache_entries :: "cache_st \<Rightarrow> (string \<times> byteview) list" where
  "cache_entries c = (case c_lru c of None \<Rightarrow> [] | Some l \<Rightarrow> lru_abs l)"

definition cache_lookup :: "cache_st \<Rightarrow> string \<Rightarrow> byteview option" where
  "cache_lookup c k = map_of (cache_entries c) k"

definition cache_ok :: "cache_st \<Rightarrow> bool" where
  "cache_ok c \<longleftrightarrow> 0 \<le> sint (cacheBytes c) \<and>
     (case c_lru c of None \<Rightarrow> True | Some l \<Rightarrow> lru_inv bv_Len l \<and> maxBytes l = cacheBytes c)"

definition cache_new :: "int64 \<Rightarrow> cache_st" where
  "cache_new mb = \<lparr>c_lru = None, cacheBytes = mb\<rparr>"

lemma cache_new_ok [simp]: "cache_ok (cache_new mb) \<longleftrightarrow> 0 \<le> sint mb" "cache_lookup (cache_new mb) k = None"
  by (auto simp: cache_ok_def cache_new_def cache_lookup_def cache_entries_def)

lemma cache_get_bytes [simp]: "cacheBytes (fst (cache_get c k)) = cacheBytes c"
  by (simp add: cache_get_def split: option.splits)

text \<open>The LRU cache \<^verbatim>\<open>add\<close> works on.\<close>

definition cache_inner :: "cache_st \<Rightarrow> (byteview, unit) lru_cache" where
  "cache_inner c = (case c_lru c of None \<Rightarrow> lru_New (cacheBytes c) None | Some l \<Rightarrow> l)"

lemma cache_inner_facts:
  assumes "cache_ok c"
  shows "lru_inv bv_Len (cache_inner c)" "maxBytes (cache_inner c) = cacheBytes c"
    "lru_abs (cache_inner c) = cache_entries c" "0 \<le> sint (cacheBytes c)"
  using assms by (auto simp: cache_ok_def cache_inner_def cache_entries_def split: option.splits)

text \<open>\<^verbatim>\<open>add\<close> returns; it puts the entry in front and drops a tail of the entries, nothing when there is
  no limit.\<close>

lemma cache_add_returns:
  assumes ok: "cache_ok c"
  shows "\<exists>c' vs. cache_add c k v = Some c' \<and> cache_ok c' \<and> cacheBytes c' = cacheBytes c \<and>
    move_front k v (cache_entries c) = cache_entries c' @ vs"
proof -
  note f = cache_inner_facts [OF ok]
  obtain l' vs where r: "lru_Add bv_Len (cache_inner c) k v () = Some (l', ())" "lru_inv bv_Len l'"
      "maxBytes l' = cacheBytes c" "move_front k v (cache_entries c) = lru_abs l' @ vs"
    using lru_Add_returns [OF f(1), of k v "()"] f by auto
  have "cache_add c k v = Some (c\<lparr>c_lru := Some l'\<rparr>)"
    using r(1) by (simp add: cache_add_def cache_inner_def Let_def split: option.splits)
  with r f(4) show ?thesis by (auto simp: cache_ok_def cache_entries_def)
qed

lemma cache_entries_distinct: "cache_ok c \<Longrightarrow> distinct (map fst (cache_entries c))"
  by (auto simp: cache_ok_def cache_entries_def split: option.splits intro: lru_inv_distinct_keys)

lemma cache_add_lookup:
  assumes ok: "cache_ok c" and add: "cache_add c k v = Some c'" and hit: "cache_lookup c' k' = Some w"
  shows "((cache_lookup c)(k \<mapsto> v)) k' = Some w"
proof -
  obtain vs where "move_front k v (cache_entries c) = cache_entries c' @ vs"
    using cache_add_returns [OF ok, of k v] add by auto
  then have "map_of (move_front k v (cache_entries c)) k' = Some w"
    using hit map_of_prefix [of "cache_entries c'" vs k' w]
      distinct_move_front [OF cache_entries_distinct [OF ok], of k v] by (simp add: cache_lookup_def)
  then show ?thesis by (simp add: map_of_move_front cache_lookup_def fun_upd_def split: if_splits)
qed

interpretation gc: kv_cache cache_lookup cache_get cache_add cache_ok
proof (unfold_locales, goal_cases)
  case (1 c k)
  then show ?case
    by (auto simp: cache_get_def cache_lookup_def cache_entries_def cache_ok_def
        lru_Get_value [where Len = bv_Len] split: option.splits)
next
  case (2 c k k')
  then show ?case
    by (auto simp: cache_get_def cache_lookup_def cache_entries_def cache_ok_def
        lru_Get_abs [where Len = bv_Len] map_of_move_front split: option.splits)
next
  case (3 c k)
  then show ?case by (auto simp: cache_get_def cache_ok_def lru_inv_Get split: option.splits)
next
  case (4 c k v)
  then show ?case using cache_add_returns [of c k v] by auto
next
  case (5 c k v c')
  then show ?case using cache_add_returns [of c k v] by auto
next
  case (6 c k v c' w)
  then show ?case using cache_add_lookup [of c k v c' k w] by simp
next
  case (7 c k v c' k' w)
  then show ?case using cache_add_lookup [of c k v c' k' w] by simp
qed

text \<open>Without a limit nothing is dropped.\<close>

lemma cache_add_unlimited:
  assumes ok: "cache_ok c" and nolim: "cacheBytes c = 0" and add: "cache_add c k v = Some c'"
  shows "cache_lookup c' = (cache_lookup c)(k \<mapsto> v)"
proof -
  note f = cache_inner_facts [OF ok]
  have "lru_Add bv_Len (cache_inner c) k v () = Some (lru_put bv_Len (cache_inner c) k v, ())"
    using f(2) nolim by (simp add: lru_Add_def lru_evict.simps)
  then have "c' = c\<lparr>c_lru := Some (lru_put bv_Len (cache_inner c) k v)\<rparr>"
    using add by (simp add: cache_add_def cache_inner_def Let_def split: option.splits)
  then show ?thesis
    by (auto simp: cache_lookup_def cache_entries_def lru_put_abs [OF f(1)] f(3) map_of_move_front)
qed

subsection \<open>\<^verbatim>\<open>Group\<close>\<close>

type_synonym 'w getter = "string \<Rightarrow> 'w \<Rightarrow> ((string + bytes) \<times> 'w) option"
type_synonym 'w peer_getter = "string \<Rightarrow> string \<Rightarrow> 'w \<Rightarrow> ((string + bytes) \<times> 'w) option"
type_synonym 'w peer_picker = "string \<Rightarrow> 'w \<Rightarrow> 'w peer_getter option option"

text \<open>\<open>g_peers\<close> is \<^const>\<open>None\<close> for a \<^verbatim>\<open>nil\<close> picker. A picker returns a peer and \<^verbatim>\<open>true\<close> (an inner \<^const>\<open>Some\<close>)
  or \<^verbatim>\<open>false\<close> (an inner \<^const>\<open>None\<close>).\<close>

record 'w group =
  g_name :: string
  g_getter :: "'w getter"
  mainCache :: cache_st
  g_peers :: "'w peer_picker option"
  loader :: "(string + byteview) sf_group"

definition Group_getFromPeer ::
  "'w group \<Rightarrow> 'w peer_getter \<Rightarrow> string \<Rightarrow> 'w \<Rightarrow> ((string + byteview) \<times> 'w) option" where
  "Group_getFromPeer g peer key w =
     (case peer (g_name g) key w of
        None \<Rightarrow> None
      | Some (Inl err, w') \<Rightarrow> Some (Inl err, w')
      | Some (Inr bs, w') \<Rightarrow> Some (Inr \<lparr>bv_b = bs\<rparr>, w'))"

definition Group_getLocally ::
  "'w group \<Rightarrow> string \<Rightarrow> cache_st \<times> 'w \<Rightarrow> ((string + byteview) \<times> cache_st \<times> 'w) option" where
  "Group_getLocally g key = (\<lambda>(c, w).
     case g_getter g key w of
       None \<Rightarrow> None
     | Some (Inl err, w') \<Rightarrow> Some (Inl err, c, w')
     | Some (Inr data, w') \<Rightarrow>
         let value = \<lparr>bv_b = cloneBytes data\<rparr>
         in case cache_add c key value of
              None \<Rightarrow> None
            | Some c' \<Rightarrow> Some (Inr value, c', w'))"

text \<open>The function literal that \<^verbatim>\<open>load\<close> hands to the loader. It runs while the loader holds the key,
  and changes the cache and the world.\<close>

definition Group_load_fn ::
  "'w group \<Rightarrow> string \<Rightarrow> cache_st \<times> 'w \<Rightarrow> ((string + byteview) \<times> cache_st \<times> 'w) option" where
  "Group_load_fn g key = (\<lambda>(c, w).
     case g_peers g of
       None \<Rightarrow> Group_getLocally g key (c, w)
     | Some PickPeer \<Rightarrow>
         (case PickPeer key w of
            None \<Rightarrow> None
          | Some None \<Rightarrow> Group_getLocally g key (c, w)
          | Some (Some peer) \<Rightarrow>
              (case Group_getFromPeer g peer key w of
                 None \<Rightarrow> None
               | Some (Inr value, w') \<Rightarrow> Some (Inr value, c, w')
               | Some (Inl err, w') \<Rightarrow> Group_getLocally g key (c, w'))))"

text \<open>\<^verbatim>\<open>viewi.(ByteView)\<close> panics on the \<^verbatim>\<open>nil\<close> that a call without a result would leave.\<close>

definition Group_load ::
  "'w group \<Rightarrow> nat \<Rightarrow> string \<Rightarrow> 'w \<Rightarrow> ('w group \<times> (string + byteview) \<times> 'w) option" where
  "Group_load g i key w =
     (case sf_Do (loader g) i key (Group_load_fn g key) (mainCache g, w) of
        None \<Rightarrow> None
      | Some (l', None, cw) \<Rightarrow> None
      | Some (l', Some r, (c', w')) \<Rightarrow> Some (g\<lparr>loader := l', mainCache := c'\<rparr>, r, w'))"

definition Group_Get ::
  "'w group \<Rightarrow> nat \<Rightarrow> string \<Rightarrow> 'w \<Rightarrow> ('w group \<times> (string + byteview) \<times> 'w) option" where
  "Group_Get g i key w =
     (if key = '''' then Some (g, Inl ''key is required'', w)
      else
        let (c', hit) = cache_get (mainCache g) key; g' = g\<lparr>mainCache := c'\<rparr>
        in case hit of
             Some v \<Rightarrow> Some (g', Inr v, w)
           | None \<Rightarrow> Group_load g' i key w)"

subsection \<open>The table of groups\<close>

text \<open>\<^verbatim>\<open>groups\<close> maps a name to a pointer; the groups are objects on a heap, so that a group that was
  replaced in the table lives on for those who hold it. Panics are their messages, on the left.\<close>

record 'w gee_state =
  gs_groups :: "string \<rightharpoonup> nat"
  gs_heap :: "nat \<rightharpoonup> 'w group"
  gs_next :: nat

definition gs_init :: "'w gee_state" where
  "gs_init = \<lparr>gs_groups = Map.empty, gs_heap = Map.empty, gs_next = 0\<rparr>"

definition NewGroup ::
  "'w gee_state \<Rightarrow> string \<Rightarrow> int64 \<Rightarrow> 'w getter option \<Rightarrow> string + (nat \<times> 'w gee_state)" where
  "NewGroup st name cb getter =
     (case getter of
        None \<Rightarrow> Inl ''nil Getter''
      | Some gt \<Rightarrow>
          let a = gs_next st;
              g = \<lparr>g_name = name, g_getter = gt, mainCache = cache_new cb, g_peers = None, loader = sf_init\<rparr>
          in Inr (a, st\<lparr>gs_next := Suc a, gs_heap := (gs_heap st)(a \<mapsto> g),
                        gs_groups := (gs_groups st)(name \<mapsto> a)\<rparr>))"

definition GetGroup :: "'w gee_state \<Rightarrow> string \<Rightarrow> nat option" where
  "GetGroup st name = gs_groups st name"

definition RegisterPeers :: "'w group \<Rightarrow> 'w peer_picker option \<Rightarrow> string + 'w group" where
  "RegisterPeers g peers =
     (case g_peers g of
        Some _ \<Rightarrow> Inl ''RegisterPeerPicker called more than once''
      | None \<Rightarrow> Inr (g\<lparr>g_peers := peers\<rparr>))"

text \<open>A method of the group at an address.\<close>

definition gs_Get ::
  "'w gee_state \<Rightarrow> nat \<Rightarrow> nat \<Rightarrow> string \<Rightarrow> 'w \<Rightarrow> ('w gee_state \<times> (string + byteview) \<times> 'w) option" where
  "gs_Get st a i key w =
     (case gs_heap st a of
        None \<Rightarrow> None
      | Some g \<Rightarrow>
          (case Group_Get g i key w of
             None \<Rightarrow> None
           | Some (g', r, w') \<Rightarrow> Some (st\<lparr>gs_heap := (gs_heap st)(a \<mapsto> g')\<rparr>, r, w')))"

subsection \<open>Facts about \<^verbatim>\<open>Get\<close>\<close>

text \<open>No call is in flight, and the cache is well formed. \<open>same_setup\<close>: what no call of \<^verbatim>\<open>Get\<close> changes.\<close>

definition group_idle :: "'w group \<Rightarrow> bool" where
  "group_idle g \<longleftrightarrow> cache_ok (mainCache g) \<and> sf_m (loader g) = Map.empty \<and>
     (\<forall>j. can_call (sf_pc (loader g) j))"

definition same_setup :: "'w group \<Rightarrow> 'w group \<Rightarrow> bool" where
  "same_setup g g' \<longleftrightarrow> g_name g' = g_name g \<and> g_getter g' = g_getter g \<and> g_peers g' = g_peers g \<and>
     cacheBytes (mainCache g') = cacheBytes (mainCache g)"

definition new_group :: "string \<Rightarrow> int64 \<Rightarrow> 'w getter \<Rightarrow> 'w group" where
  "new_group name cb gt =
     \<lparr>g_name = name, g_getter = gt, mainCache = cache_new cb, g_peers = None, loader = sf_init\<rparr>"

lemma new_group_facts [simp]:
  "group_idle (new_group name cb gt) \<longleftrightarrow> 0 \<le> sint cb"
  "mainCache (new_group name cb gt) = cache_new cb" "g_getter (new_group name cb gt) = gt"
  "g_peers (new_group name cb gt) = None" "g_name (new_group name cb gt) = name"
  by (simp_all add: new_group_def group_idle_def sf_init_def)

lemma cacheBytes_new [simp]: "cacheBytes (cache_new cb) = cb"
  by (simp add: cache_new_def)

lemma same_setup_refl [simp]: "same_setup g g"
  by (simp add: same_setup_def)

lemma same_setup_trans: "same_setup g g' \<Longrightarrow> same_setup g' g'' \<Longrightarrow> same_setup g g''"
  by (simp add: same_setup_def)

text \<open>A call that finds the loader free runs its function, once.\<close>

lemma Group_load_alone:
  assumes idle: "group_idle g" and fn: "Group_load_fn g key (mainCache g, w) = Some (r, c', w')"
    and c': "cache_ok c'" "cacheBytes c' = cacheBytes (mainCache g)"
  shows "\<exists>g'. Group_load g i key w = Some (g', r, w') \<and> group_idle g' \<and> same_setup g g' \<and> mainCache g' = c'"
proof -
  have "can_call (sf_pc (loader g) i)" "sf_m (loader g) key = None" using idle by (auto simp: group_idle_def)
  from sf_Do_alone [where fn = "Group_load_fn g key", OF this fn] obtain l' where
    l': "sf_Do (loader g) i key (Group_load_fn g key) (mainCache g, w) = Some (l', Some r, c', w')"
      "sf_m l' = sf_m (loader g)" "sf_pc l' = (sf_pc (loader g))(i := Returned key (Some r))" by blast
  then show ?thesis using idle c'
    by (auto simp: Group_load_def group_idle_def same_setup_def)
qed

text \<open>The peer that owns a key, if any, as \<^verbatim>\<open>load\<close> asks for it.\<close>

definition peer_of :: "'w group \<Rightarrow> string \<Rightarrow> 'w \<Rightarrow> 'w peer_getter option option" where
  "peer_of g key w = (case g_peers g of None \<Rightarrow> Some None | Some PickPeer \<Rightarrow> PickPeer key w)"

text \<open>The getter is asked, in world \<open>w0\<close>: no peer owns the key, or the peer that does has failed.\<close>

definition asks_getter :: "'w group \<Rightarrow> string \<Rightarrow> 'w \<Rightarrow> 'w \<Rightarrow> bool" where
  "asks_getter g key w w0 \<longleftrightarrow> peer_of g key w = Some None \<and> w0 = w \<or>
     (\<exists>p err. peer_of g key w = Some (Some p) \<and> p (g_name g) key w = Some (Inl err, w0))"

lemma load_fn_peer:
  assumes "peer_of g key w = Some (Some p)" "p (g_name g) key w = Some (Inr d, w')"
  shows "Group_load_fn g key (c, w) = Some (Inr \<lparr>bv_b = d\<rparr>, c, w')"
  using assms by (cases "g_peers g") (simp_all add: Group_load_fn_def peer_of_def Group_getFromPeer_def)

lemma load_fn_getter:
  assumes "asks_getter g key w w0"
  shows "Group_load_fn g key (c, w) = Group_getLocally g key (c, w0)"
  using assms
  by (cases "g_peers g") (auto simp: asks_getter_def Group_load_fn_def peer_of_def Group_getFromPeer_def)

lemma load_fn_mainCache [simp]: "Group_load_fn (g\<lparr>mainCache := c\<rparr>) = Group_load_fn g"
proof -
  have eq: "Group_getLocally (g\<lparr>mainCache := c\<rparr>) = Group_getLocally g"
    "Group_getFromPeer (g\<lparr>mainCache := c\<rparr>) = Group_getFromPeer g"
    by (simp_all add: fun_eq_iff Group_getLocally_def Group_getFromPeer_def)
  show ?thesis unfolding Group_load_fn_def eq by simp
qed

lemma same_setup_cache_get:
  "same_setup g (g\<lparr>mainCache := fst (cache_get (mainCache g) key)\<rparr>)"
  by (simp add: same_setup_def)

lemma idle_cache_get: "group_idle g \<Longrightarrow> group_idle (g\<lparr>mainCache := fst (cache_get (mainCache g) key)\<rparr>)"
  by (simp add: group_idle_def gc.get_inv)

lemma Group_Get_hit:
  assumes idle: "group_idle g" and key: "key \<noteq> ''''" and hit: "cache_lookup (mainCache g) key = Some v"
  shows "\<exists>g'. Group_Get g i key w = Some (g', Inr v, w) \<and> group_idle g' \<and> same_setup g g' \<and>
    cache_lookup (mainCache g') = cache_lookup (mainCache g)"
proof -
  have ok: "cache_ok (mainCache g)" using idle by (simp add: group_idle_def)
  have "Group_Get g i key w = Some (g\<lparr>mainCache := fst (cache_get (mainCache g) key)\<rparr>, Inr v, w)"
    using key hit gc.get_value [OF ok, of key] by (simp add: Group_Get_def Let_def case_prod_beta)
  then show ?thesis
    using idle_cache_get [OF idle] same_setup_cache_get [of g] gc.get_lookup [OF ok] by auto
qed

text \<open>A miss: what the loader's function returns is what \<^verbatim>\<open>Get\<close> returns.\<close>

lemma Group_Get_miss:
  assumes idle: "group_idle g" and key: "key \<noteq> ''''" and miss: "cache_lookup (mainCache g) key = None"
    and fn: "Group_load_fn g key (fst (cache_get (mainCache g) key), w) = Some (r, c', w')"
    and c': "cache_ok c'" "cacheBytes c' = cacheBytes (mainCache g)"
  shows "\<exists>g'. Group_Get g i key w = Some (g', r, w') \<and> group_idle g' \<and> same_setup g g' \<and> mainCache g' = c'"
proof -
  let ?g = "g\<lparr>mainCache := fst (cache_get (mainCache g) key)\<rparr>"
  have ok: "cache_ok (mainCache g)" using idle by (simp add: group_idle_def)
  have fn': "Group_load_fn ?g key (mainCache ?g, w) = Some (r, c', w')"
    using fn by simp
  have "Group_Get g i key w = Group_load ?g i key w"
    using key miss gc.get_value [OF ok, of key] by (simp add: Group_Get_def Let_def case_prod_beta)
  then show ?thesis
    using Group_load_alone [OF idle_cache_get [OF idle] fn' c'(1), of i] c'(2)
      same_setup_trans [OF same_setup_cache_get] by auto
qed

lemma getLocally_ok:
  assumes "g_getter g key w0 = Some (Inr d, w')" "cache_ok c"
  shows "\<exists>c'. Group_getLocally g key (c, w0) = Some (Inr \<lparr>bv_b = d\<rparr>, c', w') \<and>
    cache_add c key \<lparr>bv_b = d\<rparr> = Some c' \<and> cache_ok c' \<and> cacheBytes c' = cacheBytes c"
  using cache_add_returns [OF assms(2), of key "\<lparr>bv_b = d\<rparr>"] assms(1)
  by (auto simp: Group_getLocally_def)

lemma getLocally_err:
  assumes "g_getter g key w0 = Some (Inl err, w')"
  shows "Group_getLocally g key (c, w0) = Some (Inl err, c, w')"
  using assms by (simp add: Group_getLocally_def)

subsection \<open>Sequences of calls\<close>

text \<open>The calls of \<^verbatim>\<open>Get\<close> one after the other, each by the goroutine named in it.\<close>

fun group_run ::
  "'w group \<Rightarrow> (nat \<times> string) list \<Rightarrow> 'w \<Rightarrow> ('w group \<times> (string + byteview) list \<times> 'w) option" where
  "group_run g [] w = Some (g, [], w)"
| "group_run g ((i, key) # calls) w =
     (case Group_Get g i key w of
        None \<Rightarrow> None
      | Some (g', r, w') \<Rightarrow>
          (case group_run g' calls w' of
             None \<Rightarrow> None
           | Some (g'', rs, w'') \<Rightarrow> Some (g'', r # rs, w'')))"

text \<open>A data source \<open>src\<close> that does not change: the getter answers what it says, and a peer answers
  that or fails.\<close>

definition getter_reads :: "(string \<Rightarrow> string + bytes) \<Rightarrow> 'w group \<Rightarrow> bool" where
  "getter_reads src g \<longleftrightarrow> (\<forall>key w. \<exists>w'. g_getter g key w = Some (src key, w'))"

definition peers_agree :: "(string \<Rightarrow> string + bytes) \<Rightarrow> 'w group \<Rightarrow> bool" where
  "peers_agree src g \<longleftrightarrow> (\<forall>key w. peer_of g key w = Some None \<or>
     (\<exists>p r w'. peer_of g key w = Some (Some p) \<and> p (g_name g) key w = Some (r, w') \<and>
        (r = src key \<or> (\<exists>err. r = Inl err))))"

definition answer :: "(string \<Rightarrow> string + bytes) \<Rightarrow> string \<Rightarrow> string + byteview" where
  "answer src key = (if key = '''' then Inl ''key is required''
     else case src key of Inl err \<Rightarrow> Inl err | Inr d \<Rightarrow> Inr \<lparr>bv_b = d\<rparr>)"

definition caches_src :: "(string \<Rightarrow> string + bytes) \<Rightarrow> string \<Rightarrow> byteview \<Rightarrow> bool" where
  "caches_src src key v \<longleftrightarrow> src key = Inr (bv_b v)"

lemma same_setup_agree:
  assumes "same_setup g g'"
  shows "getter_reads src g' \<longleftrightarrow> getter_reads src g" "peers_agree src g' \<longleftrightarrow> peers_agree src g"
  using assms by (simp_all add: same_setup_def getter_reads_def peers_agree_def peer_of_def)

lemma Group_Get_local_answer:
  assumes idle: "group_idle g" and key: "key \<noteq> ''''" and miss: "cache_lookup (mainCache g) key = None"
    and src: "getter_reads src g" and ok: "gc.entries_ok (caches_src src) (mainCache g)"
    and ask: "asks_getter g key w w0"
  shows "\<exists>g' w'. Group_Get g i key w = Some (g', answer src key, w') \<and> group_idle g' \<and> same_setup g g' \<and>
    gc.entries_ok (caches_src src) (mainCache g')"
proof -
  let ?c = "fst (cache_get (mainCache g) key)"
  have c: "cache_ok (mainCache g)" "cache_ok ?c" "gc.entries_ok (caches_src src) ?c"
    using idle ok by (simp_all add: group_idle_def gc.get_inv gc.entries_ok_get)
  obtain w' where w': "g_getter g key w0 = Some (src key, w')" using src by (auto simp: getter_reads_def)
  show ?thesis
  proof (cases "src key")
    case (Inl err)
    with w' have "Group_load_fn g key (?c, w) = Some (Inl err, ?c, w')"
      by (simp add: load_fn_getter [OF ask] getLocally_err)
    then show ?thesis using Group_Get_miss [OF idle key miss, of w] c key Inl by (fastforce simp: answer_def)
  next
    case (Inr d)
    with w' getLocally_ok [OF _ c(2), of g key w0 d w'] obtain c' where
      c': "Group_load_fn g key (?c, w) = Some (Inr \<lparr>bv_b = d\<rparr>, c', w')" "cache_add ?c key \<lparr>bv_b = d\<rparr> = Some c'"
        "cache_ok c'" "cacheBytes c' = cacheBytes ?c" by (auto simp: load_fn_getter [OF ask])
    have "gc.entries_ok (caches_src src) c'"
      using gc.entries_ok_add [OF c(2,3) _ c'(2)] Inr by (simp add: caches_src_def)
    then show ?thesis
      using Group_Get_miss [OF idle key miss c'(1) c'(3)] c'(4) key Inr by (fastforce simp: answer_def)
  qed
qed

lemma Group_Get_answer:
  assumes idle: "group_idle g" and src: "getter_reads src g" "peers_agree src g"
    and ok: "gc.entries_ok (caches_src src) (mainCache g)"
  shows "\<exists>g' w'. Group_Get g i key w = Some (g', answer src key, w') \<and> group_idle g' \<and> same_setup g g' \<and>
    gc.entries_ok (caches_src src) (mainCache g')"
proof -
  have c: "cache_ok (mainCache g)" using idle by (simp add: group_idle_def)
  consider "key = ''''" | v where "key \<noteq> ''''" "cache_lookup (mainCache g) key = Some v"
    | (ask) w0 where "key \<noteq> ''''" "cache_lookup (mainCache g) key = None" "asks_getter g key w w0"
    | (peer) p d w' where "key \<noteq> ''''" "cache_lookup (mainCache g) key = None" "peer_of g key w = Some (Some p)"
        "p (g_name g) key w = Some (Inr d, w')" "src key = Inr d"
    using src(2) unfolding peers_agree_def asks_getter_def by (metis option.exhaust sum.exhaust)
  then show ?thesis
  proof cases
    case 1
    then show ?thesis using idle ok by (simp add: Group_Get_def answer_def)
  next
    case 2
    then have "src key = Inr (bv_b v)"
      using gc.entries_ok_hit [OF c ok, of key v] gc.get_value [OF c, of key] by (simp add: caches_src_def)
    then show ?thesis using Group_Get_hit [OF idle 2, of i w] ok 2(1) by (auto simp: answer_def gc.entries_ok_def)
  next
    case ask
    then show ?thesis by (rule Group_Get_local_answer [OF idle _ _ src(1) ok])
  next
    case peer
    have "gc.entries_ok (caches_src src) (fst (cache_get (mainCache g) key))" by (rule gc.entries_ok_get [OF c ok])
    then show ?thesis
      using Group_Get_miss [OF idle peer(1,2) load_fn_peer [OF peer(3,4)]] gc.get_inv [OF c, of key] peer(1,5)
      by (fastforce simp: answer_def)
  qed
qed

lemma group_run_answers:
  assumes "group_idle g" "getter_reads src g" "peers_agree src g" "gc.entries_ok (caches_src src) (mainCache g)"
  shows "\<exists>g' w'. group_run g calls w = Some (g', map (answer src \<circ> snd) calls, w')"
  using assms
proof (induction calls arbitrary: g w)
  case (Cons call calls)
  obtain i key where call: "call = (i, key)" by (cases call)
  obtain g1 w1 where g1: "Group_Get g i key w = Some (g1, answer src key, w1)" "group_idle g1" "same_setup g g1"
    "gc.entries_ok (caches_src src) (mainCache g1)"
    using Group_Get_answer [OF Cons.prems, of i key w] by blast
  with Cons.IH [of g1 w1] Cons.prems show ?case by (auto simp: call same_setup_agree)
qed simp

subsection \<open>A cache without limit asks the getter once\<close>

text \<open>A getter that succeeds and logs the keys it is asked for.\<close>

definition logging_getter :: "(string \<Rightarrow> bytes) \<Rightarrow> string list getter" where
  "logging_getter f = (\<lambda>key w. Some (Inr (f key), w @ [key]))"

definition log_inv :: "string list group \<Rightarrow> string list \<Rightarrow> bool" where
  "log_inv g w \<longleftrightarrow> group_idle g \<and> cacheBytes (mainCache g) = 0 \<and> g_peers g = None \<and>
     distinct w \<and> set w = dom (cache_lookup (mainCache g))"

lemma Group_Get_logging:
  assumes inv: "log_inv g w" and gt: "g_getter g = logging_getter f"
  shows "\<exists>g' r w'. Group_Get g i key w = Some (g', r, w') \<and> log_inv g' w' \<and> g_getter g' = g_getter g \<and>
    set w' = set w \<union> ({key} - {''''})"
proof (cases "key = ''''")
  case True
  then show ?thesis using inv by (simp add: Group_Get_def)
next
  case key: False
  have idle: "group_idle g" and c: "cache_ok (mainCache g)" using inv by (auto simp: log_inv_def group_idle_def)
  show ?thesis
  proof (cases "cache_lookup (mainCache g) key")
    case (Some v)
    have "key \<in> set w" using inv Some by (auto simp: log_inv_def)
    then show ?thesis using Group_Get_hit [OF idle key Some, of i w] inv
      by (fastforce simp: log_inv_def same_setup_def)
  next
    case None
    let ?c = "fst (cache_get (mainCache g) key)"
    have "asks_getter g key w w" using inv by (simp add: asks_getter_def peer_of_def log_inv_def)
    then obtain c' where c': "Group_load_fn g key (?c, w) = Some (Inr \<lparr>bv_b = f key\<rparr>, c', w @ [key])"
        "cache_add ?c key \<lparr>bv_b = f key\<rparr> = Some c'" "cache_ok c'" "cacheBytes c' = 0"
      using getLocally_ok [of g key w "f key" "w @ [key]" ?c] gc.get_inv [OF c, of key] gt inv
      by (auto simp: load_fn_getter logging_getter_def log_inv_def)
    have "cache_lookup c' = (cache_lookup (mainCache g))(key \<mapsto> \<lparr>bv_b = f key\<rparr>)"
      using cache_add_unlimited [OF gc.get_inv [OF c] _ c'(2)] inv gc.get_lookup [OF c]
      by (auto simp: log_inv_def)
    moreover have "key \<notin> set w" using None inv by (auto simp: log_inv_def)
    ultimately show ?thesis
      using Group_Get_miss [OF idle key None c'(1,3), of i] c'(4) inv key
      by (fastforce simp: log_inv_def same_setup_def)
  qed
qed

lemma group_run_logging:
  assumes "log_inv g w" and "g_getter g = logging_getter f"
  shows "\<exists>g' rs w'. group_run g calls w = Some (g', rs, w') \<and> distinct w' \<and>
    set w' = set w \<union> (snd ` set calls - {''''})"
  using assms
proof (induction calls arbitrary: g w)
  case Nil
  then show ?case by (simp add: log_inv_def)
next
  case (Cons call calls)
  obtain i key where call: "call = (i, key)" by (cases call)
  obtain g1 r w1 where "Group_Get g i key w = Some (g1, r, w1)" "log_inv g1 w1" "g_getter g1 = g_getter g"
      "set w1 = set w \<union> ({key} - {''''})"
    using Group_Get_logging [OF Cons.prems, of i key] by blast
  with Cons.IH [of g1 w1] Cons.prems show ?case by (auto simp: call)
qed

subsection \<open>Properties\<close>

text \<open>C11: what \<^verbatim>\<open>Get\<close> does on each branch, on a group with no call in flight. The empty key is an error
  and nothing changes. A hit returns the cached view without asking anybody. On a miss the peer that
  owns the key answers, and its answer is not cached; when no peer owns the key or the peer fails, the
  getter is asked: its error is returned and nothing is cached, its data is returned and afterwards
  every entry of the cache is that data or one that was there before (and with no limit, all of
  these are).\<close>

theorem Group_Get_branches:
  assumes "group_idle g"
  shows "Group_Get g i '''' w = Some (g, Inl ''key is required'', w) \<and>
   (key \<noteq> '''' \<longrightarrow> (\<forall>v. cache_lookup (mainCache g) key = Some v \<longrightarrow>
      (\<exists>g'. Group_Get g i key w = Some (g', Inr v, w) \<and> group_idle g' \<and>
         cache_lookup (mainCache g') = cache_lookup (mainCache g)))) \<and>
   (key \<noteq> '''' \<and> cache_lookup (mainCache g) key = None \<longrightarrow>
     (\<forall>p d w'. peer_of g key w = Some (Some p) \<and> p (g_name g) key w = Some (Inr d, w') \<longrightarrow>
        (\<exists>g'. Group_Get g i key w = Some (g', Inr \<lparr>bv_b = d\<rparr>, w') \<and> group_idle g' \<and>
           cache_lookup (mainCache g') = cache_lookup (mainCache g))) \<and>
     (\<forall>w0 err w'. asks_getter g key w w0 \<and> g_getter g key w0 = Some (Inl err, w') \<longrightarrow>
        (\<exists>g'. Group_Get g i key w = Some (g', Inl err, w') \<and> group_idle g' \<and>
           cache_lookup (mainCache g') = cache_lookup (mainCache g))) \<and>
     (\<forall>w0 d w'. asks_getter g key w w0 \<and> g_getter g key w0 = Some (Inr d, w') \<longrightarrow>
        (\<exists>g'. Group_Get g i key w = Some (g', Inr \<lparr>bv_b = d\<rparr>, w') \<and> group_idle g' \<and>
           cache_lookup (mainCache g') \<subseteq>\<^sub>m (cache_lookup (mainCache g))(key \<mapsto> \<lparr>bv_b = d\<rparr>) \<and>
           (cacheBytes (mainCache g) = 0 \<longrightarrow>
              cache_lookup (mainCache g') = (cache_lookup (mainCache g))(key \<mapsto> \<lparr>bv_b = d\<rparr>)))))"
proof (intro conjI impI allI; (elim conjE)?)
  show "Group_Get g i '''' w = Some (g, Inl ''key is required'', w)" by (simp add: Group_Get_def)
next
  fix v assume "key \<noteq> ''''" "cache_lookup (mainCache g) key = Some v"
  from Group_Get_hit [OF assms this] show "\<exists>g'. Group_Get g i key w = Some (g', Inr v, w) \<and> group_idle g' \<and>
    cache_lookup (mainCache g') = cache_lookup (mainCache g)" by blast
next
  let ?c = "fst (cache_get (mainCache g) key)"
  have c: "cache_ok (mainCache g)" using assms by (simp add: group_idle_def)
  have c1: "cache_ok ?c" "cacheBytes ?c = cacheBytes (mainCache g)" "cache_lookup ?c = cache_lookup (mainCache g)"
    using c by (auto simp: gc.get_inv gc.get_lookup)
  assume miss: "key \<noteq> ''''" "cache_lookup (mainCache g) key = None"
  note r = Group_Get_miss [OF assms miss, of w, where i = i]
  { fix p d w' assume "peer_of g key w = Some (Some p)" "p (g_name g) key w = Some (Inr d, w')"
    from r [OF load_fn_peer [OF this] c1(1,2)] c1(3)
    show "\<exists>g'. Group_Get g i key w = Some (g', Inr \<lparr>bv_b = d\<rparr>, w') \<and> group_idle g' \<and>
      cache_lookup (mainCache g') = cache_lookup (mainCache g)" by auto }
  { fix w0 err w' assume "asks_getter g key w w0" "g_getter g key w0 = Some (Inl err, w')"
    then have "Group_load_fn g key (?c, w) = Some (Inl err, ?c, w')" by (simp add: load_fn_getter getLocally_err)
    from r [OF this c1(1,2)] c1(3) show "\<exists>g'. Group_Get g i key w = Some (g', Inl err, w') \<and> group_idle g' \<and>
      cache_lookup (mainCache g') = cache_lookup (mainCache g)" by auto }
  fix w0 d w' assume a: "asks_getter g key w w0" "g_getter g key w0 = Some (Inr d, w')"
  from getLocally_ok [OF a(2) c1(1)] obtain c' where
    c': "Group_load_fn g key (?c, w) = Some (Inr \<lparr>bv_b = d\<rparr>, c', w')" "cache_add ?c key \<lparr>bv_b = d\<rparr> = Some c'"
      "cache_ok c'" "cacheBytes c' = cacheBytes (mainCache g)" by (auto simp: load_fn_getter [OF a(1)] c1(2))
  have "cache_lookup c' \<subseteq>\<^sub>m (cache_lookup (mainCache g))(key \<mapsto> \<lparr>bv_b = d\<rparr>)"
    unfolding map_le_def using cache_add_lookup [OF c1(1) c'(2)] c1(3) by (metis domD)
  then show "\<exists>g'. Group_Get g i key w = Some (g', Inr \<lparr>bv_b = d\<rparr>, w') \<and> group_idle g' \<and>
      cache_lookup (mainCache g') \<subseteq>\<^sub>m (cache_lookup (mainCache g))(key \<mapsto> \<lparr>bv_b = d\<rparr>) \<and>
      (cacheBytes (mainCache g) = 0 \<longrightarrow>
         cache_lookup (mainCache g') = (cache_lookup (mainCache g))(key \<mapsto> \<lparr>bv_b = d\<rparr>))"
    using r [OF c'(1,3,4)] cache_add_unlimited [OF c1(1) _ c'(2)] c1 by auto
qed

theorem Group_Get_branches_witness:
  "\<exists>g'. Group_Get (new_group ''scores'' 0 (logging_getter (\<lambda>k. ''630''))) 0 ''Tom'' [] =
       Some (g', Inr \<lparr>bv_b = ''630''\<rparr>, [''Tom'']) \<and> cache_lookup (mainCache g') ''Tom'' = Some \<lparr>bv_b = ''630''\<rparr>"
proof -
  let ?g = "new_group ''scores'' 0 (logging_getter (\<lambda>k. ''630''))"
  have g: "group_idle ?g" "asks_getter ?g ''Tom'' [] []" "''Tom'' \<noteq> ''''"
    "g_getter ?g ''Tom'' [] = Some (Inr ''630'', [''Tom''])"
    "cache_lookup (mainCache ?g) ''Tom'' = None" "cacheBytes (mainCache ?g) = 0"
    by (simp_all add: asks_getter_def peer_of_def logging_getter_def)
  then obtain g' where "Group_Get ?g 0 ''Tom'' [] = Some (g', Inr \<lparr>bv_b = ''630''\<rparr>, [''Tom''])"
    "cache_lookup (mainCache g') = (cache_lookup (mainCache ?g))(''Tom'' \<mapsto> \<lparr>bv_b = ''630''\<rparr>)"
    using Group_Get_branches [OF g(1), of 0 "[]" "''Tom''"] by blast
  then show ?thesis by simp
qed

text \<open>C12: a group serves its data source. When the source does not change, the getter reads it and
  every peer answers what it says or fails, any sequence of calls of \<^verbatim>\<open>Get\<close> on a new group, by any
  goroutines, returns, and every call gets exactly the source's answer for its key, whatever the
  cache has evicted in between.\<close>

theorem group_serves_source:
  assumes "0 \<le> sint cb" and "RegisterPeers (new_group name cb gt) peers = Inr g"
    and "getter_reads src g" and "peers_agree src g"
  shows "\<exists>g' w'. group_run g calls w = Some (g', map (answer src \<circ> snd) calls, w')"
proof -
  have g: "g = (new_group name cb gt)\<lparr>g_peers := peers\<rparr>" using assms(2) by (simp add: RegisterPeers_def)
  then have "mainCache g = cache_new cb" "loader g = sf_init" by (simp_all add: new_group_def)
  then have "group_idle g" "gc.entries_ok (caches_src src) (mainCache g)"
    using assms(1) by (simp_all add: group_idle_def sf_init_def gc.entries_ok_def)
  then show ?thesis by (rule group_run_answers [OF _ assms(3,4)])
qed

text \<open>A peer that always fails, and one that knows the answer.\<close>

definition flaky_picker :: "(string \<Rightarrow> bytes) \<Rightarrow> string list peer_picker" where
  "flaky_picker f = (\<lambda>key w. Some (if key = ''b'' then Some (\<lambda>_ k w. Some (Inl ''timeout'', w))
     else Some (\<lambda>_ k w. Some (Inr (f k), w))))"

theorem group_serves_source_witness:
  "\<exists>g g' w'. RegisterPeers (new_group ''g'' 3 (logging_getter id)) (Some (flaky_picker id)) = Inr g \<and>
     group_run g [(0, ''a''), (1, ''b''), (0, ''''), (1, ''b'')] [] =
       Some (g', [Inr \<lparr>bv_b = ''a''\<rparr>, Inr \<lparr>bv_b = ''b''\<rparr>, Inl ''key is required'', Inr \<lparr>bv_b = ''b''\<rparr>], w')"
proof -
  let ?g = "(new_group ''g'' 3 (logging_getter id))\<lparr>g_peers := Some (flaky_picker id)\<rparr>"
  have r: "RegisterPeers (new_group ''g'' 3 (logging_getter id)) (Some (flaky_picker id)) = Inr ?g"
    by (simp add: RegisterPeers_def)
  have "getter_reads (\<lambda>k. Inr k) ?g" "peers_agree (\<lambda>k. Inr k) ?g"
    by (simp_all add: getter_reads_def peers_agree_def logging_getter_def peer_of_def flaky_picker_def)
  from group_serves_source [OF _ r this, of "[(0, ''a''), (1, ''b''), (0, ''''), (1, ''b'')]" "[]"]
  show ?thesis using r by (auto simp: answer_def)
qed

text \<open>A group whose cache has no limit and that has no peers asks the getter exactly once for
  every key that is asked for, however often and by whichever goroutines.\<close>

theorem group_loads_once:
  "\<exists>g' rs w'. group_run (new_group name 0 (logging_getter f)) calls [] = Some (g', rs, w') \<and>
     distinct w' \<and> set w' = snd ` set calls - {''''}"
  using group_run_logging [of "new_group name 0 (logging_getter f)" "[]" f calls]
  by (simp add: log_inv_def dom_def)

text \<open>The table of groups. After \<^verbatim>\<open>NewGroup\<close> the name leads to a new, empty group with the given
  getter; every other name and every group made before is as it was, also the one that the name
  led to. Without a getter the call panics. Peers can be registered once.\<close>

theorem NewGroup_spec:
  assumes "\<And>a. gs_heap st a \<noteq> None \<Longrightarrow> a < gs_next st"
  shows "NewGroup st name cb None = Inl ''nil Getter'' \<and>
    (\<exists>a st'. NewGroup st name cb (Some gt) = Inr (a, st') \<and> GetGroup st' name = Some a \<and>
       gs_heap st' a = Some (new_group name cb gt) \<and> gs_heap st a = None \<and>
       (\<forall>name'. name' \<noteq> name \<longrightarrow> GetGroup st' name' = GetGroup st name') \<and>
       (\<forall>b. b \<noteq> a \<longrightarrow> gs_heap st' b = gs_heap st b) \<and> (\<forall>b. gs_heap st' b \<noteq> None \<longrightarrow> b < gs_next st')) \<and>
    (\<forall>p q g. RegisterPeers (new_group name cb gt) (Some p) = Inr g \<longrightarrow>
       RegisterPeers g q = Inl ''RegisterPeerPicker called more than once'')"
  using assms by (fastforce simp: NewGroup_def GetGroup_def new_group_def RegisterPeers_def Let_def less_Suc_eq)

theorem NewGroup_spec_witness:
  "\<exists>a st'. NewGroup gs_init ''scores'' 2048 (Some (logging_getter id)) = Inr (a, st') \<and>
     GetGroup st' ''scores'' = Some a"
  using NewGroup_spec [of gs_init "''scores''" 2048 "logging_getter id"] by (auto simp: gs_init_def)

end
