(* ===== verification/Http_Lib.thy ===== *)
theory Http_Lib
  imports Prelude
begin

section \<open>The parts of net/http and net/url the program uses\<close>

text \<open>
  Responses as a handler writes them, escaping and unescaping of URLs, and the delivery of a
  \<^verbatim>\<open>GET\<close> request to a handler of another process. Used by the cache's peer protocol.
\<close>

subsection \<open>Responses\<close>

record http_resp =
  rs_code :: nat
  rs_header :: "(string \<times> string) list"
  rs_body :: bytes

definition http_Error :: "string \<Rightarrow> nat \<Rightarrow> http_resp" where
  "http_Error msg code =
     \<lparr>rs_code = code,
      rs_header = [(''Content-Type'', ''text/plain; charset=utf-8''), (''X-Content-Type-Options'', ''nosniff'')],
      rs_body = msg @ [CHR 0x0A]\<rparr>"

fun http_StatusText :: "nat \<Rightarrow> string" where
  "http_StatusText n =
     (if n = 200 then ''OK'' else if n = 400 then ''Bad Request'' else if n = 404 then ''Not Found''
      else if n = 405 then ''Method Not Allowed'' else if n = 500 then ''Internal Server Error'' else '''')"

text \<open>The field \<^verbatim>\<open>Status\<close> of a client's response.\<close>

definition res_Status :: "http_resp \<Rightarrow> string" where
  "res_Status r = strconv_Itoa (rs_code r) @ '' '' @ http_StatusText (rs_code r)"

subsection \<open>Escaping\<close>

definition hex_digit :: "nat \<Rightarrow> char" where
  "hex_digit n = (if n < 10 then char_of (48 + n) else char_of (55 + n))"

definition unhex :: "char \<Rightarrow> nat option" where
  "unhex c = (let n = of_char c :: nat in
     if 48 \<le> n \<and> n \<le> 57 then Some (n - 48)
     else if 65 \<le> n \<and> n \<le> 70 then Some (n - 55)
     else if 97 \<le> n \<and> n \<le> 102 then Some (n - 87) else None)"

definition unreserved :: "char \<Rightarrow> bool" where
  "unreserved c \<longleftrightarrow> (let n = of_char c :: nat in
     48 \<le> n \<and> n \<le> 57 \<or> 65 \<le> n \<and> n \<le> 90 \<or> 97 \<le> n \<and> n \<le> 122) \<or> c \<in> set ''-_.~''"

text \<open>\<^verbatim>\<open>url.QueryEscape\<close>\<close>

definition escape_char :: "char \<Rightarrow> string" where
  "escape_char c =
     (if unreserved c then [c] else if c = CHR '' '' then ''+''
      else [CHR ''%'', hex_digit (of_char c div 16), hex_digit (of_char c mod 16)])"

definition url_QueryEscape :: "string \<Rightarrow> string" where
  "url_QueryEscape s = concat (map escape_char s)"

text \<open>How \<^verbatim>\<open>URL.Path\<close> is made from the path of the request: \<^verbatim>\<open>%XX\<close> is decoded and \<^verbatim>\<open>+\<close> is an
  ordinary character; \<^const>\<open>None\<close> when an escape is malformed.\<close>

fun path_unescape :: "string \<Rightarrow> string option" where
  "path_unescape [] = Some []"
| "path_unescape (c # s) =
     (if c = CHR ''%'' then
        (case s of
           a # b # s' \<Rightarrow>
             (case (unhex a, unhex b) of
                (Some x, Some y) \<Rightarrow> map_option (Cons (char_of (16 * x + y))) (path_unescape s')
              | _ \<Rightarrow> None)
         | _ \<Rightarrow> None)
      else map_option (Cons c) (path_unescape s))"

text \<open>What a string becomes on the way: a space arrives as \<^verbatim>\<open>+\<close>.\<close>

definition plus_for_space :: "string \<Rightarrow> string" where
  "plus_for_space s = map (\<lambda>c. if c = CHR '' '' then CHR ''+'' else c) s"

lemma unhex_hex_digit [simp]: "n < 16 \<Longrightarrow> unhex (hex_digit n) = Some n"
  by (auto simp: unhex_def hex_digit_def Let_def)



lemma of_char_div_less [simp]: "(of_char c :: nat) div 16 < 16"
  using nat_of_char_less_256 [of c] by linarith

lemma hex_digit_in: "n < 16 \<Longrightarrow> hex_digit n \<in> set ''0123456789ABCDEF''"
proof -
  assume "n < 16"
  moreover have "\<forall>n \<in> set [0..<16]. hex_digit n \<in> set ''0123456789ABCDEF''" by code_simp
  ultimately show ?thesis by simp
qed

lemma unreserved_clean: "unreserved c \<Longrightarrow> c \<noteq> CHR ''%'' \<and> c \<noteq> CHR ''/'' \<and> c \<noteq> CHR ''?'' \<and> c \<noteq> CHR ''#''"
  by (auto simp: unreserved_def Let_def)

lemma unescape_escape_char:
  "path_unescape (escape_char c @ s) = map_option (Cons (if c = CHR '' '' then CHR ''+'' else c)) (path_unescape s)"
proof (cases "unreserved c \<or> c = CHR '' ''")
  case True
  then show ?thesis using unreserved_clean [of c] by (auto simp: escape_char_def unreserved_def)
next
  case False
  have "char_of (16 * (of_char c div 16) + of_char c mod 16 :: nat) = c"
    by (simp only: mult_div_mod_eq char_of_char)
  with False show ?thesis by (simp add: escape_char_def)
qed

lemma unescape_plain: "CHR ''%'' \<notin> set p \<Longrightarrow> path_unescape (p @ s) = map_option (append p) (path_unescape s)"
  by (cases "path_unescape s"; induction p) auto

lemma unescape_QueryEscape [go_strings]:
  "path_unescape (url_QueryEscape a @ s) = map_option (append (plus_for_space a)) (path_unescape s)"
  by (cases "path_unescape s"; induction a) (auto simp: url_QueryEscape_def plus_for_space_def unescape_escape_char)

lemma escape_char_clean: "c \<in> set (escape_char d) \<Longrightarrow> c \<noteq> CHR ''/'' \<and> c \<noteq> CHR ''?'' \<and> c \<noteq> CHR ''#''"
proof (cases "unreserved d \<or> d = CHR '' ''")
  case False
  moreover assume "c \<in> set (escape_char d)"
  ultimately have "c \<in> set ''%0123456789ABCDEF''"
    using hex_digit_in [of "of_char d div 16"] hex_digit_in [of "of_char d mod 16"]
    by (auto simp: escape_char_def)
  then show ?thesis by auto
qed (auto simp: escape_char_def unreserved_def [of "CHR '' ''"] dest: unreserved_clean)

lemma QueryEscape_clean [go_strings]:
  "CHR ''/'' \<notin> set (url_QueryEscape s)" "CHR ''?'' \<notin> set (url_QueryEscape s)" "CHR ''#'' \<notin> set (url_QueryEscape s)"
  using escape_char_clean by (fastforce simp: url_QueryEscape_def)+

lemma plus_for_space_id: "CHR '' '' \<notin> set s \<Longrightarrow> plus_for_space s = s"
  by (induction s) (auto simp: plus_for_space_def)

subsection \<open>Delivery of a \<^verbatim>\<open>GET\<close> request\<close>

text \<open>A handler gets \<^verbatim>\<open>URL.Path\<close> and the state \<open>'w\<close> of the world; it panics (left) or responds. A client
  gets an error or a response whose body can still fail to be read.\<close>

type_synonym 'w http_handler = "string \<Rightarrow> 'w \<Rightarrow> ((string + http_resp) \<times> 'w) option"

record client_res =
  StatusCode :: nat
  Status :: string
  Body :: "string + bytes"

type_synonym 'w http_client = "string \<Rightarrow> 'w \<Rightarrow> ((string + client_res) \<times> 'w) option"

text \<open>Host and escaped path of a URL.\<close>

definition url_split :: "string \<Rightarrow> (string \<times> string) option" where
  "url_split u =
     (if strings_HasPrefix u ''http://'' then
        (let r = drop 7 u
         in Some (takeWhile (\<lambda>c. c \<noteq> CHR ''/'') r,
                  takeWhile (\<lambda>c. c \<noteq> CHR ''?'' \<and> c \<noteq> CHR ''#'') (dropWhile (\<lambda>c. c \<noteq> CHR ''/'') r)))
      else None)"

text \<open>A network without faults: a request reaches the handler that listens at the host. The server
  closes the connection when the handler panics, so that the client sees an error.\<close>

definition http_Get :: "(string \<rightharpoonup> 'w http_handler) \<Rightarrow> 'w http_client" where
  "http_Get net u w =
     (case url_split u of
        None \<Rightarrow> Some (Inl ''unsupported protocol scheme'', w)
      | Some (host, raw) \<Rightarrow>
          (case path_unescape raw of
             None \<Rightarrow> Some (Inl ''invalid URL escape'', w)
           | Some path \<Rightarrow>
               (case net host of
                  None \<Rightarrow> Some (Inl ''connection refused'', w)
                | Some h \<Rightarrow>
                    (case h path w of
                       None \<Rightarrow> None
                     | Some (Inl _, w') \<Rightarrow> Some (Inl ''EOF'', w')
                     | Some (Inr rs, w') \<Rightarrow>
                         Some (Inr \<lparr>StatusCode = rs_code rs, Status = res_Status rs, Body = Inr (rs_body rs)\<rparr>, w')))))"

lemma url_split_append:
  assumes "CHR ''/'' \<notin> set host" "CHR ''?'' \<notin> set p" "CHR ''#'' \<notin> set p"
  shows "url_split (''http://'' @ host @ CHR ''/'' # p) = Some (host, CHR ''/'' # p)"
proof -
  have h: "\<And>c. c \<in> set host \<Longrightarrow> c \<noteq> CHR ''/''" and p: "\<And>c. c \<in> set p \<Longrightarrow> c \<noteq> CHR ''?'' \<and> c \<noteq> CHR ''#''"
    using assms by auto
  have "takeWhile (\<lambda>c. c \<noteq> CHR ''?'' \<and> c \<noteq> CHR ''#'') p = p" using p by (simp add: takeWhile_eq_all_conv)
  then show ?thesis using h
    by (auto simp: url_split_def strings_HasPrefix_def takeWhile_append2 dropWhile_append2)
qed

end
