(* ===== verification/Http_Pool.thy ===== *)
theory Http_Pool
  imports Geecache Consistenthash Http_Lib
begin

section \<open>The pool of HTTP peers (\<^verbatim>\<open>cache/http.go\<close>)\<close>

text \<open>
  \<^verbatim>\<open>HTTPPool\<close> is both sides of the peer protocol: it picks the peer that owns a key on the hash ring,
  fetches \<^verbatim>\<open><base>/<group>/<key>\<close> from it, and serves such requests from its own groups. The HTTP
  client is an argument (\<open>http_get\<close>); the round trip over a network is proved for \<^const>\<open>http_Get\<close>.
\<close>

subsection \<open>State and operations\<close>

definition defaultBasePath :: string where "defaultBasePath = ''/cache/''"
definition defaultReplicas :: int where "defaultReplicas = 50"

record http_pool =
  self :: string
  basePath :: string
  hp_peers :: "ch_map option"
  httpGetters :: "string \<rightharpoonup> string"

text \<open>A \<^verbatim>\<open>*httpGetter\<close> is its \<^verbatim>\<open>baseURL\<close>.\<close>

definition NewHTTPPool :: "string \<Rightarrow> http_pool" where
  "NewHTTPPool s = \<lparr>self = s, basePath = defaultBasePath, hp_peers = None, httpGetters = Map.empty\<rparr>"

text \<open>The outer \<^const>\<open>None\<close>: \<^verbatim>\<open>Get\<close> of the group does not return. On the left, a panic.\<close>

definition HTTPPool_ServeHTTP ::
  "http_pool \<Rightarrow> 'w gee_state \<Rightarrow> nat \<Rightarrow> string \<Rightarrow> 'w \<Rightarrow> ((string + http_resp) \<times> 'w gee_state \<times> 'w) option" where
  "HTTPPool_ServeHTTP p st i path w =
     (if \<not> strings_HasPrefix path (basePath p)
      then Some (Inl (''HTTPPool serving unexpected path: '' @ path), st, w)
      else
        let parts = strings_SplitN2 (drop (length (basePath p)) path) CHR ''/''
        in if length parts \<noteq> 2 then Some (Inr (http_Error ''bad request'' 400), st, w)
           else
             let groupName = parts ! 0; key = parts ! 1
             in case GetGroup st groupName of
                  None \<Rightarrow> Some (Inr (http_Error (''no such group: '' @ groupName) 404), st, w)
                | Some g \<Rightarrow>
                    (case gs_Get st g i key w of
                       None \<Rightarrow> None
                     | Some (st', Inl err, w') \<Rightarrow> Some (Inr (http_Error err 500), st', w')
                     | Some (st', Inr view, w') \<Rightarrow>
                         Some (Inr \<lparr>rs_code = 200, rs_header = [(''Content-Type'', ''application/octet-stream'')],
                                    rs_body = bv_ByteSlice view\<rparr>, st', w')))"

definition HTTPPool_Set :: "http_pool \<Rightarrow> string list \<Rightarrow> http_pool" where
  "HTTPPool_Set p peers =
     p\<lparr>hp_peers := Some (ch_Add (ch_New defaultReplicas None) peers),
       httpGetters := foldl (\<lambda>m peer. m(peer \<mapsto> peer @ basePath p)) Map.empty peers\<rparr>"

text \<open>Before the first \<^verbatim>\<open>Set\<close> the pointer to the ring is \<^verbatim>\<open>nil\<close>. \<open>Inr None\<close> is \<^verbatim>\<open>nil, false\<close>; the getter
  that comes with \<^verbatim>\<open>true\<close> is a map lookup and could be \<^verbatim>\<open>nil\<close>.\<close>

definition HTTPPool_PickPeer :: "http_pool \<Rightarrow> string \<Rightarrow> string + string option option" where
  "HTTPPool_PickPeer p key =
     (case hp_peers p of
        None \<Rightarrow> Inl ''invalid memory address or nil pointer dereference''
      | Some m \<Rightarrow>
          let peer = ch_Get m key
          in if peer \<noteq> '''' \<and> peer \<noteq> self p then Inr (Some (httpGetters p peer)) else Inr None)"

definition httpGetter_Get :: "'w http_client \<Rightarrow> string \<Rightarrow> 'w peer_getter" where
  "httpGetter_Get http_get baseURL grp key w =
     (let u = baseURL @ url_QueryEscape grp @ ''/'' @ url_QueryEscape key
      in case http_get u w of
           None \<Rightarrow> None
         | Some (Inl err, w') \<Rightarrow> Some (Inl err, w')
         | Some (Inr res, w') \<Rightarrow>
             if StatusCode res \<noteq> 200 then Some (Inl (''server returned: '' @ Status res), w')
             else (case Body res of
                     Inl err \<Rightarrow> Some (Inl (''reading response body: '' @ err), w')
                   | Inr bs \<Rightarrow> Some (Inr bs, w')))"

text \<open>The pool as the \<^verbatim>\<open>PeerPicker\<close> of a group; a \<^verbatim>\<open>nil\<close> getter panics when it is used.\<close>

definition pool_picker :: "'w http_client \<Rightarrow> http_pool \<Rightarrow> 'w peer_picker" where
  "pool_picker http_get p = (\<lambda>key w.
     case HTTPPool_PickPeer p key of
       Inl _ \<Rightarrow> None
     | Inr None \<Rightarrow> Some None
     | Inr (Some None) \<Rightarrow> Some (Some (\<lambda>_ _ _. None))
     | Inr (Some (Some baseURL)) \<Rightarrow> Some (Some (httpGetter_Get http_get baseURL)))"

subsection \<open>Facts\<close>

lemma httpGetters_Set:
  "httpGetters (HTTPPool_Set p peers) peer = (if peer \<in> set peers then Some (peer @ basePath p) else None)"
proof -
  have "foldl (\<lambda>m peer. m(peer \<mapsto> peer @ b)) m peers x = (if x \<in> set peers then Some (x @ b) else m x)" for b m x
    by (induction peers arbitrary: m) auto
  then show ?thesis by (simp add: HTTPPool_Set_def)
qed

lemma pool_fields [simp]:
  "hp_peers (HTTPPool_Set p peers) = Some (ch_Add (ch_New defaultReplicas None) peers)"
  "self (HTTPPool_Set p peers) = self p" "basePath (HTTPPool_Set p peers) = basePath p"
  "self (NewHTTPPool s) = s" "basePath (NewHTTPPool s) = defaultBasePath"
  by (simp_all add: HTTPPool_Set_def NewHTTPPool_def)

lemma pool_owner:
  assumes "peers \<noteq> []"
  shows "ch_Get (ch_Add (ch_New defaultReplicas None) peers) key \<in> set peers"
  by (rule ch_Get_owner [OF assms]) (simp add: defaultReplicas_def)

lemma PickPeer_Set:
  assumes "peers \<noteq> []" "'''' \<notin> set peers"
  shows "HTTPPool_PickPeer (HTTPPool_Set (NewHTTPPool s) peers) key =
    (let owner = ch_Get (ch_Add (ch_New defaultReplicas None) peers) key
     in Inr (if owner = s then None else Some (Some (owner @ defaultBasePath))))"
  using pool_owner [OF assms(1), of key] assms(2)
  by (auto simp: HTTPPool_PickPeer_def Let_def httpGetters_Set)

text \<open>The path that \<^verbatim>\<open>httpGetter.Get\<close> asks for, as the server sees it.\<close>

lemma ServeHTTP_path:
  assumes "CHR ''/'' \<notin> set grp"
  shows "HTTPPool_ServeHTTP p st i (basePath p @ grp @ ''/'' @ key) w =
    (case GetGroup st grp of
       None \<Rightarrow> Some (Inr (http_Error (''no such group: '' @ grp) 404), st, w)
     | Some g \<Rightarrow>
         (case gs_Get st g i key w of
            None \<Rightarrow> None
          | Some (st', Inl err, w') \<Rightarrow> Some (Inr (http_Error err 500), st', w')
          | Some (st', Inr view, w') \<Rightarrow>
              Some (Inr \<lparr>rs_code = 200, rs_header = [(''Content-Type'', ''application/octet-stream'')],
                         rs_body = bv_b view\<rparr>, st', w')))"
  using SplitN2_append_sep [OF assms, of key]
  unfolding HTTPPool_ServeHTTP_def bv_ByteSlice_def cloneBytes_id by simp

text \<open>A pool that listens at a host, on the world that holds the groups of its process.\<close>

definition pool_handler :: "http_pool \<Rightarrow> nat \<Rightarrow> ('w gee_state \<times> 'w) http_handler" where
  "pool_handler p i = (\<lambda>path (st, w). HTTPPool_ServeHTTP p st i path w)"

lemma Itoa_500: "strconv_Itoa 500 = ''500''"
  by code_simp

lemma fetch_url:
  assumes "CHR ''/'' \<notin> set host"
  shows "http_Get net ((''http://'' @ host) @ defaultBasePath @ url_QueryEscape grp @ ''/'' @ url_QueryEscape key) w =
    (case net host of
       None \<Rightarrow> Some (Inl ''connection refused'', w)
     | Some h \<Rightarrow>
         (case h (defaultBasePath @ plus_for_space grp @ ''/'' @ plus_for_space key) w of
            None \<Rightarrow> None
          | Some (Inl _, w') \<Rightarrow> Some (Inl ''EOF'', w')
          | Some (Inr rs, w') \<Rightarrow>
              Some (Inr \<lparr>StatusCode = rs_code rs, Status = res_Status rs, Body = Inr (rs_body rs)\<rparr>, w')))"
proof -
  let ?p = "''cache/'' @ url_QueryEscape grp @ ''/'' @ url_QueryEscape key"
  have "url_split (''http://'' @ host @ CHR ''/'' # ?p) = Some (host, CHR ''/'' # ?p)"
    by (rule url_split_append [OF assms]) (simp_all add: go_strings)
  moreover have "path_unescape (CHR ''/'' # ?p) =
      Some (defaultBasePath @ plus_for_space grp @ ''/'' @ plus_for_space key)"
    using unescape_QueryEscape [of key "[]"]
    by (simp add: unescape_QueryEscape defaultBasePath_def)
  ultimately show ?thesis
    unfolding http_Get_def by (cases "net host") (simp_all add: defaultBasePath_def)
qed

text \<open>What the getter makes of the response of the handler that listens at the host.\<close>

lemma httpGetter_response:
  assumes "CHR ''/'' \<notin> set host" and "net host = Some h"
    and "h (defaultBasePath @ plus_for_space grp @ ''/'' @ plus_for_space key) w = Some (Inr rs, w')"
  shows "httpGetter_Get (http_Get net) ((''http://'' @ host) @ defaultBasePath) grp key w =
    Some (if rs_code rs = 200 then Inr (rs_body rs) else Inl (''server returned: '' @ res_Status rs), w')"
  unfolding httpGetter_Get_def Let_def append_assoc [of "''http://'' @ host"] fetch_url [OF assms(1)]
  using assms(2,3) by simp

subsection \<open>Properties\<close>

text \<open>All nodes agree on who owns a key. Two pools that were given the same peers (in the same
  order, or in any order when no two peers share a point of the ring) name the same owner: the
  owner itself answers from its own groups, every other node picks the owner's getter. So a request
  is forwarded at most once.\<close>

theorem PickPeer_agree:
  assumes "peers \<noteq> []" and "'''' \<notin> set peers" and "set peers' = set peers"
    and "peers' = peers \<or> (\<forall>n \<in> set peers. \<forall>n' \<in> set peers. n \<noteq> n' \<longrightarrow>
      node_points crc32_ChecksumIEEE defaultReplicas n \<inter> node_points crc32_ChecksumIEEE defaultReplicas n' = {})"
  shows "\<exists>owner \<in> set peers. \<forall>s.
    HTTPPool_PickPeer (HTTPPool_Set (NewHTTPPool s) peers) key =
      Inr (if owner = s then None else Some (Some (owner @ defaultBasePath))) \<and>
    HTTPPool_PickPeer (HTTPPool_Set (NewHTTPPool s) peers') key =
      Inr (if owner = s then None else Some (Some (owner @ defaultBasePath)))"
proof -
  let ?owner = "\<lambda>ps. ch_Get (ch_Add (ch_New defaultReplicas None) ps) key"
  have "?owner peers = ?owner peers'"
    using assms(4)
  proof
    assume free: "\<forall>n \<in> set peers. \<forall>n' \<in> set peers. n \<noteq> n' \<longrightarrow>
      node_points crc32_ChecksumIEEE defaultReplicas n \<inter> node_points crc32_ChecksumIEEE defaultReplicas n' = {}"
    show ?thesis by (rule ch_Get_order) (use free assms(3) in \<open>simp_all add: ch_New_def\<close>)
  qed simp
  moreover have "peers' \<noteq> []" "'''' \<notin> set peers'" using assms by auto
  ultimately show ?thesis
    using PickPeer_Set [OF assms(1,2)] PickPeer_Set [of peers'] pool_owner [OF assms(1), of key]
    by (intro bexI [of _ "?owner peers"]) (simp_all add: Let_def)
qed

theorem PickPeer_agree_witness:
  "\<exists>owner \<in> {''http://a'', ''http://b''}.
     HTTPPool_PickPeer (HTTPPool_Set (NewHTTPPool owner) [''http://a'', ''http://b'']) ''Tom'' = Inr None \<and>
     HTTPPool_PickPeer (HTTPPool_Set (NewHTTPPool ''http://c'') [''http://a'', ''http://b'']) ''Tom'' =
       Inr (Some (Some (owner @ ''/cache/'')))"
  using PickPeer_agree [of "[''http://a'', ''http://b'']" "[''http://a'', ''http://b'']" "''Tom''"]
  by (fastforce simp: defaultBasePath_def)

text \<open>What the server answers. A path outside the base path makes the handler panic; a path with
  no group and key is a bad request, an unknown group is not found, an error of \<^verbatim>\<open>Get\<close> is a 500 with
  the error as its text, and a view is sent as it is.\<close>

theorem ServeHTTP_responses:
  assumes "CHR ''/'' \<notin> set grp"
  shows "(\<not> strings_HasPrefix path (basePath p) \<longrightarrow>
      HTTPPool_ServeHTTP p st i path w = Some (Inl (''HTTPPool serving unexpected path: '' @ path), st, w)) \<and>
    HTTPPool_ServeHTTP p st i (basePath p @ grp) w = Some (Inr (http_Error ''bad request'' 400), st, w) \<and>
    (GetGroup st grp = None \<longrightarrow> HTTPPool_ServeHTTP p st i (basePath p @ grp @ ''/'' @ key) w =
       Some (Inr (http_Error (''no such group: '' @ grp) 404), st, w)) \<and>
    (\<forall>a st' err w'. GetGroup st grp = Some a \<and> gs_Get st a i key w = Some (st', Inl err, w') \<longrightarrow>
       HTTPPool_ServeHTTP p st i (basePath p @ grp @ ''/'' @ key) w = Some (Inr (http_Error err 500), st', w')) \<and>
    (\<forall>a st' v w'. GetGroup st grp = Some a \<and> gs_Get st a i key w = Some (st', Inr v, w') \<longrightarrow>
       HTTPPool_ServeHTTP p st i (basePath p @ grp @ ''/'' @ key) w =
         Some (Inr \<lparr>rs_code = 200, rs_header = [(''Content-Type'', ''application/octet-stream'')],
                    rs_body = bv_b v\<rparr>, st', w'))"
  unfolding ServeHTTP_path [OF assms]
  by (simp add: HTTPPool_ServeHTTP_def SplitN2_no_sep [OF assms])

theorem ServeHTTP_responses_witness:
  "HTTPPool_ServeHTTP (NewHTTPPool ''http://a'') (gs_init :: unit gee_state) 0 ''/cache/scores'' () =
     Some (Inr (http_Error ''bad request'' 400), gs_init, ())"
  using ServeHTTP_responses [of "''scores''" _ "NewHTTPPool ''http://a''" gs_init 0 "()"]
  by (simp add: defaultBasePath_def)

text \<open>C13: the two sides of the protocol fit. A getter that asks a pool over the network, for a group
  whose name has no slash, gets the bytes that \<^verbatim>\<open>Get\<close> of that group returns at the other side, or an
  error when \<^verbatim>\<open>Get\<close> fails there. Every byte of the key is allowed; only a space does not arrive as it was
  (it arrives as a plus).\<close>

theorem httpGetter_fetches:
  assumes "CHR ''/'' \<notin> set host" and "CHR ''/'' \<notin> set grp" and "basePath p = defaultBasePath"
    and "net host = Some (pool_handler p i)"
    and "GetGroup st (plus_for_space grp) = Some a"
    and "gs_Get st a i (plus_for_space key) w = Some (st', r, w')"
  shows "httpGetter_Get (http_Get net) ((''http://'' @ host) @ defaultBasePath) grp key (st, w) =
    Some (case r of Inl _ \<Rightarrow> Inl ''server returned: 500 Internal Server Error'' | Inr v \<Rightarrow> Inr (bv_b v), st', w')"
proof -
  have "CHR ''/'' \<notin> set (plus_for_space grp)" using assms(2) by (auto simp: plus_for_space_def)
  from ServeHTTP_path [OF this, of p st i "plus_for_space key" w] show ?thesis
    using assms(3-6) httpGetter_response [of host net "pool_handler p i" grp key "(st, w)"] assms(1)
    by (cases r) (simp_all add: pool_handler_def http_Error_def res_Status_def Itoa_500)
qed

theorem httpGetter_fetches_witness:
  "\<exists>a st st' w'. NewGroup gs_init ''scores'' 2048 (Some (logging_getter id)) = Inr (a, st) \<and>
     httpGetter_Get (http_Get [''localhost:8001'' \<mapsto> pool_handler (NewHTTPPool ''x'') 0])
       (''http://localhost:8001'' @ defaultBasePath) ''scores'' ''a/b?c'' (st, []) = Some (Inr ''a/b?c'', st', w')"
proof -
  let ?g = "new_group ''scores'' 2048 (logging_getter id)" and ?net = "[''localhost:8001'' \<mapsto> pool_handler (NewHTTPPool ''x'') 0]"
  define st :: "string list gee_state" where
    "st = gs_init\<lparr>gs_next := Suc 0, gs_heap := [0 \<mapsto> ?g], gs_groups := [''scores'' \<mapsto> 0]\<rparr>"
  have st: "NewGroup gs_init ''scores'' 2048 (Some (logging_getter id)) = Inr (0, st)"
    by (simp add: NewGroup_def st_def gs_init_def new_group_def Let_def)
  obtain g' w' where g': "Group_Get ?g 0 ''a/b?c'' [] = Some (g', Inr \<lparr>bv_b = ''a/b?c''\<rparr>, w')"
    using Group_Get_answer [of ?g "\<lambda>k. Inr k" 0 "''a/b?c''" "[]"]
    by (auto simp: getter_reads_def peers_agree_def peer_of_def logging_getter_def gc.entries_ok_def answer_def)
  have "gs_Get st 0 0 (plus_for_space ''a/b?c'') [] =
      Some (st\<lparr>gs_heap := (gs_heap st)(0 \<mapsto> g')\<rparr>, Inr \<lparr>bv_b = ''a/b?c''\<rparr>, w')"
    using g' by (simp add: gs_Get_def st_def plus_for_space_def)
  moreover have "GetGroup st (plus_for_space ''scores'') = Some 0" by (simp add: GetGroup_def st_def plus_for_space_def)
  ultimately show ?thesis
    using httpGetter_fetches [of "''localhost:8001''" "''scores''" "NewHTTPPool ''x''" ?net 0 st 0 "''a/b?c''" "[]"] st
    by auto
qed

text \<open>The escaping loses spaces. Asking a peer for a key is the same as asking it for the key in
  which every space is a plus, whatever listens at the peer: \<^verbatim>\<open>a b\<close> gets the value of \<^verbatim>\<open>a+b\<close>.\<close>

theorem httpGetter_space_as_plus:
  assumes "CHR ''/'' \<notin> set host"
  shows "httpGetter_Get (http_Get net) ((''http://'' @ host) @ defaultBasePath) grp key w =
    httpGetter_Get (http_Get net) ((''http://'' @ host) @ defaultBasePath) grp (plus_for_space key) w"
proof -
  have idem: "plus_for_space (plus_for_space key) = plus_for_space key" by (simp add: plus_for_space_def)
  show ?thesis
    unfolding httpGetter_Get_def Let_def append_assoc [of "''http://'' @ host"] fetch_url [OF assms] idem ..
qed

theorem httpGetter_space_as_plus_witness:
  "httpGetter_Get (http_Get [''h'' \<mapsto> pool_handler (NewHTTPPool ''x'') 0]) (''http://h'' @ defaultBasePath)
     ''g'' ''a b'' (gs_init, ()) =
   httpGetter_Get (http_Get [''h'' \<mapsto> pool_handler (NewHTTPPool ''x'') 0]) (''http://h'' @ defaultBasePath)
     ''g'' ''a+b'' (gs_init, ())"
  using httpGetter_space_as_plus [of "''h''" "[''h'' \<mapsto> pool_handler (NewHTTPPool ''x'') 0]" "''g''" "''a b''"
      "(gs_init, ())"]
  by (simp add: plus_for_space_def)

end
