(* ===== verification/Cluster.thy ===== *)
theory Cluster
  imports Http_Pool
begin

section \<open>A cluster of cache servers (\<^verbatim>\<open>cache/main/main.go\<close>)\<close>

text \<open>
  The program that starts one node: it makes the group, gives it a pool of all nodes as its peers
  and serves the pool at its own address. Then several such processes together: each runs the
  same group over the same data source and forwards the keys it does not own over HTTP. This is
  where groups, single flight, the hash ring and the peer protocol meet.
\<close>

subsection \<open>One process\<close>

definition db :: "string \<rightharpoonup> string" where
  "db = [''Tom'' \<mapsto> ''630'', ''Jack'' \<mapsto> ''589'', ''Sam'' \<mapsto> ''567'']"

text \<open>\<open>search\<close> is the effect of \<^verbatim>\<open>log.Println("[SlowDB] search key", key)\<close>.\<close>

definition db_getter :: "(string \<Rightarrow> 'w \<Rightarrow> 'w) \<Rightarrow> 'w getter" where
  "db_getter search = (\<lambda>key w.
     let w' = search key w
     in case db key of
          Some v \<Rightarrow> Some (Inr v, w')
        | None \<Rightarrow> Some (Inl (key @ '' not exist''), w'))"

definition createGroup :: "(string \<Rightarrow> 'w \<Rightarrow> 'w) \<Rightarrow> 'w gee_state \<Rightarrow> string + (nat \<times> 'w gee_state)" where
  "createGroup search st = NewGroup st ''scores'' 2048 (Some (db_getter search))"

text \<open>\<^verbatim>\<open>http.ListenAndServe(addr[7:], peers)\<close> is the last thing the process does; the result is what
  it does it with: the host and port, and the pool. Slicing a short address panics.\<close>

definition startCacheServer ::
  "'w http_client \<Rightarrow> 'w gee_state \<Rightarrow> nat \<Rightarrow> string \<Rightarrow> string list \<Rightarrow>
   string + (string \<times> http_pool \<times> 'w gee_state)" where
  "startCacheServer http_get st gee addr addrs =
     (let peers = HTTPPool_Set (NewHTTPPool addr) addrs
      in case gs_heap st gee of
           None \<Rightarrow> Inl ''invalid memory address or nil pointer dereference''
         | Some g \<Rightarrow>
             (case RegisterPeers g (Some (pool_picker http_get peers)) of
                Inl p \<Rightarrow> Inl p
              | Inr g' \<Rightarrow>
                  if length addr < 7 then Inl ''slice bounds out of range''
                  else Inr (drop 7 addr, peers, st\<lparr>gs_heap := (gs_heap st)(gee \<mapsto> g')\<rparr>)))"

text \<open>The handler of \<^verbatim>\<open>/api\<close>; \<open>query\<close> is the first value of each key of the query string.\<close>

definition startAPIServer_handler ::
  "'w gee_state \<Rightarrow> nat \<Rightarrow> nat \<Rightarrow> (string \<rightharpoonup> string) \<Rightarrow> 'w \<Rightarrow> (http_resp \<times> 'w gee_state \<times> 'w) option" where
  "startAPIServer_handler st gee i query w =
     (let key = (case query ''key'' of None \<Rightarrow> '''' | Some v \<Rightarrow> v)
      in case gs_Get st gee i key w of
           None \<Rightarrow> None
         | Some (st', Inl err, w') \<Rightarrow> Some (http_Error err 500, st', w')
         | Some (st', Inr view, w') \<Rightarrow>
             Some (\<lparr>rs_code = 200, rs_header = [(''Content-Type'', ''text/plain'')],
                    rs_body = bv_ByteSlice view\<rparr>, st', w'))"

definition addrMap :: "int \<rightharpoonup> string" where
  "addrMap = [8001 \<mapsto> ''http://localhost:8001'', 8002 \<mapsto> ''http://localhost:8002'',
              8003 \<mapsto> ''http://localhost:8003'']"

text \<open>\<open>ports\<close> is the order in which \<^verbatim>\<open>range\<close> visits the keys of the map: any order, and not the same
  one in every process. A port that is not in the map has the empty address.\<close>

definition cache_main ::
  "'w http_client \<Rightarrow> (string \<Rightarrow> 'w \<Rightarrow> 'w) \<Rightarrow> int list \<Rightarrow> int \<Rightarrow>
   string + (nat \<times> string \<times> http_pool \<times> 'w gee_state)" where
  "cache_main http_get search ports port =
     (let addrs = map (\<lambda>p. case addrMap p of None \<Rightarrow> '''' | Some v \<Rightarrow> v) ports
      in case createGroup search gs_init of
           Inl p \<Rightarrow> Inl p
         | Inr (gee, st) \<Rightarrow>
             (case startCacheServer http_get st gee (case addrMap port of None \<Rightarrow> '''' | Some v \<Rightarrow> v) addrs of
                Inl p \<Rightarrow> Inl p
              | Inr (host, peers, st') \<Rightarrow> Inr (gee, host, peers, st')))"

subsection \<open>Several processes\<close>

text \<open>What the processes have in common, and the order in which each has the addresses. \<open>cf_src\<close> is the
  data source, which does not change.\<close>

record conf =
  cf_name :: string
  cf_bytes :: int64
  cf_src :: "string \<Rightarrow> string + bytes"
  cf_hosts :: "string list"
  cf_addrs :: "string \<Rightarrow> string list"

text \<open>What changes: the cache and the loader of each node (under its address); who has asked the
  data source for what; and the nodes to which requests of peers were sent, one entry for each request.\<close>

record cnode =
  cn_cache :: cache_st
  cn_loader :: "(string + byteview) sf_group"

record cluster =
  cl_node :: "string \<Rightarrow> cnode"
  cl_log :: "(string \<times> string) list"
  cl_reqs :: "string list"

definition cl_init :: "conf \<Rightarrow> cluster" where
  "cl_init cf = \<lparr>cl_node = (\<lambda>_. \<lparr>cn_cache = cache_new (cf_bytes cf), cn_loader = sf_init\<rparr>), cl_log = [], cl_reqs = []\<rparr>"

definition cl_search :: "string \<Rightarrow> string \<Rightarrow> cluster \<Rightarrow> cluster" where
  "cl_search n key c = c\<lparr>cl_log := cl_log c @ [(n, key)]\<rparr>"

definition cl_asked :: "string \<Rightarrow> cluster \<Rightarrow> cluster" where
  "cl_asked n c = c\<lparr>cl_reqs := cl_reqs c @ [n]\<rparr>"

definition cl_pool :: "conf \<Rightarrow> string \<Rightarrow> http_pool" where
  "cl_pool cf n = HTTPPool_Set (NewHTTPPool n) (cf_addrs cf n)"

text \<open>The group of a node, as \<^const>\<open>startCacheServer\<close> leaves it, with the node's cache and loader.\<close>

definition cl_group :: "conf \<Rightarrow> cluster http_client \<Rightarrow> string \<Rightarrow> cluster \<Rightarrow> cluster group" where
  "cl_group cf http_get n c =
     \<lparr>g_name = cf_name cf, g_getter = (\<lambda>key w. Some (cf_src cf key, cl_search n key w)),
      mainCache = cn_cache (cl_node c n), g_peers = Some (pool_picker http_get (cl_pool cf n)),
      loader = cn_loader (cl_node c n)\<rparr>"

definition cl_store :: "string \<Rightarrow> cluster group \<Rightarrow> cluster \<Rightarrow> cluster" where
  "cl_store n g c = c\<lparr>cl_node := (cl_node c)(n := \<lparr>cn_cache = mainCache g, cn_loader = loader g\<rparr>)\<rparr>"

text \<open>A node answers a request of a peer.\<close>

definition cl_serve :: "conf \<Rightarrow> cluster http_client \<Rightarrow> string \<Rightarrow> cluster http_handler" where
  "cl_serve cf http_get n = (\<lambda>path c.
     case HTTPPool_ServeHTTP (cl_pool cf n)
            \<lparr>gs_groups = [cf_name cf \<mapsto> 0], gs_heap = [0 \<mapsto> cl_group cf http_get n c], gs_next = 1\<rparr> 0 path c of
       None \<Rightarrow> None
     | Some (r, st, c') \<Rightarrow> Some (r, case gs_heap st 0 of None \<Rightarrow> c' | Some g \<Rightarrow> cl_store n g c'))"

text \<open>The network, to a depth: a request whose handling takes more than \<open>d\<close> requests inside one another
  does not return. (The state of a node is not in the world while the node works on a call; it
  would be missed by a request that comes back to the node, and there are none: owners agree.)\<close>

primrec cl_net :: "conf \<Rightarrow> nat \<Rightarrow> string \<rightharpoonup> cluster http_handler" where
  "cl_net cf 0 = (\<lambda>h. if h \<in> set (cf_hosts cf) then Some (\<lambda>_ _. None) else None)"
| "cl_net cf (Suc d) = (\<lambda>h. if h \<in> set (cf_hosts cf)
     then Some (\<lambda>path c. cl_serve cf (http_Get (cl_net cf d)) (''http://'' @ h) path (cl_asked (''http://'' @ h) c)) else None)"

definition cl_Get ::
  "conf \<Rightarrow> nat \<Rightarrow> string \<Rightarrow> nat \<Rightarrow> string \<Rightarrow> cluster \<Rightarrow> ((string + byteview) \<times> cluster) option" where
  "cl_Get cf d n i key c =
     (case Group_Get (cl_group cf (http_Get (cl_net cf d)) n c) i key c of
        None \<Rightarrow> None
      | Some (g, r, c') \<Rightarrow> Some (r, cl_store n g c'))"

text \<open>Calls of \<^verbatim>\<open>Get\<close> at any nodes, by any goroutines, one after the other.\<close>

fun cl_run ::
  "conf \<Rightarrow> nat \<Rightarrow> (string \<times> nat \<times> string) list \<Rightarrow> cluster \<Rightarrow> ((string + byteview) list \<times> cluster) option" where
  "cl_run cf d [] c = Some ([], c)"
| "cl_run cf d ((n, i, key) # calls) c =
     (case cl_Get cf d n i key c of
        None \<Rightarrow> None
      | Some (r, c') \<Rightarrow>
          (case cl_run cf d calls c' of
             None \<Rightarrow> None
           | Some (rs, c'') \<Rightarrow> Some (r # rs, c'')))"

subsection \<open>Who owns a key\<close>

definition cl_addrs :: "conf \<Rightarrow> string list" where
  "cl_addrs cf = map (\<lambda>h. ''http://'' @ h) (cf_hosts cf)"

definition points_apart :: "string list \<Rightarrow> bool" where
  "points_apart ns \<longleftrightarrow> (\<forall>n \<in> set ns. \<forall>n' \<in> set ns. n \<noteq> n' \<longrightarrow>
     node_points crc32_ChecksumIEEE defaultReplicas n \<inter> node_points crc32_ChecksumIEEE defaultReplicas n' = {})"

text \<open>Every node has the addresses of all nodes: all in the same order, or each in an order of its own if no two
  nodes share a point of the ring.\<close>

definition conf_ok :: "conf \<Rightarrow> bool" where
  "conf_ok cf \<longleftrightarrow> cf_hosts cf \<noteq> [] \<and> (\<forall>h \<in> set (cf_hosts cf). CHR ''/'' \<notin> set h) \<and>
     CHR ''/'' \<notin> set (cf_name cf) \<and> CHR '' '' \<notin> set (cf_name cf) \<and> 0 \<le> sint (cf_bytes cf) \<and>
     (\<forall>n \<in> set (cl_addrs cf). set (cf_addrs cf n) = set (cl_addrs cf)) \<and>
     ((\<forall>n \<in> set (cl_addrs cf). cf_addrs cf n = cf_addrs cf (hd (cl_addrs cf))) \<or> points_apart (cl_addrs cf))"

definition cl_owner :: "conf \<Rightarrow> string \<Rightarrow> string" where
  "cl_owner cf key = ch_Get (ch_Add (ch_New defaultReplicas None) (cf_addrs cf (hd (cl_addrs cf)))) key"

lemma cl_owner_agree:
  assumes "conf_ok cf" "n \<in> set (cl_addrs cf)"
  shows "ch_Get (ch_Add (ch_New defaultReplicas None) (cf_addrs cf n)) key = cl_owner cf key"
proof -
  let ?m = "hd (cl_addrs cf)"
  have m: "?m \<in> set (cl_addrs cf)" using assms(2) by (metis empty_iff empty_set hd_in_set)
  with assms have eq: "set (cf_addrs cf n) = set (cl_addrs cf)" "set (cf_addrs cf ?m) = set (cl_addrs cf)"
    by (auto simp: conf_ok_def)
  have "cf_addrs cf n = cf_addrs cf ?m \<or> points_apart (cl_addrs cf)" using assms by (auto simp: conf_ok_def)
  then show ?thesis
    unfolding cl_owner_def
  proof
    assume "points_apart (cl_addrs cf)"
    then show "ch_Get (ch_Add (ch_New defaultReplicas None) (cf_addrs cf n)) key =
        ch_Get (ch_Add (ch_New defaultReplicas None) (cf_addrs cf ?m)) key"
      by (intro ch_Get_order) (use eq in \<open>simp_all add: ch_New_def points_apart_def\<close>)
  qed simp
qed

lemma cl_owner_node:
  assumes "conf_ok cf"
  shows "cl_owner cf key \<in> set (cl_addrs cf)"
proof -
  have "cl_addrs cf \<noteq> []" unfolding cl_addrs_def using assms by (simp add: conf_ok_def)
  then have m: "hd (cl_addrs cf) \<in> set (cl_addrs cf)" by simp
  then have "set (cf_addrs cf (hd (cl_addrs cf))) = set (cl_addrs cf)" using assms by (auto simp: conf_ok_def)
  with m pool_owner [of "cf_addrs cf (hd (cl_addrs cf))" key] show ?thesis
    unfolding cl_owner_def by (metis empty_iff empty_set)
qed

lemma cl_peer_of:
  assumes "conf_ok cf" "n \<in> set (cl_addrs cf)"
  shows "peer_of (cl_group cf http_get n c) key w =
    Some (if cl_owner cf key = n then None else Some (httpGetter_Get http_get (cl_owner cf key @ defaultBasePath)))"
proof -
  have eq: "set (cf_addrs cf n) = set (cl_addrs cf)" using assms by (auto simp: conf_ok_def)
  have "'''' \<notin> set (cl_addrs cf)" unfolding cl_addrs_def by auto
  moreover have "cf_addrs cf n \<noteq> []" using eq assms(2) by (metis empty_iff empty_set)
  ultimately have "cf_addrs cf n \<noteq> []" "'''' \<notin> set (cf_addrs cf n)" using eq by simp_all
  from PickPeer_Set [OF this, of n key] show ?thesis
    by (simp add: peer_of_def cl_group_def pool_picker_def cl_pool_def Let_def cl_owner_agree [OF assms])
qed

subsection \<open>The invariant\<close>

text \<open>Between calls no node has a call in flight, and a node has cached only keys it owns, with the source's
  data. \<open>cl_loads\<close> are the successful loads. All were made by the owner; with caches that have no limit
  each key was loaded at most once, and is still in the owner's cache.\<close>

definition cl_loads :: "conf \<Rightarrow> cluster \<Rightarrow> (string \<times> string) list" where
  "cl_loads cf c = filter (\<lambda>(n, k). \<not> isl (cf_src cf k)) (cl_log c)"

definition cl_lookup :: "cluster \<Rightarrow> string \<Rightarrow> string \<rightharpoonup> byteview" where
  "cl_lookup c n = cache_lookup (cn_cache (cl_node c n))"

definition node_inv :: "conf \<Rightarrow> string \<Rightarrow> cnode \<Rightarrow> bool" where
  "node_inv cf n nd \<longleftrightarrow> cache_ok (cn_cache nd) \<and> cacheBytes (cn_cache nd) = cf_bytes cf \<and>
     sf_m (cn_loader nd) = Map.empty \<and> (\<forall>j. can_call (sf_pc (cn_loader nd) j)) \<and>
     (\<forall>k v. cache_lookup (cn_cache nd) k = Some v \<longrightarrow> cl_owner cf k = n \<and> cf_src cf k = Inr (bv_b v))"

definition loads_inv :: "conf \<Rightarrow> cluster \<Rightarrow> bool" where
  "loads_inv cf c \<longleftrightarrow> (\<forall>(n, k) \<in> set (cl_loads cf c). n = cl_owner cf k) \<and>
     (cf_bytes cf = 0 \<longrightarrow> distinct (map snd (cl_loads cf c)) \<and>
        snd ` set (cl_loads cf c) = {k. cl_lookup c (cl_owner cf k) k \<noteq> None})"

definition cl_inv :: "conf \<Rightarrow> cluster \<Rightarrow> bool" where
  "cl_inv cf c \<longleftrightarrow> (\<forall>n \<in> set (cl_addrs cf). node_inv cf n (cl_node c n)) \<and> loads_inv cf c"

lemma cl_init_inv: "conf_ok cf \<Longrightarrow> cl_inv cf (cl_init cf)"
  by (simp add: cl_inv_def node_inv_def loads_inv_def cl_init_def cl_loads_def cl_lookup_def conf_ok_def sf_init_def)

lemma cl_group_simps [simp]:
  "g_name (cl_group cf http_get n c) = cf_name cf"
  "mainCache (cl_group cf http_get n c) = cn_cache (cl_node c n)"
  "g_getter (cl_group cf http_get n c) key w = Some (cf_src cf key, cl_search n key w)"
  by (simp_all add: cl_group_def)

lemma cl_store_simps [simp]:
  "cl_log (cl_store n g c) = cl_log c" "cl_reqs (cl_store n g c) = cl_reqs c" "cl_loads cf (cl_store n g c) = cl_loads cf c"
  "cl_lookup (cl_store n g c) n' = (if n' = n then cache_lookup (mainCache g) else cl_lookup c n')"
  "cl_node (cl_store n g c) n' = (if n' = n then \<lparr>cn_cache = mainCache g, cn_loader = loader g\<rparr> else cl_node c n')"
  by (simp_all add: cl_store_def cl_loads_def cl_lookup_def)

lemma cl_search_simps [simp]:
  "cl_node (cl_search n key c) = cl_node c" "cl_reqs (cl_search n key c) = cl_reqs c" "cl_lookup (cl_search n key c) = cl_lookup c"
  "cl_loads cf (cl_search n key c) = cl_loads cf c @ (if isl (cf_src cf key) then [] else [(n, key)])"
  by (simp_all add: cl_search_def cl_loads_def cl_lookup_def fun_eq_iff)

lemma cl_asked_simps [simp]:
  "cl_node (cl_asked n c) = cl_node c" "cl_reqs (cl_asked n c) = cl_reqs c @ [n]" "cl_lookup (cl_asked n c) = cl_lookup c"
  "cl_loads cf (cl_asked n c) = cl_loads cf c" "cl_inv cf (cl_asked n c) = cl_inv cf c"
  by (simp_all add: cl_asked_def cl_loads_def cl_lookup_def cl_inv_def loads_inv_def fun_eq_iff)

lemma cl_group_idle:
  assumes "cl_inv cf c" "n \<in> set (cl_addrs cf)"
  shows "group_idle (cl_group cf http_get n c)" "cacheBytes (cn_cache (cl_node c n)) = cf_bytes cf"
    "cl_lookup c n k = Some v \<Longrightarrow> cl_owner cf k = n \<and> cf_src cf k = Inr (bv_b v)"
  using assms by (auto simp: cl_inv_def node_inv_def group_idle_def cl_group_def cl_lookup_def)

text \<open>A node's cache after a call, with entries the node may have.\<close>

lemma node_inv_store:
  assumes "group_idle g" "cacheBytes (mainCache g) = cf_bytes cf"
    and "\<And>k v. cache_lookup (mainCache g) k = Some v \<Longrightarrow> cl_owner cf k = n \<and> cf_src cf k = Inr (bv_b v)"
  shows "node_inv cf n \<lparr>cn_cache = mainCache g, cn_loader = loader g\<rparr>"
  using assms by (auto simp: node_inv_def group_idle_def)

lemma cl_inv_same:
  assumes inv: "cl_inv cf c" and n: "n \<in> set (cl_addrs cf)" and g: "group_idle g" "cacheBytes (mainCache g) = cf_bytes cf"
    and same: "cache_lookup (mainCache g) = cl_lookup c n"
  shows "cl_inv cf (cl_store n g c)"
proof -
  have "node_inv cf n \<lparr>cn_cache = mainCache g, cn_loader = loader g\<rparr>"
    by (rule node_inv_store [OF g]) (use cl_group_idle(3) [OF inv n] same in auto)
  moreover have "loads_inv cf (cl_store n g c)"
  proof -
    have "cl_lookup (cl_store n g c) n' = cl_lookup c n'" for n' using same by auto
    then show ?thesis using inv by (auto simp: cl_inv_def loads_inv_def simp del: cl_store_simps(4))
  qed
  ultimately show ?thesis using inv by (auto simp: cl_inv_def)
qed

lemma cl_inv_failed_search:
  assumes "cl_inv cf c" "isl (cf_src cf key)"
  shows "cl_inv cf (cl_search n key c)"
  using assms by (simp add: cl_inv_def loads_inv_def)

lemma cl_inv_loaded:
  assumes inv: "cl_inv cf c" and n: "n = cl_owner cf key" "n \<in> set (cl_addrs cf)"
    and g: "group_idle g" "cacheBytes (mainCache g) = cf_bytes cf"
    and miss: "cl_lookup c n key = None" and src: "cf_src cf key = Inr d"
    and sub: "cache_lookup (mainCache g) \<subseteq>\<^sub>m (cl_lookup c n)(key \<mapsto> \<lparr>bv_b = d\<rparr>)"
    and all: "cf_bytes cf = 0 \<Longrightarrow> cache_lookup (mainCache g) = (cl_lookup c n)(key \<mapsto> \<lparr>bv_b = d\<rparr>)"
  shows "cl_inv cf (cl_store n g (cl_search n key c))"
proof -
  have "node_inv cf n \<lparr>cn_cache = mainCache g, cn_loader = loader g\<rparr>"
  proof (rule node_inv_store [OF g])
    fix k v assume "cache_lookup (mainCache g) k = Some v"
    with sub have "((cl_lookup c n)(key \<mapsto> \<lparr>bv_b = d\<rparr>)) k = Some v" by (metis domI map_le_def)
    then show "cl_owner cf k = n \<and> cf_src cf k = Inr (bv_b v)"
      using cl_group_idle(3) [OF inv n(2), of k v] n(1) src by (auto split: if_splits)
  qed
  moreover have "loads_inv cf (cl_store n g (cl_search n key c))"
  proof -
    have l: "loads_inv cf c" using inv by (simp add: cl_inv_def)
    have "key \<notin> snd ` set (cl_loads cf c)" if "cf_bytes cf = 0" using l that miss n(1) by (auto simp: loads_inv_def)
    then show ?thesis using l all src n(1) by (auto simp: loads_inv_def)
  qed
  ultimately show ?thesis using inv by (auto simp: cl_inv_def)
qed

subsection \<open>A call of \<^verbatim>\<open>Get\<close>\<close>

definition wanted :: "conf \<Rightarrow> string \<Rightarrow> bool" where
  "wanted cf key \<longleftrightarrow> key \<noteq> '''' \<and> \<not> isl (cf_src cf key)"

text \<open>The requests to peers that a call of \<^verbatim>\<open>Get\<close> at a node should make.\<close>

definition forwarded :: "conf \<Rightarrow> string \<Rightarrow> string \<Rightarrow> string list" where
  "forwarded cf n key = (if key = '''' \<or> n = cl_owner cf key then [] else [cl_owner cf key])"

definition cl_moves :: "conf \<Rightarrow> string \<Rightarrow> string list \<Rightarrow> cluster \<Rightarrow> cluster \<Rightarrow> bool" where
  "cl_moves cf key rs c c' \<longleftrightarrow> cl_inv cf c' \<and> cl_reqs c' = cl_reqs c @ rs \<and>
     (cf_bytes cf = 0 \<longrightarrow> snd ` set (cl_loads cf c') = snd ` set (cl_loads cf c) \<union> {k. k = key \<and> wanted cf k})"

lemma cached_loaded:
  assumes "cl_inv cf c" "cf_bytes cf = 0" "cl_lookup c (cl_owner cf key) key = Some v"
  shows "key \<in> snd ` set (cl_loads cf c)"
  using assms by (auto simp: cl_inv_def loads_inv_def)

text \<open>A miss at a node, with the cache that \<open>cache_get\<close> leaves.\<close>

definition cl_touched :: "cluster \<Rightarrow> string \<Rightarrow> string \<Rightarrow> cache_st" where
  "cl_touched c n key = fst (cache_get (cn_cache (cl_node c n)) key)"

lemma cl_touched_facts:
  assumes "cl_inv cf c" "n \<in> set (cl_addrs cf)"
  shows "cache_ok (cl_touched c n key)" "cache_lookup (cl_touched c n key) = cl_lookup c n"
    "cacheBytes (cl_touched c n key) = cf_bytes cf"
  using assms by (auto simp: cl_touched_def cl_inv_def node_inv_def gc.get_inv gc.get_lookup cl_lookup_def)

lemma cl_miss:
  assumes inv: "cl_inv cf c" "n \<in> set (cl_addrs cf)" and "key \<noteq> ''''" "cl_lookup c n key = None"
    and "Group_load_fn (cl_group cf http_get n c) key (cl_touched c n key, c) = Some (r, l, c')"
    and "cache_ok l" "cacheBytes l = cf_bytes cf"
  shows "\<exists>g. Group_Get (cl_group cf http_get n c) i key c = Some (g, r, c') \<and> group_idle g \<and> mainCache g = l"
  using Group_Get_miss [of "cl_group cf http_get n c" key c r l c' i] assms(3-7) cl_group_idle(1,2) [OF inv]
  by (auto simp: cl_touched_def cl_lookup_def)

text \<open>Where the owner answers: from its cache, or from the data source.\<close>

lemma owner_Get:
  assumes ok: "conf_ok cf" and inv: "cl_inv cf c" and n: "n = cl_owner cf key"
  shows "\<exists>g c'. Group_Get (cl_group cf http_get n c) i key c = Some (g, answer (cf_src cf) key, c') \<and>
    cl_node c' = cl_node c \<and> cl_moves cf key [] c (cl_store n g c')"
proof -
  let ?g = "cl_group cf http_get n c" and ?c = "cl_touched c n key"
  have nn: "n \<in> set (cl_addrs cf)" using cl_owner_node [OF ok] n by simp
  note idle = cl_group_idle(1) [OF inv nn, of http_get] and bytes = cl_group_idle(2) [OF inv nn]
  have ask: "asks_getter ?g key c c" using cl_peer_of [OF ok nn] n by (simp add: asks_getter_def)
  note c1 = cl_touched_facts [OF inv nn, of key]
  consider "key = ''''" | v where "key \<noteq> ''''" "cl_lookup c n key = Some v"
    | (err) e where "key \<noteq> ''''" "cl_lookup c n key = None" "cf_src cf key = Inl e"
    | (ok) d where "key \<noteq> ''''" "cl_lookup c n key = None" "cf_src cf key = Inr d"
    by (metis option.exhaust sum.exhaust)
  then show ?thesis
  proof cases
    case 1
    then show ?thesis using cl_inv_same [OF inv nn idle] bytes
      by (auto simp: Group_Get_def answer_def cl_moves_def wanted_def cl_lookup_def)
  next
    case 2
    then have "cf_src cf key = Inr (bv_b v)" using cl_group_idle(3) [OF inv nn] by blast
    moreover obtain g where "Group_Get ?g i key c = Some (g, Inr v, c)" "group_idle g" "same_setup ?g g"
        "cache_lookup (mainCache g) = cl_lookup c n"
      using Group_Get_hit [OF idle 2(1), of v i c] 2(2) by (auto simp: cl_lookup_def)
    moreover have "cl_inv cf (cl_store n g c)"
      by (rule cl_inv_same [OF inv nn]) (use calculation bytes in \<open>simp_all add: same_setup_def\<close>)
    ultimately show ?thesis using 2 cached_loaded [OF inv, of key v] n by (auto simp: answer_def cl_moves_def)
  next
    case err
    then have "Group_load_fn ?g key (?c, c) = Some (Inl e, ?c, cl_search n key c)"
      by (simp add: load_fn_getter [OF ask] getLocally_err)
    from cl_miss [OF inv nn err(1,2) this c1(1,3)]
    obtain g where g: "Group_Get ?g i key c = Some (g, Inl e, cl_search n key c)" "group_idle g" "mainCache g = ?c"
      by blast
    have "cl_inv cf (cl_store n g (cl_search n key c))"
      by (rule cl_inv_same [OF cl_inv_failed_search [OF inv] nn g(2)]) (use err c1 g(3) in simp_all)
    then show ?thesis using g(1) err by (auto simp: answer_def cl_moves_def wanted_def)
  next
    case ok
    with getLocally_ok [OF _ c1(1), of ?g key c d] obtain c' where
      c': "Group_load_fn ?g key (?c, c) = Some (Inr \<lparr>bv_b = d\<rparr>, c', cl_search n key c)"
        "cache_add ?c key \<lparr>bv_b = d\<rparr> = Some c'" "cache_ok c'" "cacheBytes c' = cf_bytes cf"
      using c1(3) by (auto simp: load_fn_getter [OF ask])
    from cl_miss [OF inv nn ok(1,2) c'(1,3,4)]
    obtain g where g: "Group_Get ?g i key c = Some (g, Inr \<lparr>bv_b = d\<rparr>, cl_search n key c)" "group_idle g"
      "mainCache g = c'" by blast
    have sub: "cache_lookup c' \<subseteq>\<^sub>m (cl_lookup c n)(key \<mapsto> \<lparr>bv_b = d\<rparr>)"
      unfolding map_le_def using cache_add_lookup [OF c1(1) c'(2)] c1(2) by (metis domD)
    have "cl_inv cf (cl_store n g (cl_search n key c))"
      by (rule cl_inv_loaded [OF inv n nn g(2) _ ok(2,3)])
        (use sub g(3) c'(4) cache_add_unlimited [OF c1(1) _ c'(2)] c1 in simp_all)
    then show ?thesis using g(1) ok by (auto simp: answer_def cl_moves_def wanted_def)
  qed
qed

text \<open>A request of a peer at the owner, and the getter of a peer for a key of another node.\<close>

lemma owner_serves:
  assumes ok: "conf_ok cf" and inv: "cl_inv cf c" and n: "n = cl_owner cf key"
  shows "\<exists>c'. cl_serve cf http_get n (defaultBasePath @ cf_name cf @ ''/'' @ key) c =
      Some (Inr (case answer (cf_src cf) key of
        Inl err \<Rightarrow> http_Error err 500
      | Inr v \<Rightarrow> \<lparr>rs_code = 200, rs_header = [(''Content-Type'', ''application/octet-stream'')], rs_body = bv_b v\<rparr>), c') \<and>
    cl_moves cf key [] c c' \<and> (\<forall>m. m \<noteq> n \<longrightarrow> cl_node c' m = cl_node c m)"
proof -
  have name: "CHR ''/'' \<notin> set (cf_name cf)" and base: "basePath (cl_pool cf n) = defaultBasePath"
    using ok by (simp_all add: conf_ok_def cl_pool_def)
  obtain g c' where g: "Group_Get (cl_group cf http_get n c) 0 key c = Some (g, answer (cf_src cf) key, c')"
    "cl_node c' = cl_node c" "cl_moves cf key [] c (cl_store n g c')"
    using owner_Get [OF ok inv n, of http_get 0] by blast
  then show ?thesis
    unfolding cl_serve_def ServeHTTP_path [OF name, of "cl_pool cf n", unfolded base]
    by (intro exI [of _ "cl_store n g c'"])
      (cases "answer (cf_src cf) key"; simp add: GetGroup_def gs_Get_def)
qed

lemma peer_fetches:
  assumes ok: "conf_ok cf" and inv: "cl_inv cf c" and key: "key \<noteq> ''''" "CHR '' '' \<notin> set key"
  shows "\<exists>r c'. httpGetter_Get (http_Get (cl_net cf (Suc d))) (cl_owner cf key @ defaultBasePath) (cf_name cf) key c =
      Some (r, c') \<and> (case cf_src cf key of Inl _ \<Rightarrow> isl r | Inr bs \<Rightarrow> r = Inr bs) \<and> cl_moves cf key [cl_owner cf key] c c' \<and>
    (\<forall>m. m \<noteq> cl_owner cf key \<longrightarrow> cl_node c' m = cl_node c m)"
proof -
  obtain h where h: "h \<in> set (cf_hosts cf)" "cl_owner cf key = ''http://'' @ h"
    using cl_owner_node [OF ok, of key] unfolding cl_addrs_def by auto
  let ?s = "cl_serve cf (http_Get (cl_net cf d)) (''http://'' @ h)" let ?h = "\<lambda>path c. ?s path (cl_asked (''http://'' @ h) c)"
  have net: "CHR ''/'' \<notin> set h" "cl_net cf (Suc d) h = Some ?h" using h(1) ok by (auto simp: conf_ok_def)
  have plus: "plus_for_space (cf_name cf) = cf_name cf" "plus_for_space key = key"
    using ok key(2) by (simp_all add: conf_ok_def plus_for_space_id)
  obtain c' where c': "?h (defaultBasePath @ cf_name cf @ ''/'' @ key) c =
      Some (Inr (case answer (cf_src cf) key of
        Inl err \<Rightarrow> http_Error err 500
      | Inr v \<Rightarrow> \<lparr>rs_code = 200, rs_header = [(''Content-Type'', ''application/octet-stream'')], rs_body = bv_b v\<rparr>), c')"
    "cl_moves cf key [cl_owner cf key] c c'" "\<forall>m. m \<noteq> cl_owner cf key \<longrightarrow> cl_node c' m = cl_node c m"
    using owner_serves [OF ok _ h(2) [symmetric], of "cl_asked (cl_owner cf key) c" "http_Get (cl_net cf d)"] inv h(2)
    by (auto simp: cl_moves_def)
  note r = httpGetter_response [of h "cl_net cf (Suc d)" ?h "cf_name cf" key c, OF net, unfolded plus, OF c'(1)]
  show ?thesis
    unfolding h(2) r using c'(2,3) h(2) key(1) by (cases "cf_src cf key") (auto simp: answer_def http_Error_def)
qed

text \<open>A node that does not own the key has not cached it, asks the owner, and falls back to the data source when
  the owner reports an error.\<close>

lemma other_Get:
  assumes ok: "conf_ok cf" and inv: "cl_inv cf c" and n: "n \<in> set (cl_addrs cf)" "n \<noteq> cl_owner cf key"
    and key: "key \<noteq> ''''" "CHR '' '' \<notin> set key"
  shows "\<exists>g c'. Group_Get (cl_group cf (http_Get (cl_net cf (Suc d))) n c) i key c =
      Some (g, answer (cf_src cf) key, c') \<and> cl_moves cf key [cl_owner cf key] c (cl_store n g c')"
proof -
  let ?http = "http_Get (cl_net cf (Suc d))" let ?g = "cl_group cf ?http n c" and ?c = "cl_touched c n key"
  let ?p = "httpGetter_Get ?http (cl_owner cf key @ defaultBasePath)"
  have miss: "cl_lookup c n key = None" using cl_group_idle(3) [OF inv n(1), of key] n(2) by (metis option.exhaust)
  have peer: "peer_of ?g key c = Some (Some ?p)" using cl_peer_of [OF ok n(1)] n(2) by auto
  obtain r c1 where r: "?p (cf_name cf) key c = Some (r, c1)" "case cf_src cf key of Inl _ \<Rightarrow> isl r | Inr bs \<Rightarrow> r = Inr bs"
      "cl_moves cf key [cl_owner cf key] c c1" "cl_node c1 n = cl_node c n"
    using peer_fetches [OF ok inv key, of d] n(2) by auto
  note t = cl_touched_facts [OF inv n(1), of key]
  have same: "cache_lookup ?c = cl_lookup c1 n" using t(2) r(4) by (simp add: cl_lookup_def)
  have inv1: "cl_inv cf c1" using r(3) by (simp add: cl_moves_def)
  show ?thesis
  proof (cases "cf_src cf key")
    case (Inr bs)
    then have "Group_load_fn ?g key (?c, c) = Some (Inr \<lparr>bv_b = bs\<rparr>, ?c, c1)"
      using load_fn_peer [OF peer, of bs c1] r(1,2) by simp
    from cl_miss [OF inv n(1) key(1) miss this t(1,3)] obtain g where
      g: "Group_Get ?g i key c = Some (g, Inr \<lparr>bv_b = bs\<rparr>, c1)" "group_idle g" "mainCache g = ?c" by blast
    have "cl_inv cf (cl_store n g c1)"
      by (rule cl_inv_same [OF inv1 n(1) g(2)]) (use g(3) t(3) same in simp_all)
    then show ?thesis using g(1) r(3) key(1) Inr by (auto simp: answer_def cl_moves_def)
  next
    case (Inl e)
    then obtain e' where "r = Inl e'" using r(2) by (auto simp: isl_def)
    then have "asks_getter ?g key c c1" using peer r(1) by (simp add: asks_getter_def)
    then have "Group_load_fn ?g key (?c, c) = Some (Inl e, ?c, cl_search n key c1)"
      using Inl by (simp add: load_fn_getter getLocally_err)
    from cl_miss [OF inv n(1) key(1) miss this t(1,3)] obtain g where
      g: "Group_Get ?g i key c = Some (g, Inl e, cl_search n key c1)" "group_idle g" "mainCache g = ?c" by blast
    have "cl_inv cf (cl_store n g (cl_search n key c1))"
      by (rule cl_inv_same [OF cl_inv_failed_search [OF inv1] n(1) g(2)]) (use g(3) t(3) same Inl in simp_all)
    then show ?thesis using g(1) r(3) key(1) Inl by (auto simp: answer_def cl_moves_def)
  qed
qed

lemma cl_Get_moves:
  assumes ok: "conf_ok cf" and inv: "cl_inv cf c" and n: "n \<in> set (cl_addrs cf)" and key: "CHR '' '' \<notin> set key"
  shows "\<exists>c'. cl_Get cf (Suc d) n i key c = Some (answer (cf_src cf) key, c') \<and> cl_moves cf key (forwarded cf n key) c c'"
proof -
  let ?g = "cl_group cf (http_Get (cl_net cf (Suc d))) n c"
  consider "key = ''''" | "n = cl_owner cf key" | "key \<noteq> ''''" "n \<noteq> cl_owner cf key" by blast
  then have "\<exists>g c'. Group_Get ?g i key c = Some (g, answer (cf_src cf) key, c') \<and>
      cl_moves cf key (forwarded cf n key) c (cl_store n g c')"
  proof cases
    case 1
    then show ?thesis using cl_inv_same [OF inv n cl_group_idle(1) [OF inv n]] cl_group_idle(2) [OF inv n]
      by (auto simp: Group_Get_def answer_def cl_moves_def wanted_def cl_lookup_def forwarded_def)
  next
    case 2
    have "forwarded cf n key = []" using 2 by (simp add: forwarded_def)
    then show ?thesis using owner_Get [OF ok inv 2, of "http_Get (cl_net cf (Suc d))" i] by metis
  next
    case 3
    then show ?thesis using other_Get [OF ok inv n _ _ key] by (simp add: forwarded_def)
  qed
  then show ?thesis by (auto simp: cl_Get_def)
qed

lemma cl_run_serves:
  assumes ok: "conf_ok cf" and inv: "cl_inv cf c"
    and calls: "list_all (\<lambda>(n, i, key). n \<in> set (cl_addrs cf) \<and> CHR '' '' \<notin> set key) calls"
  shows "\<exists>c'. cl_run cf (Suc d) calls c = Some (map (\<lambda>(n, i, key). answer (cf_src cf) key) calls, c') \<and> cl_inv cf c' \<and>
    cl_reqs c' = cl_reqs c @ concat (map (\<lambda>(n, i, key). forwarded cf n key) calls) \<and>
    (cf_bytes cf = 0 \<longrightarrow> snd ` set (cl_loads cf c') =
       snd ` set (cl_loads cf c) \<union> {key. \<exists>n i. (n, i, key) \<in> set calls \<and> wanted cf key})"
  using inv calls
proof (induction calls arbitrary: c)
  case (Cons call calls)
  obtain n i key where call: "call = (n, i, key)" by (cases call)
  with Cons.prems obtain c1 where c1: "cl_Get cf (Suc d) n i key c = Some (answer (cf_src cf) key, c1)" "cl_moves cf key (forwarded cf n key) c c1"
    using cl_Get_moves [OF ok Cons.prems(1), of n key d i] by auto
  then have "cl_inv cf c1" by (simp add: cl_moves_def)
  from Cons.IH [OF this] Cons.prems(2) obtain c2 where
    c2: "cl_run cf (Suc d) calls c1 = Some (map (\<lambda>(n, i, key). answer (cf_src cf) key) calls, c2)" "cl_inv cf c2"
      "cl_reqs c2 = cl_reqs c1 @ concat (map (\<lambda>(n, i, key). forwarded cf n key) calls)"
      "cf_bytes cf = 0 \<longrightarrow> snd ` set (cl_loads cf c2) =
        snd ` set (cl_loads cf c1) \<union> {key. \<exists>n i. (n, i, key) \<in> set calls \<and> wanted cf key}" by auto
  have "snd ` set (cl_loads cf c2) =
      snd ` set (cl_loads cf c) \<union> {k. \<exists>n i. (n, i, k) \<in> set (call # calls) \<and> wanted cf k}" if "cf_bytes cf = 0"
    using c1(2) c2(4) that by (auto simp: cl_moves_def call)
  moreover have "cl_reqs c2 = cl_reqs c @ concat (map (\<lambda>(n, i, key). forwarded cf n key) (call # calls))"
    using c1(2) c2(3) by (simp add: cl_moves_def call)
  ultimately show ?case using c1(1) c2(1,2) by (simp add: call)
qed simp

subsection \<open>Properties\<close>

text \<open>C14: a cluster serves its data source. Calls of \<^verbatim>\<open>Get\<close>, one after the other at any nodes, for keys without a space,
  return with the source's answer for the key, at any node. The requests that go between the nodes are exactly one for
  each call with a key that is not empty at a node that does not own the key, and it goes to the owner. Data
  that the source has is loaded only by the node that owns the key, and when the caches have no limit
  the whole cluster loads each such key that is asked for exactly once. (A key that the source does not have may be looked for
  by the owner and then again by the node that was asked. A key with a space reaches the owner as another key, see
  \<open>httpGetter_space_as_plus\<close>.)\<close>

theorem cluster_serves_source:
  assumes "conf_ok cf" and "list_all (\<lambda>(n, i, key). n \<in> set (cl_addrs cf) \<and> CHR '' '' \<notin> set key) calls"
  shows "\<exists>c. cl_run cf (Suc d) calls (cl_init cf) = Some (map (\<lambda>(n, i, key). answer (cf_src cf) key) calls, c) \<and>
    cl_reqs c = concat (map (\<lambda>(n, i, key). if key = '''' \<or> n = cl_owner cf key then [] else [cl_owner cf key]) calls) \<and>
    (\<forall>(n, key) \<in> set (cl_log c). \<not> isl (cf_src cf key) \<longrightarrow> n = cl_owner cf key) \<and>
    (cf_bytes cf = 0 \<longrightarrow> distinct (map snd (cl_loads cf c)) \<and>
       snd ` set (cl_loads cf c) = {key. \<exists>n i. (n, i, key) \<in> set calls \<and> key \<noteq> '''' \<and> \<not> isl (cf_src cf key)})"
proof -
  obtain c where c: "cl_run cf (Suc d) calls (cl_init cf) = Some (map (\<lambda>(n, i, key). answer (cf_src cf) key) calls, c)"
    "cl_inv cf c" "cl_reqs c = cl_reqs (cl_init cf) @ concat (map (\<lambda>(n, i, key). forwarded cf n key) calls)" "cf_bytes cf = 0 \<longrightarrow> snd ` set (cl_loads cf c) =
       snd ` set (cl_loads cf (cl_init cf)) \<union> {key. \<exists>n i. (n, i, key) \<in> set calls \<and> wanted cf key}"
    using cl_run_serves [OF assms(1) cl_init_inv [OF assms(1)] assms(2), of d] by blast
  have "cl_loads cf (cl_init cf) = []" "cl_reqs (cl_init cf) = []" by (simp_all add: cl_loads_def cl_init_def)
  moreover have "n = cl_owner cf key" if "(n, key) \<in> set (cl_log c)" "\<not> isl (cf_src cf key)" for n key
    using c(2) that by (auto simp: cl_inv_def loads_inv_def cl_loads_def)
  ultimately show ?thesis using c by (auto simp: wanted_def cl_inv_def loads_inv_def forwarded_def)
qed

text \<open>Two nodes that have the addresses in the same order, over a source that knows every key but one.\<close>

definition two_nodes :: conf where
  "two_nodes = \<lparr>cf_name = ''g'', cf_bytes = 0, cf_src = (\<lambda>k. if k = ''x'' then Inl ''no x'' else Inr k),
     cf_hosts = [''a'', ''b''], cf_addrs = (\<lambda>_. [''http://a'', ''http://b''])\<rparr>"

theorem cluster_serves_source_witness:
  "\<exists>c. cl_run two_nodes 1 [(''http://a'', 0, ''k''), (''http://b'', 0, ''k''), (''http://a'', 0, ''x'')] (cl_init two_nodes) =
      Some ([Inr \<lparr>bv_b = ''k''\<rparr>, Inr \<lparr>bv_b = ''k''\<rparr>, Inl ''no x''], c) \<and> cl_loads two_nodes c = [(cl_owner two_nodes ''k'', ''k'')]"
proof -
  have ok: "conf_ok two_nodes" by (simp add: conf_ok_def two_nodes_def cl_addrs_def)
  let ?calls = "[(''http://a'', 0 :: nat, ''k''), (''http://b'', 0, ''k''), (''http://a'', 0, ''x'')]"
  have calls: "list_all (\<lambda>(n, i, key). n \<in> set (cl_addrs two_nodes) \<and> CHR '' '' \<notin> set key) ?calls"
    by (simp add: two_nodes_def cl_addrs_def)
  have eval: "map (\<lambda>(n, i, key). answer (cf_src two_nodes) key) ?calls = [Inr \<lparr>bv_b = ''k''\<rparr>, Inr \<lparr>bv_b = ''k''\<rparr>, Inl ''no x'']"
    "{key. \<exists>n i. (n, i, key) \<in> set ?calls \<and> key \<noteq> '''' \<and> \<not> isl (cf_src two_nodes key)} = {''k''}"
    "cf_bytes two_nodes = 0" by (auto simp: two_nodes_def answer_def)
  from cluster_serves_source [OF ok calls, of 0, unfolded eval] obtain c where
    c: "cl_run two_nodes (Suc 0) ?calls (cl_init two_nodes) = Some ([Inr \<lparr>bv_b = ''k''\<rparr>, Inr \<lparr>bv_b = ''k''\<rparr>, Inl ''no x''], c)"
    "\<forall>(n, key) \<in> set (cl_log c). \<not> isl (cf_src two_nodes key) \<longrightarrow> n = cl_owner two_nodes key"
    "distinct (map snd (cl_loads two_nodes c)) \<and> snd ` set (cl_loads two_nodes c) = {''k''}"
    by (elim exE conjE impE [OF _ refl]) (rule that; (assumption | rule conjI)+)
  have "map snd (cl_loads two_nodes c) = [''k'']"
    using c(3) by (cases "map snd (cl_loads two_nodes c)" rule: remdups_adj.cases) (auto simp flip: set_map)
  then obtain n where n: "cl_loads two_nodes c = [(n, ''k'')]" by auto
  then have "(n, ''k'') \<in> set (cl_log c)" "\<not> isl (cf_src two_nodes ''k'')"
    using filter_set [of "\<lambda>(n, k). \<not> isl (cf_src two_nodes k)" "cl_log c"] by (auto simp: cl_loads_def)
  then have "n = cl_owner two_nodes ''k''" using c(2) by fastforce
  moreover note n
  ultimately show ?thesis using c(1) by (intro exI [of _ c]) (simp del: cl_run.simps)
qed

end
