(* ===== verification/Cache_Demo.thy ===== *)
theory Cache_Demo
  imports Cluster
begin

section \<open>The demonstration cluster of \<^verbatim>\<open>cache/main/main.go\<close>\<close>

text \<open>
  The three processes of the demonstration, on the ports 8001 to 8003. The program collects the addresses by
  ranging over a map, so every process has them in an order of its own. That is harmless if no two
  of the 150 points of the ring coincide, which is checked here by evaluating the checksums.
\<close>

unbundle bit_operations_syntax

subsection \<open>Evaluating \<^verbatim>\<open>crc32.ChecksumIEEE\<close>\<close>

text \<open>The checksum on integers, where a shift is a rewrite step on a numeral.\<close>

definition crc_shift :: "int \<Rightarrow> int" where
  "crc_shift n = (if odd n then (n div 2) XOR 0xEDB88320 else n div 2)"

definition crc_byte :: "int \<Rightarrow> int \<Rightarrow> int" where
  "crc_byte c b =
     crc_shift (crc_shift (crc_shift (crc_shift (crc_shift (crc_shift (crc_shift (crc_shift (c XOR b))))))))"

lemma crc_shift_numeral [simp]:
  "crc_shift (numeral (Num.Bit0 n)) = numeral n" "crc_shift (numeral (Num.Bit1 n)) = numeral n XOR 0xEDB88320"
  "crc_shift 0 = 0" "crc_shift 1 = 0xEDB88320"
  by (simp_all add: crc_shift_def)

lemma uint_crc32_shift: "uint (crc32_shift c) = crc_shift (uint c)"
proof -
  have "bit c 0 \<longleftrightarrow> odd (uint c)" using bit_uint_iff [of c 0] by (simp add: bit_0)
  moreover have "uint (drop_bit 1 c) = uint c div 2"
    by (simp only: unsigned_drop_bit_eq) (simp add: drop_bit_eq_div bintr_uint)
  ultimately show ?thesis by (simp add: crc32_shift_def crc_shift_def unsigned_xor_eq)
qed

lemma uint_of_char: "uint (of_char b :: uint32) = of_char b"
proof -
  have "(of_char b :: nat) < 2 ^ LENGTH(32)" by (rule less_trans [OF nat_of_char_less_256]) simp
  then have "uint (of_nat (of_char b) :: uint32) = of_nat (of_char b)"
    by (simp only: unsigned_of_nat take_bit_nat_eq_self)
  then show ?thesis by (simp only: of_nat_of_char)
qed

lemma of_char_of_nat: "(of_char (char_of (n :: nat)) :: int) = of_nat (n mod 256)"
  by (metis of_char_of of_nat_of_char)

lemma uint_crc32_byte: "uint (crc32_byte c b) = crc_byte (uint c) (of_char b)"
  by (simp add: crc32_byte_def crc_byte_def uint_crc32_shift unsigned_xor_eq numeral_eq_Suc uint_of_char)

lemma uint_crc32_fold: "uint (foldl crc32_byte c s) = foldl (\<lambda>c b. crc_byte c (of_char b)) (uint c) s"
  by (induction s arbitrary: c) (simp_all add: uint_crc32_byte)

text \<open>The states after the prefixes \<^verbatim>\<open>0\<close> to \<^verbatim>\<open>49\<close> of the replicas and all but the last character of an address.\<close>

definition ring_states :: "int list" where
  "ring_states = [
    2506272047, 179842737, 1906748498, 4001116108, 2275125652, 406923786, 1667213545, 4236585847,
    2962269273, 793388999, 1242522886, 3587565208, 2932565115, 823257061, 1492541885, 3341607459,
    3157418176, 602465118, 1878879344, 4029149166, 1937229894, 3970780120, 2545142075, 141118117,
    1636748541, 4266938211, 2236272000, 445664798, 1451606320, 3378463406, 1683991686, 4219809560,
    2157686267, 524365413, 1990633533, 3917228963, 2455939392, 230173406, 1101899248, 3732350574, 25596614,
    2656833880, 3846345659, 2056785957, 327128701, 2359629283, 4156266240, 1751192734, 611621808, 3148748846
   ]"

definition ring_state :: "nat \<Rightarrow> int" where
  "ring_state i = foldl (\<lambda>c b. crc_byte c (of_char b)) 0xFFFFFFFF (strconv_Itoa i @ ''http://localhost:800'')"

lemma upt_50: "[0..<50] = [0, 1, 2, 3, 4, 5, 6, 7, 8, 9, 10, 11, 12, 13, 14, 15, 16, 17, 18, 19, 20, 21, 22, 23, 24,
    25, 26, 27, 28, 29, 30, 31, 32, 33, 34, 35, 36, 37, 38, 39, 40, 41, 42, 43, 44, 45, 46, 47, 48, 49]"
  by code_simp

lemma ring_states_eval: "map ring_state [0..<50] = ring_states"
  unfolding upt_50 ring_states_def list.map
  by (simp add: ring_state_def crc_byte_def strconv_Itoa.simps of_char_of_nat)

text \<open>The last character tells the three addresses apart.\<close>

lemma ring_points_apart:
  "set (map (\<lambda>s. crc_byte s 49) ring_states) \<inter> set (map (\<lambda>s. crc_byte s 50) ring_states) = {}"
  "set (map (\<lambda>s. crc_byte s 49) ring_states) \<inter> set (map (\<lambda>s. crc_byte s 51) ring_states) = {}"
  "set (map (\<lambda>s. crc_byte s 50) ring_states) \<inter> set (map (\<lambda>s. crc_byte s 51) ring_states) = {}"
  unfolding ring_states_def list.map by (simp_all add: crc_byte_def)

lemma crc32_state:
  assumes "crc32_ChecksumIEEE (strconv_Itoa i @ ''http://localhost:800'' @ [b]) =
    crc32_ChecksumIEEE (strconv_Itoa j @ ''http://localhost:800'' @ [b'])"
  shows "crc_byte (ring_state i) (of_char b) = crc_byte (ring_state j) (of_char b')"
proof -
  have s: "uint (foldl crc32_byte 0xFFFFFFFF (strconv_Itoa i @ ''http://localhost:800'' @ [b])) =
      crc_byte (ring_state i) (of_char b)" for i b
    unfolding uint_crc32_fold ring_state_def by simp
  have "foldl crc32_byte 0xFFFFFFFF (strconv_Itoa i @ ''http://localhost:800'' @ [b]) =
      foldl crc32_byte 0xFFFFFFFF (strconv_Itoa j @ ''http://localhost:800'' @ [b'])"
    using assms unfolding crc32_ChecksumIEEE_def by (simp only: bit.compl_eq_compl_iff)
  then show ?thesis using s by metis
qed

lemma node_points_apart:
  assumes "b \<noteq> b'" "b \<in> {CHR ''1'', CHR ''2'', CHR ''3''}" "b' \<in> {CHR ''1'', CHR ''2'', CHR ''3''}"
  shows "node_points crc32_ChecksumIEEE defaultReplicas (''http://localhost:800'' @ [b]) \<inter>
    node_points crc32_ChecksumIEEE defaultReplicas (''http://localhost:800'' @ [b']) = {}"
proof -
  have mem: "crc_byte (ring_state i) x \<in> set (map (\<lambda>s. crc_byte s x) ring_states)" if "i < 50" for i x
    unfolding ring_states_eval [symmetric] using that by auto
  have apart: "set (map (\<lambda>s. crc_byte s (of_char b)) ring_states) \<inter> set (map (\<lambda>s. crc_byte s (of_char b')) ring_states) = {}"
    using assms ring_points_apart unfolding insert_iff by (elim disjE) (simp_all add: Int_commute)
  have False if "i < 50" "j < 50" "uint (crc32_ChecksumIEEE (strconv_Itoa i @ ''http://localhost:800'' @ [b])) =
      uint (crc32_ChecksumIEEE (strconv_Itoa j @ ''http://localhost:800'' @ [b']))" for i j
  proof -
    have "crc_byte (ring_state i) (of_char b) = crc_byte (ring_state j) (of_char b')"
      by (rule crc32_state [OF unsigned_word_eqI [OF that(3)]])
    then show False using mem [OF that(1), of "of_char b"] mem [OF that(2), of "of_char b'"] apart by auto
  qed
  then show ?thesis unfolding node_points_def defaultReplicas_def disjoint_iff by auto
qed

subsection \<open>The three processes\<close>

definition demo_ports :: "int set" where "demo_ports = {8001, 8002, 8003}"

text \<open>\<open>ports n\<close> is the order in which the process at the address \<open>n\<close> has visited the map.\<close>

definition demo_conf :: "(string \<Rightarrow> int list) \<Rightarrow> conf" where
  "demo_conf ports =
     \<lparr>cf_name = ''scores'', cf_bytes = 2048,
      cf_src = (\<lambda>key. case db key of Some v \<Rightarrow> Inr v | None \<Rightarrow> Inl (key @ '' not exist'')),
      cf_hosts = [''localhost:8001'', ''localhost:8002'', ''localhost:8003''],
      cf_addrs = (\<lambda>n. map (\<lambda>p. case addrMap p of None \<Rightarrow> '''' | Some v \<Rightarrow> v) (ports n))\<rparr>"

definition demo_addrs :: "string set" where
  "demo_addrs = {''http://localhost:8001'', ''http://localhost:8002'', ''http://localhost:8003''}"

lemma demo_conf_fields:
  "cf_name (demo_conf ports) = ''scores''" "cf_bytes (demo_conf ports) = 2048"
  "cf_src (demo_conf ports) key = (case db key of Some v \<Rightarrow> Inr v | None \<Rightarrow> Inl (key @ '' not exist''))"
  "set (cl_addrs (demo_conf ports)) = demo_addrs"
  by (simp_all add: demo_conf_def cl_addrs_def demo_addrs_def)

lemma demo_points_apart: "points_apart (cl_addrs (demo_conf ports))"
proof -
  let ?a = "\<lambda>b. ''http://localhost:800'' @ [b]" and ?B = "{CHR ''1'', CHR ''2'', CHR ''3''}"
  have "demo_addrs = ?a ` ?B" by (simp add: demo_addrs_def)
  then have eq: "set (cl_addrs (demo_conf ports)) = ?a ` ?B" by (simp only: demo_conf_fields(4))
  show ?thesis
    unfolding points_apart_def eq
  proof (intro ballI impI; elim imageE)
    fix n n' b b' assume ne: "n \<noteq> n'" and b: "n = ?a b" "b \<in> ?B" and b': "n' = ?a b'" "b' \<in> ?B"
    have "b \<noteq> b'" using ne unfolding b(1) b'(1) by (rule contrapos_nn) (rule arg_cong)
    from node_points_apart [OF this b(2) b'(2)]
    show "node_points crc32_ChecksumIEEE defaultReplicas n \<inter> node_points crc32_ChecksumIEEE defaultReplicas n' = {}"
      unfolding b(1) b'(1) .
  qed
qed

lemma demo_conf_ok:
  assumes "\<forall>n \<in> demo_addrs. set (ports n) = demo_ports"
  shows "conf_ok (demo_conf ports)"
proof -
  have "set (cf_addrs (demo_conf ports) n) = demo_addrs" if "n \<in> demo_addrs" for n
  proof -
    have "set (ports n) = demo_ports" using assms that by blast
    then show ?thesis by (simp add: demo_conf_def demo_ports_def addrMap_def demo_addrs_def)
  qed
  then show ?thesis
    unfolding conf_ok_def demo_conf_fields(4) using demo_points_apart by (simp add: demo_conf_def)
qed

text \<open>What \<^verbatim>\<open>main\<close> builds is the group and the pool of the node, on a new cluster.\<close>

lemma addrMap_demo: "addrMap port = Some n \<Longrightarrow> port \<in> demo_ports \<and> n \<in> demo_addrs"
  by (auto simp: addrMap_def demo_ports_def demo_addrs_def split: if_splits)

lemma cache_main_starts:
  assumes "addrMap port = Some n"
  shows "\<exists>st. cache_main http_get (cl_search n) (ports n) port = Inr (0, drop 7 n, cl_pool (demo_conf ports) n, st) \<and>
    GetGroup st ''scores'' = Some 0 \<and> gs_heap st 0 = Some (cl_group (demo_conf ports) http_get n (cl_init (demo_conf ports)))"
proof -
  have "db_getter (cl_search n) = (\<lambda>key w. Some (cf_src (demo_conf ports) key, cl_search n key w))"
    by (simp add: fun_eq_iff db_getter_def demo_conf_def Let_def split: option.splits)
  moreover have "\<not> length n < 7" using addrMap_demo [OF assms] by (auto simp: demo_addrs_def)
  ultimately show ?thesis
    unfolding cache_main_def createGroup_def NewGroup_def startCacheServer_def RegisterPeers_def cl_group_def
      cl_pool_def cl_init_def GetGroup_def demo_conf_def Let_def gs_init_def
    using assms by simp
qed

text \<open>What the front end shows for a key.\<close>

definition demo_answer :: "string \<Rightarrow> string + byteview" where
  "demo_answer key = (if key = '''' then Inl ''key is required''
     else case db key of Some v \<Rightarrow> Inr \<lparr>bv_b = v\<rparr> | None \<Rightarrow> Inl (key @ '' not exist''))"

lemma demo_answer: "answer (cf_src (demo_conf ports)) = demo_answer"
  by (simp add: fun_eq_iff answer_def demo_answer_def demo_conf_fields split: option.splits)

lemma demo_api:
  assumes "conf_ok (demo_conf ports)" "n \<in> demo_addrs" "CHR '' '' \<notin> set key"
    and "gs_heap st 0 = Some (cl_group (demo_conf ports) (http_Get (cl_net (demo_conf ports) (Suc d))) n (cl_init (demo_conf ports)))"
  shows "\<exists>st' c'. startAPIServer_handler st 0 i [''key'' \<mapsto> key] (cl_init (demo_conf ports)) =
    Some (case demo_answer key of
        Inl err \<Rightarrow> http_Error err 500
      | Inr v \<Rightarrow> \<lparr>rs_code = 200, rs_header = [(''Content-Type'', ''text/plain'')], rs_body = bv_b v\<rparr>, st', c')"
proof -
  obtain c where "cl_Get (demo_conf ports) (Suc d) n i key (cl_init (demo_conf ports)) = Some (demo_answer key, c)"
    using cl_Get_moves [OF assms(1) cl_init_inv [OF assms(1)] _ assms(3), of n d i] assms(2)
    by (auto simp: demo_conf_fields demo_answer)
  with assms(4) show ?thesis
    by (cases "demo_answer key")
      (auto simp: cl_Get_def startAPIServer_handler_def gs_Get_def bv_ByteSlice_def split: option.splits)
qed

subsection \<open>Property\<close>

text \<open>C15: the demonstration works. In whatever order the three processes visit the map of addresses, each
  starts, with the group and the pool of a node, and its front end answers a key of the table with
  the value and any other with an error. Any sequence of calls of \<^verbatim>\<open>Get\<close> at the three nodes gets the
  answers of the table.\<close>

theorem demo_cluster_serves:
  assumes "\<forall>n \<in> demo_addrs. set (ports n) = demo_ports"
    and "list_all (\<lambda>(n, i, key). n \<in> demo_addrs \<and> CHR '' '' \<notin> set key) calls"
  shows "(\<forall>port n. addrMap port = Some n \<longrightarrow> (\<exists>pool st.
      cache_main (http_Get (cl_net (demo_conf ports) 1)) (cl_search n) (ports n) port = Inr (0, drop 7 n, pool, st) \<and>
      (\<forall>i key. CHR '' '' \<notin> set key \<longrightarrow> (\<exists>st' c'.
         startAPIServer_handler st 0 i [''key'' \<mapsto> key] (cl_init (demo_conf ports)) =
           Some (case demo_answer key of
               Inl err \<Rightarrow> http_Error err 500
             | Inr v \<Rightarrow> \<lparr>rs_code = 200, rs_header = [(''Content-Type'', ''text/plain'')], rs_body = bv_b v\<rparr>, st', c'))))) \<and>
    (\<exists>c. cl_run (demo_conf ports) 1 calls (cl_init (demo_conf ports)) =
       Some (map (\<lambda>(n, i, key). demo_answer key) calls, c))"
proof (intro conjI allI impI)
  let ?cf = "demo_conf ports"
  note ok = demo_conf_ok [OF assms(1)]
  show "\<exists>c. cl_run ?cf 1 calls (cl_init ?cf) = Some (map (\<lambda>(n, i, key). demo_answer key) calls, c)"
    using cl_run_serves [OF ok cl_init_inv [OF ok], of calls 0] assms(2)
    by (auto simp: demo_conf_fields demo_answer)
  fix port n assume n: "addrMap port = Some n"
  obtain st where "cache_main (http_Get (cl_net ?cf 1)) (cl_search n) (ports n) port = Inr (0, drop 7 n, cl_pool ?cf n, st)"
    "gs_heap st 0 = Some (cl_group ?cf (http_Get (cl_net ?cf (Suc 0))) n (cl_init ?cf))"
    using cache_main_starts [OF n, of "http_Get (cl_net ?cf 1)" ports] by auto
  then show "\<exists>pool st. cache_main (http_Get (cl_net ?cf 1)) (cl_search n) (ports n) port = Inr (0, drop 7 n, pool, st) \<and>
      (\<forall>i key. CHR '' '' \<notin> set key \<longrightarrow> (\<exists>st' c'. startAPIServer_handler st 0 i [''key'' \<mapsto> key] (cl_init ?cf) =
         Some (case demo_answer key of
             Inl err \<Rightarrow> http_Error err 500
           | Inr v \<Rightarrow> \<lparr>rs_code = 200, rs_header = [(''Content-Type'', ''text/plain'')], rs_body = bv_b v\<rparr>, st', c')))"
    using demo_api [OF ok conjunct2 [OF addrMap_demo [OF n]]] by blast
qed

theorem demo_cluster_serves_witness:
  "\<exists>c ports. ports ''http://localhost:8002'' = [8003, 8001, 8002] \<and>
     cl_run (demo_conf ports) 1
       [(''http://localhost:8001'', 0, ''Tom''), (''http://localhost:8002'', 0, ''Tom''), (''http://localhost:8003'', 1, ''Ann'')]
       (cl_init (demo_conf ports)) =
     Some ([Inr \<lparr>bv_b = ''630''\<rparr>, Inr \<lparr>bv_b = ''630''\<rparr>, Inl ''Ann not exist''], c)"
proof -
  let ?ports = "(\<lambda>n. [8001, 8002, 8003])(''http://localhost:8002'' := [8003, 8001, 8002])"
  have ports: "\<forall>n \<in> demo_addrs. set (?ports n) = demo_ports" by (simp add: demo_addrs_def demo_ports_def insert_commute)
  let ?calls = "[(''http://localhost:8001'', 0 :: nat, ''Tom''), (''http://localhost:8002'', 0, ''Tom''), (''http://localhost:8003'', 1, ''Ann'')]"
  have "list_all (\<lambda>(n, i, key). n \<in> demo_addrs \<and> CHR '' '' \<notin> set key) ?calls" by (simp add: demo_addrs_def)
  from demo_cluster_serves [OF ports this] obtain c where
    c: "cl_run (demo_conf ?ports) 1 ?calls (cl_init (demo_conf ?ports)) = Some (map (\<lambda>(n, i, key). demo_answer key) ?calls, c)"
    by blast
  have "map (\<lambda>(n, i, key). demo_answer key) ?calls = [Inr \<lparr>bv_b = ''630''\<rparr>, Inr \<lparr>bv_b = ''630''\<rparr>, Inl ''Ann not exist'']"
    by (simp add: demo_answer_def db_def)
  with c have "cl_run (demo_conf ?ports) 1 ?calls (cl_init (demo_conf ?ports)) =
      Some ([Inr \<lparr>bv_b = ''630''\<rparr>, Inr \<lparr>bv_b = ''630''\<rparr>, Inl ''Ann not exist''], c)" by (rule back_subst [of "\<lambda>x. _ = Some (x, c)"])
  then show ?thesis by (intro exI [of _ c] exI [of _ ?ports]) (simp del: cl_run.simps)
qed

text \<open>A port that is not in the map has the empty address; taking its host panics, after the group was made.\<close>

lemma cache_main_unknown_port:
  assumes "addrMap port = None"
  shows "cache_main http_get search ports port = Inl ''slice bounds out of range''"
  unfolding cache_main_def createGroup_def NewGroup_def startCacheServer_def RegisterPeers_def Let_def gs_init_def
  using assms by simp

end
