(* ===== verification/Lease.thy ===== *)
theory Lease
  imports Prelude
begin

section \<open>Tables of leases\<close>

text \<open>
  What the clients of a registry rely on: \<^verbatim>\<open>rpc/registry\<close> and \<^verbatim>\<open>rpcx/registry_server\<close> both keep a table
  of servers with the time of their last heartbeat, list those whose lease has not run out and
  forget the others while they list. The contract says what each operation does to the leases;
  the lemmas show that forgetting is invisible: a list contains a server exactly when its last
  heartbeat is recent enough, as if nothing were ever deleted. Times are nanoseconds.
\<close>

text \<open>A lease taken at \<open>t\<close> is alive at \<open>now\<close>; a timeout of 0 means that leases never end.\<close>

definition lease_alive :: "int \<Rightarrow> int \<Rightarrow> int \<Rightarrow> bool" where
  "lease_alive timeout now t \<longleftrightarrow> timeout = 0 \<or> now < t + timeout"

lemma lease_alive_mono: "lease_alive timeout now' t \<Longrightarrow> now \<le> now' \<Longrightarrow> lease_alive timeout now t"
  by (auto simp: lease_alive_def)

text \<open>\<open>covers L L' tm now\<close>: \<open>L'\<close> is what is left of the full table \<open>L\<close> after deleting leases that have run out.\<close>

definition covers :: "('k \<rightharpoonup> int) \<Rightarrow> ('k \<rightharpoonup> int) \<Rightarrow> int \<Rightarrow> int \<Rightarrow> bool" where
  "covers L L' tm now \<longleftrightarrow>
     (\<forall>k t. L' k = Some t \<longrightarrow> L k = Some t) \<and>
     (\<forall>k t. L k = Some t \<longrightarrow> L' k = Some t \<or> \<not> lease_alive tm now t)"

lemma covers_refl: "covers L L tm now"
  by (simp add: covers_def)

lemma covers_later: "covers L L' tm now \<Longrightarrow> now \<le> now' \<Longrightarrow> covers L L' tm now'"
  unfolding covers_def by (blast intro: lease_alive_mono)

lemma covers_upd: "covers L L' tm now \<Longrightarrow> covers (L(k \<mapsto> t)) (L'(k \<mapsto> t)) tm now"
  by (auto simp: covers_def)

lemma covers_del: "covers L L' tm now \<Longrightarrow> covers (L(k := None)) (L'(k := None)) tm now"
  by (auto simp: covers_def)

lemma covers_same_alive:
  "covers L L' tm now \<Longrightarrow> {k. \<exists>t. L' k = Some t \<and> lease_alive tm now t} = {k. \<exists>t. L k = Some t \<and> lease_alive tm now t}"
  unfolding covers_def by blast

lemma covers_prune:
  assumes "covers L L' tm now" "\<And>k. L'' k = L' k \<or> L'' k = None \<and> (\<forall>t. L' k = Some t \<longrightarrow> \<not> lease_alive tm now t)"
  shows "covers L L'' tm now"
  using assms unfolding covers_def by (metis option.distinct(1))

locale lease_table =
  fixes lease :: "'s \<Rightarrow> 'g \<times> 'k :: linorder \<Rightarrow> int option"
    and tmo :: "'s \<Rightarrow> int"
    and put :: "'s \<Rightarrow> int \<Rightarrow> 'g \<Rightarrow> 'k \<Rightarrow> 's"
    and live :: "'s \<Rightarrow> int \<Rightarrow> 'g \<Rightarrow> 's \<times> 'k list"
    and inv :: "'s \<Rightarrow> bool"
  assumes put_lease: "inv s \<Longrightarrow> lease (put s now g k) = (lease s)((g, k) \<mapsto> now)"
    and put_tmo: "tmo (put s now g k) = tmo s"
    and put_inv: "inv s \<Longrightarrow> inv (put s now g k)"
    and live_set: "inv s \<Longrightarrow> set (snd (live s now g)) = {k. \<exists>t. lease s (g, k) = Some t \<and> lease_alive (tmo s) now t}"
    and live_sorted: "inv s \<Longrightarrow> sorted_wrt (<) (snd (live s now g))"
    and live_lease: "inv s \<Longrightarrow> lease (fst (live s now g)) =
      (\<lambda>(h, k). case lease s (h, k) of
         Some t \<Rightarrow> if h = g \<and> \<not> lease_alive (tmo s) now t then None else Some t | None \<Rightarrow> None)"
    and live_tmo: "tmo (fst (live s now g)) = tmo s"
    and live_inv: "inv s \<Longrightarrow> inv (fst (live s now g))"
begin

text \<open>The table \<open>s\<close>, last used at \<open>now\<close>, stands for the full table \<open>L\<close>.\<close>

definition stands_for :: "'s \<Rightarrow> ('g \<times> 'k \<rightharpoonup> int) \<Rightarrow> int \<Rightarrow> bool" where
  "stands_for s L now \<longleftrightarrow> inv s \<and> covers L (lease s) (tmo s) now"

lemma stands_for_put:
  assumes "stands_for s L now" "now \<le> now'"
  shows "stands_for (put s now' g k) (L((g, k) \<mapsto> now')) now'"
  using assms by (auto simp: stands_for_def put_lease put_tmo put_inv intro: covers_upd covers_later)

lemma stands_for_live:
  assumes "stands_for s L now" "now \<le> now'"
  shows "stands_for (fst (live s now' g)) L now'"
proof -
  have inv: "inv s" and c: "covers L (lease s) (tmo s) now'"
    using assms by (auto simp: stands_for_def intro: covers_later)
  have "covers L (lease (fst (live s now' g))) (tmo s) now'"
    by (rule covers_prune [OF c]) (auto simp: live_lease [OF inv] split: option.splits)
  then show ?thesis using inv by (simp add: stands_for_def live_tmo live_inv)
qed

text \<open>A list is a function of the full table.\<close>

lemma live_full:
  assumes "stands_for s L now" "now \<le> now'"
  shows "set (snd (live s now' g)) = {k. \<exists>t. L (g, k) = Some t \<and> lease_alive (tmo s) now' t}"
    "sorted_wrt (<) (snd (live s now' g))"
proof -
  have inv: "inv s" and c: "covers L (lease s) (tmo s) now'"
    using assms by (auto simp: stands_for_def intro: covers_later)
  show "set (snd (live s now' g)) = {k. \<exists>t. L (g, k) = Some t \<and> lease_alive (tmo s) now' t}"
    using covers_same_alive [OF c] by (auto simp: live_set [OF inv])
  show "sorted_wrt (<) (snd (live s now' g))" by (rule live_sorted [OF inv])
qed

end

text \<open>A table from which servers can also be removed.\<close>

locale lease_table_remove = lease_table lease tmo put live inv
  for lease :: "'s \<Rightarrow> 'g \<times> 'k :: linorder \<Rightarrow> int option" and tmo put live inv +
  fixes remove :: "'s \<Rightarrow> 'g \<Rightarrow> 'k \<Rightarrow> 's"
  assumes remove_lease: "inv s \<Longrightarrow> lease (remove s g k) = (lease s)((g, k) := None)"
    and remove_tmo: "tmo (remove s g k) = tmo s"
    and remove_inv: "inv s \<Longrightarrow> inv (remove s g k)"
begin

lemma stands_for_remove:
  assumes "stands_for s L now"
  shows "stands_for (remove s g k) (L((g, k) := None)) now"
  using assms by (simp add: stands_for_def remove_lease remove_tmo remove_inv covers_del)

end

subsection \<open>A map of addresses to items, and the loop that lists it\<close>

record server_item =
  si_Addr :: string
  si_start :: int

type_synonym items = "(string, server_item) gomap"

definition items_wf :: "items \<Rightarrow> bool" where
  "items_wf m \<longleftrightarrow> distinct (map fst m)"

text \<open>The loops of \<^verbatim>\<open>aliveServers\<close> and \<^verbatim>\<open>getServers\<close> are the same text: they collect the addresses that are
  alive and delete the others. The order of the iteration is the order of the list.\<close>

fun prune_loop :: "int \<Rightarrow> int \<Rightarrow> items \<Rightarrow> items \<times> string list \<Rightarrow> items \<times> string list" where
  "prune_loop timeout now [] (m, servers) = (m, servers)"
| "prune_loop timeout now ((addr, server) # rest) (m, servers) =
     prune_loop timeout now rest
       (if timeout = 0 \<or> si_start server + timeout > now then (m, servers @ [addr])
        else (AList.delete addr m, servers))"

lemma prune_loop_eq:
  "prune_loop tm now xs (m, acc) =
     (foldl (\<lambda>m a. AList.delete a m) m (map fst (filter (\<lambda>(a, i). \<not> lease_alive tm now (si_start i)) xs)),
      acc @ map fst (filter (\<lambda>(a, i). lease_alive tm now (si_start i)) xs))"
  by (induction tm now xs "(m, acc)" arbitrary: m acc rule: prune_loop.induct)
     (auto simp: lease_alive_def)

lemma foldl_delete: "foldl (\<lambda>m a. AList.delete a m) m ks = filter (\<lambda>(a, _). a \<notin> set ks) m"
proof (induction ks arbitrary: m)
  case (Cons k ks)
  then show ?case by (auto simp: AList.delete_eq intro!: filter_cong)
qed simp

lemma prune_loop_self:
  assumes "items_wf m"
  shows "prune_loop tm now m (m, []) =
    (filter (\<lambda>(a, i). lease_alive tm now (si_start i)) m, map fst (filter (\<lambda>(a, i). lease_alive tm now (si_start i)) m))"
proof -
  have "filter (\<lambda>(a, _). a \<notin> set (map fst (filter (\<lambda>(a, i). \<not> lease_alive tm now (si_start i)) m))) m =
      filter (\<lambda>(a, i). lease_alive tm now (si_start i)) m"
    using assms by (intro filter_cong) (force simp: items_wf_def distinct_map inj_on_def)+
  then show ?thesis by (simp add: prune_loop_eq foldl_delete)
qed

lemma map_of_filter_alive:
  assumes "items_wf m"
  shows "map_of (filter (\<lambda>(a, i). P i) m) k =
    (case map_of m k of Some i \<Rightarrow> if P i then Some i else None | None \<Rightarrow> None)"
  using assms unfolding items_wf_def
  by (induction m) (auto split: option.splits simp: map_of_eq_None_iff dest: map_of_SomeD)

lemma items_wf_filter: "items_wf m \<Longrightarrow> items_wf (filter P m)"
  unfolding items_wf_def by (metis distinct_map_filter)

lemma items_wf_update [simp]: "items_wf m \<Longrightarrow> items_wf (AList.update a i m)"
  by (simp add: items_wf_def distinct_update)

lemma items_wf_delete [simp]: "items_wf m \<Longrightarrow> items_wf (AList.delete a m)"
  by (simp add: items_wf_def distinct_delete)

lemma sorted_distinct_strict: "distinct xs \<Longrightarrow> sorted_wrt (<) (sort (xs :: 'a :: linorder list))"
  by (simp add: strict_sorted_iff)

end
