(* ===== verification/Rpc_Registry.thy ===== *)
theory Rpc_Registry
  imports Lease Http_Lib
begin

section \<open>The registry of RPC servers (\<^verbatim>\<open>rpc/registry/registry.go\<close>)\<close>

text \<open>
  Servers announce themselves by a \<^verbatim>\<open>POST\<close> with their address in a header and repeat it as a
  heartbeat; a \<^verbatim>\<open>GET\<close> returns the addresses of those whose last heartbeat is not older than the
  timeout. The time of a request (\<^verbatim>\<open>time.Now()\<close>) is an argument, in nanoseconds. The default
  registry and the registration of the handler with \<^verbatim>\<open>http.Handle\<close> are in \<open>Rpc_Process\<close>.
\<close>

subsection \<open>State and operations\<close>

record registry =
  rg_timeout :: int
  rg_servers :: items

definition minute :: int where "minute = 60 * 1000000000"
definition rg_defaultTimeout :: int where "rg_defaultTimeout = minute * 5"

definition rg_New :: "int \<Rightarrow> registry" where
  "rg_New timeout = \<lparr>rg_timeout = timeout, rg_servers = []\<rparr>"

definition rg_putServer :: "registry \<Rightarrow> int \<Rightarrow> string \<Rightarrow> registry" where
  "rg_putServer r now addr =
     (case map_of (rg_servers r) addr of
        None \<Rightarrow> r\<lparr>rg_servers := AList.update addr \<lparr>si_Addr = addr, si_start = now\<rparr> (rg_servers r)\<rparr>
      | Some s \<Rightarrow> r\<lparr>rg_servers := AList.update addr (s\<lparr>si_start := now\<rparr>) (rg_servers r)\<rparr>)"

definition rg_aliveServers :: "registry \<Rightarrow> int \<Rightarrow> registry \<times> string list" where
  "rg_aliveServers r now =
     (let (m, servers) = prune_loop (rg_timeout r) now (rg_servers r) (rg_servers r, [])
      in (r\<lparr>rg_servers := m\<rparr>, sort servers))"

text \<open>\<open>hdr\<close> is \<^verbatim>\<open>req.Header.Get("X-Rpc-Server")\<close>, empty when there is no such header.\<close>

definition rg_ServeHTTP :: "registry \<Rightarrow> int \<Rightarrow> string \<Rightarrow> string \<Rightarrow> registry \<times> http_resp" where
  "rg_ServeHTTP r now method hdr =
     (if method = ''GET'' then
        (let (r', servers) = rg_aliveServers r now
         in (r', \<lparr>rs_code = 200, rs_header = [(''X-Rpc-Servers'', strings_Join servers '','')], rs_body = []\<rparr>))
      else if method = ''POST'' then
        (if hdr = '''' then (r, \<lparr>rs_code = 500, rs_header = [], rs_body = []\<rparr>)
         else (rg_putServer r now hdr, \<lparr>rs_code = 200, rs_header = [], rs_body = []\<rparr>))
      else (r, \<lparr>rs_code = 405, rs_header = [], rs_body = []\<rparr>))"

text \<open>The heartbeats of a server. \<open>post\<close> is the HTTP client's \<^verbatim>\<open>Do\<close> on a \<^verbatim>\<open>POST\<close> with the address in the
  header, at a time; it fails or yields a response, whose status is not looked at.\<close>

type_synonym 'w post_client = "string \<Rightarrow> string \<Rightarrow> int \<Rightarrow> 'w \<Rightarrow> (string + http_resp) \<times> 'w"

definition rg_sendHeartbeat :: "'w post_client \<Rightarrow> string \<Rightarrow> string \<Rightarrow> int \<Rightarrow> 'w \<Rightarrow> string option \<times> 'w" where
  "rg_sendHeartbeat post reg addr now w =
     (case post reg addr now w of (Inl err, w') \<Rightarrow> (Some err, w') | (Inr _, w') \<Rightarrow> (None, w'))"

text \<open>The goroutine of \<^verbatim>\<open>Heartbeat\<close>, for the first \<open>n\<close> ticks; an error stops the ticker. (A tick that is
  already waiting in the ticker's channel at that moment is not considered.)\<close>

fun rg_heartbeat_loop ::
  "'w post_client \<Rightarrow> string \<Rightarrow> string \<Rightarrow> int \<Rightarrow> int \<Rightarrow> nat \<Rightarrow> 'w \<Rightarrow> 'w" where
  "rg_heartbeat_loop post reg addr duration t 0 w = w"
| "rg_heartbeat_loop post reg addr duration t (Suc n) w =
     (case rg_sendHeartbeat post reg addr (t + duration) w of
        (Some err, w') \<Rightarrow> w'
      | (None, w') \<Rightarrow> rg_heartbeat_loop post reg addr duration (t + duration) n w')"

definition rg_Heartbeat ::
  "'w post_client \<Rightarrow> string \<Rightarrow> string \<Rightarrow> int \<Rightarrow> int \<Rightarrow> nat \<Rightarrow> 'w \<Rightarrow> 'w" where
  "rg_Heartbeat post reg addr duration now n w =
     (let duration = (if duration = 0 then rg_defaultTimeout - 1 * minute else duration)
      in case rg_sendHeartbeat post reg addr now w of
           (Some err, w') \<Rightarrow> w'
         | (None, w') \<Rightarrow> rg_heartbeat_loop post reg addr duration now n w')"

subsection \<open>The registry is a table of leases\<close>

definition rg_lease :: "registry \<Rightarrow> unit \<times> string \<Rightarrow> int option" where
  "rg_lease r = (\<lambda>(_, a). map_option si_start (map_of (rg_servers r) a))"

definition rg_inv :: "registry \<Rightarrow> bool" where
  "rg_inv r \<longleftrightarrow> items_wf (rg_servers r)"

lemma rg_aliveServers_eq:
  assumes "rg_inv r"
  shows "rg_aliveServers r now =
    (let alive = filter (\<lambda>(a, i). lease_alive (rg_timeout r) now (si_start i)) (rg_servers r)
     in (r\<lparr>rg_servers := alive\<rparr>, sort (map fst alive)))"
  using assms by (simp add: rg_aliveServers_def rg_inv_def prune_loop_self Let_def)

interpretation rg: lease_table rg_lease rg_timeout "\<lambda>r now _ a. rg_putServer r now a"
  "\<lambda>r now _. rg_aliveServers r now" rg_inv
proof (unfold_locales, goal_cases)
  case (1 s now g k)
  then show ?case
    by (auto simp: rg_lease_def rg_putServer_def update_conv fun_eq_iff split: option.splits)
next
  case (2 s now g k)
  then show ?case by (simp add: rg_putServer_def split: option.splits)
next
  case (3 s now g k)
  then show ?case by (simp add: rg_putServer_def rg_inv_def split: option.splits)
next
  case (4 s now g)
  then show ?case
    by (force simp: rg_aliveServers_eq rg_lease_def rg_inv_def items_wf_def Let_def)
next
  case (5 s now g)
  then show ?case
    by (simp add: rg_aliveServers_eq Let_def rg_inv_def items_wf_def sorted_distinct_strict distinct_map_filter)
next
  case (6 s now g)
  then show ?case
    by (auto simp: rg_aliveServers_eq rg_lease_def rg_inv_def map_of_filter_alive Let_def fun_eq_iff split: option.splits)
next
  case (7 s now g)
  then show ?case by (simp add: rg_aliveServers_def split: prod.splits)
next
  case (8 s now g)
  then show ?case by (simp add: rg_aliveServers_eq Let_def) (simp add: rg_inv_def items_wf_filter)
qed

subsection \<open>Histories of requests\<close>

text \<open>A request: its time, its method and its header \<^verbatim>\<open>X-Rpc-Server\<close>. \<open>rg_last_post\<close> is the time of the
  last successful registration of each address.\<close>

type_synonym reg_req = "int \<times> string \<times> string"

definition rg_run :: "registry \<Rightarrow> reg_req list \<Rightarrow> registry" where
  "rg_run r reqs = foldl (\<lambda>r (t, m, h). fst (rg_ServeHTTP r t m h)) r reqs"

definition rg_last_post :: "(unit \<times> string \<rightharpoonup> int) \<Rightarrow> reg_req list \<Rightarrow> unit \<times> string \<rightharpoonup> int" where
  "rg_last_post L reqs =
     foldl (\<lambda>L (t, m, h). if m = ''POST'' \<and> h \<noteq> '''' then L(((), h) \<mapsto> t) else L) L reqs"

lemma rg_step_stands_for:
  assumes "rg.stands_for r L t0" "t0 \<le> t"
  shows "rg.stands_for (fst (rg_ServeHTTP r t m h)) (rg_last_post L [(t, m, h)]) t"
proof -
  have "rg.stands_for r L t" using assms by (auto simp: rg.stands_for_def intro: covers_later)
  then show ?thesis
    using rg.stands_for_put [OF assms, where k = h] rg.stands_for_live [OF assms]
    by (auto simp: rg_ServeHTTP_def rg_last_post_def split: prod.splits)
qed

lemma rg_run_stands_for:
  assumes "rg.stands_for r L t0" "sorted (t0 # map fst reqs @ [now])"
  shows "rg.stands_for (rg_run r reqs) (rg_last_post L reqs) now"
  using assms
proof (induction reqs arbitrary: r L t0)
  case Nil
  then show ?case by (auto simp: rg_run_def rg_last_post_def rg.stands_for_def intro: covers_later)
next
  case (Cons q reqs)
  obtain t m h where q: "q = (t, m, h)" by (cases q)
  have "rg.stands_for (rg_run (fst (rg_ServeHTTP r t m h)) reqs) (rg_last_post (rg_last_post L [(t, m, h)]) reqs) now"
    using Cons.prems by (intro Cons.IH [OF rg_step_stands_for]) (auto simp: q)
  then show ?case by (simp add: q rg_run_def rg_last_post_def)
qed

lemma rg_New_stands_for: "rg.stands_for (rg_New tm) Map.empty t"
  by (simp add: rg.stands_for_def rg_New_def rg_inv_def items_wf_def covers_def rg_lease_def)

lemma rg_ServeHTTP_timeout: "rg_timeout (fst (rg_ServeHTTP r t m h)) = rg_timeout r"
  using rg.put_tmo [of r t h] rg.live_tmo [of r t]
  by (auto simp: rg_ServeHTTP_def split: prod.splits)

lemma rg_run_timeout: "rg_timeout (rg_run r reqs) = rg_timeout r"
  unfolding rg_run_def by (induction reqs arbitrary: r) (auto simp: rg_ServeHTTP_timeout)

text \<open>The heartbeats of one server, at a registry that only it talks to, are a history of requests.\<close>

definition rg_post :: "registry post_client" where
  "rg_post url addr now r = (let (r', rs) = rg_ServeHTTP r now ''POST'' addr in (Inr rs, r'))"

lemma rg_sendHeartbeat_post: "rg_sendHeartbeat rg_post url addr now r = (None, rg_run r [(now, ''POST'', addr)])"
  by (simp add: rg_sendHeartbeat_def rg_post_def rg_run_def split: prod.splits)

lemma rg_heartbeat_loop_run:
  "rg_heartbeat_loop rg_post url addr d t n r = rg_run r (map (\<lambda>i. (t + int (Suc i) * d, ''POST'', addr)) [0..<n])"
proof (induction n arbitrary: t r)
  case (Suc n)
  have "map (\<lambda>i. (t + d + int (Suc i) * d, ''POST'', addr)) [0..<n] =
      map (\<lambda>i. (t + int (Suc i) * d, ''POST'', addr)) (map Suc [0..<n])"
    by (simp add: algebra_simps)
  also have "map Suc [0..<n] = [Suc 0..<Suc n]" by (rule map_Suc_upt)
  finally show ?case
    using Suc by (simp add: rg_sendHeartbeat_post upt_rec [of 0 "Suc n"] rg_run_def del: upt_Suc)
qed (simp add: rg_run_def)

lemma rg_Heartbeat_run:
  assumes "d = (if duration = 0 then rg_defaultTimeout - minute else duration)"
  shows "rg_Heartbeat rg_post url addr duration t n r = rg_run r (map (\<lambda>i. (t + int i * d, ''POST'', addr)) [0..<Suc n])"
proof -
  have "[0..<Suc n] = 0 # map Suc [0..<n]" by (simp add: map_Suc_upt upt_conv_Cons del: upt_Suc)
  then show ?thesis
    using assms
    by (simp add: rg_Heartbeat_def Let_def rg_sendHeartbeat_post rg_heartbeat_loop_run rg_run_def comp_def del: upt_Suc)
qed

lemma rg_last_post_beats:
  assumes "addr \<noteq> ''''"
  shows "rg_last_post L (map (\<lambda>i. (t + int i * d, ''POST'', addr)) [0..<Suc n]) = L(((), addr) \<mapsto> t + int n * d)"
proof (induction n)
  case (Suc n)
  have "[0..<Suc (Suc n)] = [0..<Suc n] @ [Suc n]" by simp
  then show ?case using Suc by (auto simp: rg_last_post_def assms simp del: upt_Suc)
qed (simp add: rg_last_post_def assms)

lemma rg_last_post_posted:
  "rg_last_post L reqs ((), a) = Some t \<Longrightarrow> L ((), a) = None \<Longrightarrow> a \<noteq> '''' \<and> (\<exists>t. (t, ''POST'', a) \<in> set reqs)"
proof (induction reqs arbitrary: L)
  case (Cons q reqs)
  obtain t' m h where q: "q = (t', m, h)" by (cases q)
  let ?L = "if m = ''POST'' \<and> h \<noteq> '''' then L(((), h) \<mapsto> t') else L"
  have step: "rg_last_post L (q # reqs) = rg_last_post ?L reqs" by (simp add: rg_last_post_def q)
  show ?case
  proof (cases "m = ''POST'' \<and> h = a \<and> a \<noteq> ''''")
    case True
    then show ?thesis using q by auto
  next
    case False
    then have "?L ((), a) = None" using Cons.prems(2) by auto
    moreover have "rg_last_post ?L reqs ((), a) = Some t" using Cons.prems(1) unfolding step .
    ultimately show ?thesis using Cons.IH by (meson list.set_intros(2))
  qed
qed (simp add: rg_last_post_def)

lemma registry_live:
  assumes "sorted (map fst reqs @ [now])"
  shows "\<exists>servers. snd (rg_ServeHTTP (rg_run (rg_New timeout) reqs) now ''GET'' '''') =
      \<lparr>rs_code = 200, rs_header = [(''X-Rpc-Servers'', strings_Join servers '','')], rs_body = []\<rparr> \<and>
    sorted_wrt (<) servers \<and>
    set servers = {a. \<exists>t. rg_last_post Map.empty reqs ((), a) = Some t \<and> lease_alive timeout now t}"
proof -
  let ?r = "rg_run (rg_New timeout) reqs"
  define t0 where "t0 = fst (hd (reqs @ [(now, '''', '''')]))"
  have "sorted (t0 # map fst reqs @ [now])" using assms by (cases reqs) (auto simp: t0_def)
  then have "rg.stands_for ?r (rg_last_post Map.empty reqs) now"
    by (rule rg_run_stands_for [OF rg_New_stands_for])
  moreover have "rg_timeout ?r = timeout" by (simp add: rg_run_timeout rg_New_def)
  ultimately show ?thesis
    using rg.live_full [of ?r _ now now]
    by (auto simp: rg_ServeHTTP_def split: prod.splits)
qed

subsection \<open>Properties\<close>

text \<open>C22: what the registry answers. After any history of requests (in the order of their times) a
  \<^verbatim>\<open>GET\<close> at a later time returns the addresses in increasing order, joined by commas: exactly those
  whose last registration is less than the timeout ago, or all that ever registered when the
  timeout is 0. The deletions that listing makes on the way never show.\<close>

theorem registry_lists_live:
  assumes "sorted (map fst reqs @ [now])"
  shows "\<exists>servers. snd (rg_ServeHTTP (rg_run (rg_New timeout) reqs) now ''GET'' '''') =
      \<lparr>rs_code = 200, rs_header = [(''X-Rpc-Servers'', strings_Join servers '','')], rs_body = []\<rparr> \<and>
    sorted_wrt (<) servers \<and>
    set servers = {a. \<exists>t. rg_last_post Map.empty reqs ((), a) = Some t \<and> lease_alive timeout now t}"
  using assms by (rule registry_live)

theorem registry_lists_live_witness:
  "\<exists>servers. snd (rg_ServeHTTP (rg_run (rg_New 5) [(0, ''POST'', ''tcp@b''), (4, ''POST'', ''tcp@a''), (6, ''GET'', ''''),
       (7, ''POST'', ''tcp@c'')]) 8 ''GET'' '''') =
       \<lparr>rs_code = 200, rs_header = [(''X-Rpc-Servers'', strings_Join servers '','')], rs_body = []\<rparr> \<and>
     set servers = {''tcp@a'', ''tcp@c''}"
proof -
  let ?reqs = "[(0, ''POST'', ''tcp@b''), (4, ''POST'', ''tcp@a''), (6, ''GET'', ''''), (7, ''POST'', ''tcp@c'')] :: reg_req list"
  have "{a. \<exists>t. rg_last_post Map.empty ?reqs ((), a) = Some t \<and> lease_alive 5 8 t} = {''tcp@a'', ''tcp@c''}"
    by (auto simp: rg_last_post_def lease_alive_def)
  then show ?thesis using registry_lists_live [of ?reqs 8 5] by auto
qed

text \<open>C23: heartbeats keep a server listed. A server that calls \<^verbatim>\<open>Heartbeat\<close> with the default interval is
  listed by a registry with the default timeout from its start on, until at least a minute after its
  next heartbeat would be due.\<close>

theorem Heartbeat_keeps_listed:
  assumes "addr \<noteq> ''''" and "t + int n * (4 * minute) \<le> now" and "now < t + int n * (4 * minute) + 5 * minute"
  shows "snd (rg_aliveServers (rg_Heartbeat rg_post url addr 0 t n (rg_New rg_defaultTimeout)) now) = [addr]"
proof -
  let ?d = "4 * minute"
  let ?reqs = "map (\<lambda>i. (t + int i * ?d, ''POST'', addr)) [0..<Suc n]"
  let ?r = "rg_run (rg_New rg_defaultTimeout) ?reqs"
  have r: "rg_Heartbeat rg_post url addr 0 t n (rg_New rg_defaultTimeout) = ?r"
    by (rule rg_Heartbeat_run) (simp add: rg_defaultTimeout_def)
  have "sorted (map (\<lambda>i. t + int i * ?d) [0..<m])" for m
    by (induction m) (auto simp: sorted_append minute_def)
  then have "sorted (map fst ?reqs)" by (simp add: comp_def del: upt_Suc)
  moreover have "\<forall>x \<in> set (map fst ?reqs). t \<le> x \<and> x \<le> now" using assms(2) by (auto simp: minute_def)
  moreover have "t \<le> now" using assms(2) by (simp add: minute_def)
  ultimately have "rg.stands_for ?r (rg_last_post Map.empty ?reqs) now"
    by (intro rg_run_stands_for [OF rg_New_stands_for, of t]) (auto simp: sorted_append)
  then have st: "rg.stands_for ?r [((), addr) \<mapsto> t + int n * ?d] now"
    by (simp only: rg_last_post_beats [OF assms(1)])
  have "rg_timeout ?r = 5 * minute" by (simp add: rg_run_timeout rg_New_def rg_defaultTimeout_def)
  then have set: "set (snd (rg_aliveServers ?r now)) = {addr}"
    using rg.live_full(1) [OF st, of now] assms(3) by (auto simp: lease_alive_def)
  have "distinct (snd (rg_aliveServers ?r now))"
    using rg.live_full(2) [OF st, of now] by (simp add: strict_sorted_iff)
  with set show ?thesis unfolding r
    by (cases "snd (rg_aliveServers ?r now)"; cases "tl (snd (rg_aliveServers ?r now))") auto
qed

theorem Heartbeat_keeps_listed_witness:
  "snd (rg_aliveServers (rg_Heartbeat rg_post ''http://r'' ''tcp@a'' 0 0 2 (rg_New rg_defaultTimeout)) (12 * minute)) = [''tcp@a'']"
  by (rule Heartbeat_keeps_listed) (simp_all add: minute_def)

end
