(* ===== verification/Registry_Server.thy ===== *)
theory Registry_Server
  imports Lease
begin

section \<open>The registry server of \<^verbatim>\<open>rpcx\<close> (\<^verbatim>\<open>rpcx/registry_server/http_registry_server.go\<close>)\<close>

text \<open>
  A registry with one table of leases per service; nodes are added and removed by requests with a
  JSON body. The body is the result of reading and decoding it, and the body of a response is the
  list that is encoded: \<^verbatim>\<open>encoding/json\<close> itself is not modelled. Listening on a socket and
  \<^verbatim>\<open>http.Handle\<close> are in \<open>Rpc_Process\<close>.
\<close>

subsection \<open>State and operations\<close>

record post_server_param =
  psp_Service :: string
  psp_Addr :: string

datatype hs_body = ReadError | ParseError | Param post_server_param

record http_registry_server =
  hs_timeout :: int
  hs_servers :: "(string, items) gomap"

record hs_resp =
  hr_code :: nat
  hr_header :: "(string \<times> string) list"
  hr_json :: "string list option"

definition NewHttpRegistryServer :: "int \<Rightarrow> http_registry_server" where
  "NewHttpRegistryServer timeout = \<lparr>hs_timeout = timeout, hs_servers = []\<rparr>"

definition hs_addServer :: "http_registry_server \<Rightarrow> int \<Rightarrow> post_server_param \<Rightarrow> http_registry_server" where
  "hs_addServer r now p =
     (let servers = (case map_of (hs_servers r) (psp_Service p) of None \<Rightarrow> [] | Some m \<Rightarrow> m);
          servers' = (case map_of servers (psp_Addr p) of
                        Some item \<Rightarrow> AList.update (psp_Addr p) (item\<lparr>si_start := now\<rparr>) servers
                      | None \<Rightarrow> AList.update (psp_Addr p) \<lparr>si_Addr = psp_Addr p, si_start = now\<rparr> servers)
      in r\<lparr>hs_servers := AList.update (psp_Service p) servers' (hs_servers r)\<rparr>)"

definition hs_getServers :: "http_registry_server \<Rightarrow> int \<Rightarrow> string \<Rightarrow> http_registry_server \<times> string list" where
  "hs_getServers r now service =
     (case map_of (hs_servers r) service of
        None \<Rightarrow> (r, [])
      | Some servers \<Rightarrow>
          let (m, lst) = prune_loop (hs_timeout r) now servers (servers, [])
          in (r\<lparr>hs_servers := AList.update service m (hs_servers r)\<rparr>, sort lst))"

definition hs_removeServer :: "http_registry_server \<Rightarrow> post_server_param \<Rightarrow> http_registry_server" where
  "hs_removeServer r p =
     (case map_of (hs_servers r) (psp_Service p) of
        None \<Rightarrow> r
      | Some servers \<Rightarrow>
          r\<lparr>hs_servers := AList.update (psp_Service p) (AList.delete (psp_Addr p) servers) (hs_servers r)\<rparr>)"

text \<open>\<open>service\<close> is the query parameter, empty when it is missing.\<close>

definition hs_ServeHTTP ::
  "http_registry_server \<Rightarrow> int \<Rightarrow> string \<Rightarrow> string \<Rightarrow> hs_body \<Rightarrow> http_registry_server \<times> hs_resp" where
  "hs_ServeHTTP r now method service body =
     (if method = ''GET'' then
        (let (r', servers) = hs_getServers r now service
         in (r', \<lparr>hr_code = 200, hr_header = [(''Content-Type'', ''application/json'')], hr_json = Some servers\<rparr>))
      else if method = ''DELETE'' then
        (case body of
           ReadError \<Rightarrow> (r, \<lparr>hr_code = 412, hr_header = [], hr_json = None\<rparr>)
         | ParseError \<Rightarrow> (r, \<lparr>hr_code = 412, hr_header = [], hr_json = None\<rparr>)
         | Param p \<Rightarrow> (hs_removeServer r p, \<lparr>hr_code = 200, hr_header = [], hr_json = None\<rparr>))
      else if method = ''POST'' then
        (case body of
           ReadError \<Rightarrow> (r, \<lparr>hr_code = 412, hr_header = [], hr_json = None\<rparr>)
         | ParseError \<Rightarrow> (r, \<lparr>hr_code = 412, hr_header = [], hr_json = None\<rparr>)
         | Param p \<Rightarrow> (hs_addServer r now p, \<lparr>hr_code = 200, hr_header = [], hr_json = None\<rparr>))
      else (r, \<lparr>hr_code = 405, hr_header = [], hr_json = None\<rparr>))"

subsection \<open>The server is a table of leases with removal\<close>

definition hs_items :: "http_registry_server \<Rightarrow> string \<Rightarrow> items" where
  "hs_items r service = (case map_of (hs_servers r) service of None \<Rightarrow> [] | Some m \<Rightarrow> m)"

definition hs_lease :: "http_registry_server \<Rightarrow> string \<times> string \<Rightarrow> int option" where
  "hs_lease r = (\<lambda>(service, a). map_option si_start (map_of (hs_items r service) a))"

definition hs_inv :: "http_registry_server \<Rightarrow> bool" where
  "hs_inv r \<longleftrightarrow> (\<forall>service. items_wf (hs_items r service))"

lemma hs_items_update:
  "hs_items (r\<lparr>hs_servers := AList.update service m (hs_servers r)\<rparr>) = (hs_items r)(service := m)"
  by (auto simp: hs_items_def update_conv fun_eq_iff)

lemma hs_items_addServer:
  "hs_items (hs_addServer r now \<lparr>psp_Service = g, psp_Addr = a\<rparr>) =
     (hs_items r)(g := AList.update a
        (case map_of (hs_items r g) a of Some item \<Rightarrow> item\<lparr>si_start := now\<rparr> | None \<Rightarrow> \<lparr>si_Addr = a, si_start = now\<rparr>)
        (hs_items r g))"
  unfolding hs_addServer_def Let_def hs_items_update
  by (auto simp: hs_items_def fun_eq_iff split: option.splits)

lemma hs_items_removeServer:
  "hs_items (hs_removeServer r \<lparr>psp_Service = g, psp_Addr = a\<rparr>) = (hs_items r)(g := AList.delete a (hs_items r g))"
  by (auto simp: hs_removeServer_def hs_items_update fun_eq_iff split: option.splits) (auto simp: hs_items_def)

lemma hs_getServers_eq:
  assumes "hs_inv r"
  shows "hs_items (fst (hs_getServers r now g)) =
      (hs_items r)(g := filter (\<lambda>(a, i). lease_alive (hs_timeout r) now (si_start i)) (hs_items r g))"
    "snd (hs_getServers r now g) = sort (map fst (filter (\<lambda>(a, i). lease_alive (hs_timeout r) now (si_start i)) (hs_items r g)))"
proof -
  have "items_wf (hs_items r g)" using assms by (simp add: hs_inv_def)
  note p = prune_loop_self [OF this, of "hs_timeout r" now]
  show "hs_items (fst (hs_getServers r now g)) =
      (hs_items r)(g := filter (\<lambda>(a, i). lease_alive (hs_timeout r) now (si_start i)) (hs_items r g))"
    using p by (cases "map_of (hs_servers r) g") (auto simp: hs_getServers_def hs_items_update hs_items_def)
  show "snd (hs_getServers r now g) =
      sort (map fst (filter (\<lambda>(a, i). lease_alive (hs_timeout r) now (si_start i)) (hs_items r g)))"
    using p by (cases "map_of (hs_servers r) g") (auto simp: hs_getServers_def hs_items_def)
qed

lemma hs_timeout_ops [simp]:
  "hs_timeout (hs_addServer r now p) = hs_timeout r" "hs_timeout (hs_removeServer r p) = hs_timeout r"
  "hs_timeout (fst (hs_getServers r now g)) = hs_timeout r"
  by (simp_all add: hs_addServer_def hs_removeServer_def hs_getServers_def Let_def split: option.splits prod.splits)

interpretation hs: lease_table_remove hs_lease hs_timeout
  "\<lambda>r now g a. hs_addServer r now \<lparr>psp_Service = g, psp_Addr = a\<rparr>" hs_getServers hs_inv
  "\<lambda>r g a. hs_removeServer r \<lparr>psp_Service = g, psp_Addr = a\<rparr>"
proof (unfold_locales, goal_cases)
  case (1 s now g k)
  then show ?case
    by (auto simp: hs_lease_def hs_items_addServer update_conv fun_eq_iff split: option.splits)
next
  case (2 s now g k)
  then show ?case by simp
next
  case (3 s now g k)
  then show ?case by (simp add: hs_inv_def hs_items_addServer)
next
  case (4 s now g)
  then have "distinct (map fst (hs_items s g))" by (simp add: hs_inv_def items_wf_def)
  then show ?case using 4 by (force simp: hs_getServers_eq hs_lease_def)
next
  case (5 s now g)
  then have "distinct (map fst (hs_items s g))" by (simp add: hs_inv_def items_wf_def)
  then show ?case using 5 by (simp add: hs_getServers_eq sorted_distinct_strict distinct_map_filter)
next
  case (6 s now g)
  then have "items_wf (hs_items s g)" by (simp add: hs_inv_def)
  then show ?case using 6
    by (auto simp: hs_getServers_eq hs_lease_def map_of_filter_alive fun_eq_iff split: option.splits)
next
  case (7 s now g)
  then show ?case by simp
next
  case (8 s now g)
  then show ?case by (simp add: hs_inv_def hs_getServers_eq items_wf_filter)
next
  case (9 s g k)
  then show ?case by (auto simp: hs_lease_def hs_items_removeServer delete_conv fun_eq_iff)
next
  case (10 s g k)
  then show ?case by simp
next
  case (11 s g k)
  then show ?case by (simp add: hs_inv_def hs_items_removeServer)
qed

subsection \<open>Histories of requests\<close>

type_synonym hs_req = "int \<times> string \<times> string \<times> hs_body"

definition hs_run :: "http_registry_server \<Rightarrow> hs_req list \<Rightarrow> http_registry_server" where
  "hs_run r reqs = foldl (\<lambda>r (t, m, s, b). fst (hs_ServeHTTP r t m s b)) r reqs"

text \<open>The full table: the time at which a node was added last to a service and not removed since.\<close>

definition hs_added :: "(string \<times> string \<rightharpoonup> int) \<Rightarrow> hs_req list \<Rightarrow> string \<times> string \<rightharpoonup> int" where
  "hs_added L reqs =
     foldl (\<lambda>L (t, m, s, b).
       case b of
         Param p \<Rightarrow>
           if m = ''POST'' then L((psp_Service p, psp_Addr p) \<mapsto> t)
           else if m = ''DELETE'' then L((psp_Service p, psp_Addr p) := None) else L
       | _ \<Rightarrow> L) L reqs"

lemma hs_step_stands_for:
  assumes "hs.stands_for r L t0" "t0 \<le> t"
  shows "hs.stands_for (fst (hs_ServeHTTP r t m s b)) (hs_added L [(t, m, s, b)]) t"
proof -
  have st: "hs.stands_for r L t" using assms by (auto simp: hs.stands_for_def intro: covers_later)
  have p: "p = \<lparr>psp_Service = psp_Service p, psp_Addr = psp_Addr p\<rparr>" for p :: post_server_param by simp
  have add: "hs.stands_for (hs_addServer r t p) (L((psp_Service p, psp_Addr p) \<mapsto> t)) t" for p
    using hs.stands_for_put [OF st order_refl] by (subst p) blast
  have rem: "hs.stands_for (hs_removeServer r p) (L((psp_Service p, psp_Addr p) := None)) t" for p
    using hs.stands_for_remove [OF st] by (subst p) blast
  show ?thesis
    using st add rem hs.stands_for_live [OF st order_refl, of s]
    by (cases b) (auto simp: hs_ServeHTTP_def hs_added_def split: prod.splits)
qed

lemma hs_run_stands_for:
  assumes "hs.stands_for r L t0" "sorted (t0 # map fst reqs @ [now])"
  shows "hs.stands_for (hs_run r reqs) (hs_added L reqs) now"
  using assms
proof (induction reqs arbitrary: r L t0)
  case Nil
  then show ?case by (auto simp: hs_run_def hs_added_def hs.stands_for_def intro: covers_later)
next
  case (Cons q reqs)
  obtain t m s b where q: "q = (t, m, s, b)" by (cases q)
  have "hs.stands_for (hs_run (fst (hs_ServeHTTP r t m s b)) reqs) (hs_added (hs_added L [(t, m, s, b)]) reqs) now"
    using Cons.prems by (intro Cons.IH [OF hs_step_stands_for]) (auto simp: q)
  then show ?case by (simp add: q hs_run_def hs_added_def)
qed

lemma hs_run_timeout: "hs_timeout (hs_run r reqs) = hs_timeout r"
proof -
  have "hs_timeout (fst (hs_ServeHTTP r t m s b)) = hs_timeout r" for r t m s b
    by (simp add: hs_ServeHTTP_def case_prod_beta split: hs_body.splits)
  then show ?thesis unfolding hs_run_def by (induction reqs arbitrary: r) auto
qed

lemma registry_server_live:
  assumes "sorted (map fst reqs @ [now])"
  shows "\<exists>servers. snd (hs_ServeHTTP (hs_run (NewHttpRegistryServer timeout) reqs) now ''GET'' service b) =
      \<lparr>hr_code = 200, hr_header = [(''Content-Type'', ''application/json'')], hr_json = Some servers\<rparr> \<and>
    sorted_wrt (<) servers \<and>
    set servers = {a. \<exists>t. hs_added Map.empty reqs (service, a) = Some t \<and> lease_alive timeout now t}"
proof -
  let ?r = "hs_run (NewHttpRegistryServer timeout) reqs"
  define t0 where "t0 = fst (hd (reqs @ [(now, '''', '''', ReadError)]))"
  have init: "hs.stands_for (NewHttpRegistryServer timeout) Map.empty t0"
    by (simp add: hs.stands_for_def NewHttpRegistryServer_def hs_inv_def hs_items_def items_wf_def covers_def hs_lease_def)
  have "sorted (t0 # map fst reqs @ [now])" using assms by (cases reqs) (auto simp: t0_def)
  then have "hs.stands_for ?r (hs_added Map.empty reqs) now" by (rule hs_run_stands_for [OF init])
  moreover have "hs_timeout ?r = timeout" by (simp add: hs_run_timeout NewHttpRegistryServer_def)
  ultimately show ?thesis
    using hs.live_full [of ?r _ now now service]
    by (auto simp: hs_ServeHTTP_def split: prod.splits)
qed

subsection \<open>Properties\<close>

text \<open>C24: what the registry server answers. After any history of requests in the order of their times a
  \<^verbatim>\<open>GET\<close> for a service returns, in increasing order, exactly the nodes that were added to that service
  less than the timeout ago and not removed since (with timeout 0: ever added and not removed).
  Requests for other services, requests with bad bodies and the deletions that listing makes do not
  matter.\<close>

theorem registry_server_lists_live:
  assumes "sorted (map fst reqs @ [now])"
  shows "\<exists>servers. snd (hs_ServeHTTP (hs_run (NewHttpRegistryServer timeout) reqs) now ''GET'' service b) =
      \<lparr>hr_code = 200, hr_header = [(''Content-Type'', ''application/json'')], hr_json = Some servers\<rparr> \<and>
    sorted_wrt (<) servers \<and>
    set servers = {a. \<exists>t. hs_added Map.empty reqs (service, a) = Some t \<and> lease_alive timeout now t}"
  using assms by (rule registry_server_live)

theorem registry_server_lists_live_witness:
  "\<exists>servers. snd (hs_ServeHTTP (hs_run (NewHttpRegistryServer 5)
       [(0, ''POST'', '''', Param \<lparr>psp_Service = ''Foo'', psp_Addr = ''n1''\<rparr>),
        (3, ''POST'', '''', Param \<lparr>psp_Service = ''Foo'', psp_Addr = ''n2''\<rparr>),
        (3, ''POST'', '''', Param \<lparr>psp_Service = ''Bar'', psp_Addr = ''n3''\<rparr>),
        (4, ''POST'', '''', Param \<lparr>psp_Service = ''Foo'', psp_Addr = ''n4''\<rparr>),
        (5, ''DELETE'', '''', Param \<lparr>psp_Service = ''Foo'', psp_Addr = ''n4''\<rparr>)]) 6 ''GET'' ''Foo'' ReadError) =
       \<lparr>hr_code = 200, hr_header = [(''Content-Type'', ''application/json'')], hr_json = Some servers\<rparr> \<and>
     set servers = {''n2''}"
proof -
  let ?reqs = "[(0, ''POST'', '''', Param \<lparr>psp_Service = ''Foo'', psp_Addr = ''n1''\<rparr>),
        (3, ''POST'', '''', Param \<lparr>psp_Service = ''Foo'', psp_Addr = ''n2''\<rparr>),
        (3, ''POST'', '''', Param \<lparr>psp_Service = ''Bar'', psp_Addr = ''n3''\<rparr>),
        (4, ''POST'', '''', Param \<lparr>psp_Service = ''Foo'', psp_Addr = ''n4''\<rparr>),
        (5, ''DELETE'', '''', Param \<lparr>psp_Service = ''Foo'', psp_Addr = ''n4''\<rparr>)] :: hs_req list"
  have "{a. \<exists>t. hs_added Map.empty ?reqs (''Foo'', a) = Some t \<and> lease_alive 5 6 t} = {''n2''}"
    by (auto simp: hs_added_def lease_alive_def)
  then show ?thesis using registry_server_lists_live [of ?reqs 6 5 "''Foo''" ReadError] by auto
qed

end
