(* ===== verification/Rotation.thy ===== *)
theory Rotation
  imports Prelude "HOL-Library.Multiset"
begin

section \<open>Choosing servers in turn\<close>

text \<open>
  The contract of a round-robin selector, which both \<^verbatim>\<open>rpc/xclient/discovery.go\<close> and
  \<^verbatim>\<open>rpcx/balancer.go\<close> implement: a call returns the server at the position modulo the number of
  servers and advances the position. The lemmas show fairness: as many calls as there are servers
  return every server exactly once, in the order of the list from the current position on.
\<close>

fun rr_run :: "('s \<Rightarrow> ('s \<times> string) option) \<Rightarrow> nat \<Rightarrow> 's \<Rightarrow> (string list \<times> 's) option" where
  "rr_run get 0 s = Some ([], s)"
| "rr_run get (Suc k) s =
     (case get s of
        None \<Rightarrow> None
      | Some (s', x) \<Rightarrow> (case rr_run get k s' of None \<Rightarrow> None | Some (xs, s'') \<Rightarrow> Some (x # xs, s'')))"

text \<open>A position that is not negative and far enough from the largest \<^verbatim>\<open>int\<close> for \<open>k\<close> steps.\<close>

definition room :: "int64 \<Rightarrow> nat \<Rightarrow> bool" where
  "room p k \<longleftrightarrow> 0 \<le> sint p \<and> sint p + int k < 2 ^ 63"

lemma sint_inc:
  assumes "sint p < 2 ^ 63 - 1"
  shows "sint (p + 1 :: int64) = sint p + 1"
proof -
  have "- (2 ^ 63) \<le> sint p" using sint_ge [of p] by simp
  then have "signed_take_bit 63 (sint p + 1) = sint p + 1"
    using assms by (intro signed_take_bit_int_eq_self) auto
  then show ?thesis using sint_word_ariths(1) [of p 1] by simp
qed

lemma room_Suc: "room p (Suc k) \<Longrightarrow> room (p + 1) k \<and> nat (sint (p + 1)) = Suc (nat (sint p))"
  using sint_inc [of p] by (auto simp: room_def)

lemma mset_rotate: "mset (rotate n xs) = mset xs"
  by (metis rotate_drop_take append_take_drop_id mset_append add.commute)

locale rotation =
  fixes servers :: "'s \<Rightarrow> string list"
    and pos :: "'s \<Rightarrow> int64"
    and get :: "'s \<Rightarrow> ('s \<times> string) option"
  assumes get_step: "servers s \<noteq> [] \<Longrightarrow> 0 \<le> sint (pos s) \<Longrightarrow>
    \<exists>s'. get s = Some (s', servers s ! (nat (sint (pos s)) mod length (servers s))) \<and>
      servers s' = servers s \<and> pos s' = pos s + 1"
begin

lemma run_values:
  assumes "servers s \<noteq> []" "room (pos s) k"
  shows "\<exists>s'. rr_run get k s =
    Some (map (\<lambda>j. servers s ! ((nat (sint (pos s)) + j) mod length (servers s))) [0..<k], s') \<and>
    servers s' = servers s \<and> pos s' = pos s + of_nat k"
  using assms
proof (induction k arbitrary: s)
  case (Suc k)
  have "0 \<le> sint (pos s)" using Suc.prems(2) by (simp add: room_def)
  then obtain s1 where s1: "get s = Some (s1, servers s ! (nat (sint (pos s)) mod length (servers s)))"
    "servers s1 = servers s" "pos s1 = pos s + 1" using get_step Suc.prems(1) by blast
  have r: "room (pos s1) k" "nat (sint (pos s1)) = Suc (nat (sint (pos s)))"
    using room_Suc [OF Suc.prems(2)] s1(3) by auto
  have "map (\<lambda>j. servers s ! ((Suc (nat (sint (pos s))) + j) mod length (servers s))) [0..<k] =
      map (\<lambda>j. servers s ! ((nat (sint (pos s)) + j) mod length (servers s))) (map Suc [0..<k])" by simp
  then show ?case
    using Suc.IH [of s1] Suc.prems(1) s1 r
    by (auto simp: map_Suc_upt upt_conv_Cons simp del: upt_Suc map_map)
qed simp

text \<open>One round.\<close>

lemma round_values:
  assumes "servers s \<noteq> []" "room (pos s) (length (servers s))"
  shows "\<exists>s'. rr_run get (length (servers s)) s = Some (rotate (nat (sint (pos s))) (servers s), s')"
proof -
  have "map (\<lambda>j. servers s ! ((p + j) mod length (servers s))) [0..<length (servers s)] = rotate p (servers s)" for p
    by (rule nth_equalityI) (simp_all add: nth_rotate)
  then show ?thesis using run_values [OF assms] by auto
qed

end

end
