(* ===== verification/Discovery.thy ===== *)
theory Discovery
  imports Rotation
begin

section \<open>Discovery of servers (\<^verbatim>\<open>rpc/xclient/discovery.go\<close>, \<^verbatim>\<open>rpc/xclient/discovery_gee.go\<close>)\<close>

text \<open>
  \<^verbatim>\<open>MultiServersDiscovery\<close> chooses from a list of servers, at random or in turn;
  \<^verbatim>\<open>GeeRegistryDiscovery\<close> fetches the list from a registry when its copy is too old. The random number
  generator is an argument \<open>intn\<close>, a function of its state \<open>'r\<close>; what is used of it is that \<open>intn n\<close> is
  at least 0 and less than \<open>n\<close>. The times are arguments. \<^const>\<open>None\<close> as a result is a panic, an error
  is its message.
\<close>

subsection \<open>\<^verbatim>\<open>MultiServersDiscovery\<close>\<close>

type_synonym 'r intn = "int \<Rightarrow> 'r \<Rightarrow> int \<times> 'r"

text \<open>\<^verbatim>\<open>SelectMode\<close> is an \<^verbatim>\<open>int\<close>.\<close>

definition RandomSelect :: int where "RandomSelect = 0"
definition RoundRobinSelect :: int where "RoundRobinSelect = 1"

record 'r multi_disc =
  ms_r :: 'r
  ms_servers :: "string list"
  ms_index :: int64

definition ms_New :: "'r intn \<Rightarrow> 'r \<Rightarrow> string list \<Rightarrow> 'r multi_disc" where
  "ms_New intn r servers =
     (let (i, r') = intn (2147483647 - 1) r
      in \<lparr>ms_r = r', ms_servers = servers, ms_index = word_of_int i\<rparr>)"

definition ms_Refresh :: "'r multi_disc \<Rightarrow> string option" where
  "ms_Refresh d = None"

definition ms_Update :: "'r multi_disc \<Rightarrow> string list \<Rightarrow> 'r multi_disc" where
  "ms_Update d servers = d\<lparr>ms_servers := servers\<rparr>"

definition ms_GetAll :: "'r multi_disc \<Rightarrow> string + string list" where
  "ms_GetAll d = Inr (ms_servers d)"

definition ms_Get :: "'r intn \<Rightarrow> 'r multi_disc \<Rightarrow> int \<Rightarrow> ('r multi_disc \<times> (string + string)) option" where
  "ms_Get intn d mode =
     (if length (ms_servers d) = 0 then Some (d, Inl ''rpc discovery: no available servers'')
      else if mode = RandomSelect then
        (let (k, r') = intn (int (length (ms_servers d))) (ms_r d)
         in case go_index (ms_servers d) k of
              None \<Rightarrow> None
            | Some server \<Rightarrow> Some (d\<lparr>ms_r := r'\<rparr>, Inr server))
      else if mode = RoundRobinSelect then
        (let index = go_rem (sint (ms_index d)) (int (length (ms_servers d)))
         in case go_index (ms_servers d) index of
              None \<Rightarrow> None
            | Some server \<Rightarrow> Some (d\<lparr>ms_index := ms_index d + 1\<rparr>, Inr server))
      else Some (d, Inl ''rpc discovery: unknown select mode''))"

subsection \<open>\<^verbatim>\<open>GeeRegistryDiscovery\<close>\<close>

text \<open>\<open>gd_lastUpdate\<close> is \<^const>\<open>None\<close> for the zero time of Go, which is long past. A registry is asked by an
  HTTP client that fails or returns the header of a response; the status is not looked at.\<close>

record 'r gee_disc =
  gd_multi :: "'r multi_disc"
  gd_registry :: string
  gd_timeout :: int
  gd_lastUpdate :: "int option"

type_synonym 'w header_client = "string \<Rightarrow> 'w \<Rightarrow> (string + (string \<times> string) list) \<times> 'w"

definition header_get :: "(string \<times> string) list \<Rightarrow> string \<Rightarrow> string" where
  "header_get h k = (case map_of h k of None \<Rightarrow> '''' | Some v \<Rightarrow> v)"

definition defaultUpdateTimeout :: int where "defaultUpdateTimeout = 10 * 1000000000"

definition gd_New :: "'r intn \<Rightarrow> 'r \<Rightarrow> string \<Rightarrow> int \<Rightarrow> 'r gee_disc" where
  "gd_New intn r registerAddr timeout =
     (let timeout = (if timeout = 0 then defaultUpdateTimeout else timeout)
      in \<lparr>gd_multi = ms_New intn r [], gd_registry = registerAddr, gd_timeout = timeout, gd_lastUpdate = None\<rparr>)"

definition gd_Update :: "'r gee_disc \<Rightarrow> string list \<Rightarrow> int \<Rightarrow> 'r gee_disc" where
  "gd_Update d servers now = d\<lparr>gd_multi := (gd_multi d)\<lparr>ms_servers := servers\<rparr>, gd_lastUpdate := Some now\<rparr>"

text \<open>\<^verbatim>\<open>strings.TrimSpace\<close> on ASCII white space (bytes of other Unicode spaces are not trimmed here).\<close>

definition is_space :: "char \<Rightarrow> bool" where
  "is_space c \<longleftrightarrow> c \<in> {CHR 0x09, CHR 0x0A, CHR 0x0B, CHR 0x0C, CHR 0x0D, CHR '' ''}"

definition strings_TrimSpace :: "string \<Rightarrow> string" where
  "strings_TrimSpace s = rev (dropWhile is_space (rev (dropWhile is_space s)))"

fun gd_collect :: "string list \<Rightarrow> string list \<Rightarrow> string list" where
  "gd_collect [] acc = acc"
| "gd_collect (server # rest) acc =
     gd_collect rest (if strings_TrimSpace server \<noteq> '''' then acc @ [strings_TrimSpace server] else acc)"

text \<open>\<open>now\<close> is the time of the check and \<open>now'\<close> the time after the response.\<close>

definition gd_Refresh ::
  "'w header_client \<Rightarrow> 'r gee_disc \<Rightarrow> int \<Rightarrow> int \<Rightarrow> 'w \<Rightarrow> 'r gee_disc \<times> string option \<times> 'w" where
  "gd_Refresh http_get d now now' w =
     (if (case gd_lastUpdate d of None \<Rightarrow> False | Some t \<Rightarrow> t + gd_timeout d > now) then (d, None, w)
      else
        case http_get (gd_registry d) w of
          (Inl err, w') \<Rightarrow> (d, Some err, w')
        | (Inr hdr, w') \<Rightarrow>
            let servers = strings_Split (header_get hdr ''X-Rpc-Servers'') CHR '',''
            in (d\<lparr>gd_multi := (gd_multi d)\<lparr>ms_servers := gd_collect servers []\<rparr>, gd_lastUpdate := Some now'\<rparr>, None, w'))"

definition gd_Get ::
  "'r intn \<Rightarrow> 'w header_client \<Rightarrow> 'r gee_disc \<Rightarrow> int \<Rightarrow> int \<Rightarrow> int \<Rightarrow> 'w \<Rightarrow> ('r gee_disc \<times> (string + string) \<times> 'w) option" where
  "gd_Get intn http_get d mode now now' w =
     (case gd_Refresh http_get d now now' w of
        (d', Some err, w') \<Rightarrow> Some (d', Inl err, w')
      | (d', None, w') \<Rightarrow>
          (case ms_Get intn (gd_multi d') mode of
             None \<Rightarrow> None
           | Some (m, r) \<Rightarrow> Some (d'\<lparr>gd_multi := m\<rparr>, r, w')))"

definition gd_GetAll ::
  "'w header_client \<Rightarrow> 'r gee_disc \<Rightarrow> int \<Rightarrow> int \<Rightarrow> 'w \<Rightarrow> 'r gee_disc \<times> (string + string list) \<times> 'w" where
  "gd_GetAll http_get d now now' w =
     (case gd_Refresh http_get d now now' w of
        (d', Some err, w') \<Rightarrow> (d', Inl err, w')
      | (d', None, w') \<Rightarrow> (d', ms_GetAll (gd_multi d'), w'))"

subsection \<open>Facts\<close>

text \<open>A discovery in round-robin mode is a rotation.\<close>

definition ms_next :: "'r intn \<Rightarrow> 'r multi_disc \<Rightarrow> ('r multi_disc \<times> string) option" where
  "ms_next intn d =
     (case ms_Get intn d RoundRobinSelect of Some (d', Inr s) \<Rightarrow> Some (d', s) | _ \<Rightarrow> None)"

interpretation ms: rotation ms_servers ms_index "ms_next intn"
  by unfold_locales (simp add: ms_next_def ms_Get_def RandomSelect_def RoundRobinSelect_def go_index_mod)

lemma ms_New_fields:
  assumes "intn (2147483647 - 1) r = (i, r')" "0 \<le> i" "i < 2147483647 - 1"
  shows "ms_servers (ms_New intn r servers) = servers" "sint (ms_index (ms_New intn r servers)) = i"
proof -
  show "ms_servers (ms_New intn r servers) = servers" using assms(1) by (simp add: ms_New_def)
  have "signed_take_bit 63 i = i" using assms(2,3) by (intro signed_take_bit_int_eq_self) auto
  then show "sint (ms_index (ms_New intn r servers)) = i"
    using assms(1) by (simp add: ms_New_def sint_sbintrunc')
qed

text \<open>The list of a registry, split and trimmed.\<close>

definition clean_addr :: "string \<Rightarrow> bool" where
  "clean_addr a \<longleftrightarrow> a \<noteq> '''' \<and> CHR '','' \<notin> set a \<and> \<not> is_space (hd a) \<and> \<not> is_space (last a)"

lemma TrimSpace_clean: "clean_addr a \<Longrightarrow> strings_TrimSpace a = a"
  unfolding clean_addr_def strings_TrimSpace_def
  by (cases a) (auto simp: dropWhile_eq_self_iff hd_append hd_rev split: if_splits)

lemma gd_collect_clean: "list_all clean_addr as \<Longrightarrow> gd_collect as acc = acc @ as"
  by (induction as acc rule: gd_collect.induct) (auto simp: TrimSpace_clean clean_addr_def [of "[]"])

lemma gd_collect_Join:
  assumes "list_all clean_addr as"
  shows "gd_collect (strings_Split (strings_Join as '','') CHR '','') [] = as"
proof (cases "as = []")
  case False
  have "strings_Split (strings_Join as '','') CHR '','' = as"
    using assms by (intro Split_Join [OF False]) (auto simp: list_all_iff clean_addr_def)
  then show ?thesis using gd_collect_clean [OF assms, of "[]"] by simp
qed (simp add: strings_TrimSpace_def)

subsection \<open>Properties\<close>

text \<open>Round-robin selection is fair. As many calls as there are servers, from any position of the
  counter that \<^verbatim>\<open>NewMultiServerDiscovery\<close> can draw, return the servers in the order of the list from
  that position on: every server exactly once. An empty list and an unknown mode are errors, and a
  random choice is one of the servers.\<close>

theorem discovery_fair:
  assumes "\<And>n r. 0 < n \<Longrightarrow> 0 \<le> fst (intn n r) \<and> fst (intn n r) < n"
    and "length servers < 2 ^ 62" and "servers \<noteq> []" and d_def: "d = ms_New intn r servers"
  shows "(\<exists>d'. rr_run (ms_next intn) (length servers) d = Some (rotate (nat (sint (ms_index d))) servers, d')) \<and>
    mset (rotate (nat (sint (ms_index d))) servers) = mset servers \<and>
    (\<exists>d' s. ms_Get intn d RandomSelect = Some (d', Inr s) \<and> s \<in> set servers) \<and>
    ms_Get intn (ms_Update d []) mode = Some (ms_Update d [], Inl ''rpc discovery: no available servers'') \<and>
    (mode \<notin> {RandomSelect, RoundRobinSelect} \<longrightarrow>
       ms_Get intn d mode = Some (d, Inl ''rpc discovery: unknown select mode''))"
proof -
  obtain i r' where i: "intn (2147483647 - 1) r = (i, r')" by (cases "intn (2147483647 - 1) r")
  have b: "0 \<le> i" "i < 2147483647 - 1" using assms(1) [of "2147483647 - 1" r] i by auto
  note f = ms_New_fields [where intn = intn and servers = servers, OF i b, folded d_def]
  have room: "room (ms_index d) (length servers)" using assms(2) b by (simp add: room_def f)
  obtain k r'' where k: "intn (int (length servers)) (ms_r d) = (k, r'')" by (cases "intn (int (length servers)) (ms_r d)")
  have "0 \<le> k" "k < int (length servers)" using assms(1) [of "int (length servers)" "ms_r d"] assms(3) k by auto
  then have "\<exists>s. go_index servers k = Some s \<and> s \<in> set servers" by (auto simp: go_index_def)
  then show ?thesis
    using ms.round_values [of d intn] room assms(3) k f(1)
    by (auto simp: ms_Get_def ms_Update_def RandomSelect_def RoundRobinSelect_def mset_rotate)
qed

theorem discovery_fair_witness:
  "\<exists>d'. rr_run (ms_next (\<lambda>n r. (r mod n, r + 1))) 3 (ms_New (\<lambda>n r. (r mod n, r + 1)) 4 [''a'', ''b'', ''c'']) =
     Some ([''b'', ''c'', ''a''], d')"
proof -
  let ?intn = "\<lambda>n r :: int. (r mod n, r + 1)" and ?servers = "[''a'', ''b'', ''c'']"
  let ?d = "ms_New ?intn 4 ?servers"
  have i: "sint (ms_index ?d) = 4" by (rule ms_New_fields(2) [of _ _ 4 5]) simp_all
  have r: "rotate (nat 4) ?servers = [''b'', ''c'', ''a'']" and l: "length ?servers = 3" by code_simp+
  have "\<exists>d'. rr_run (ms_next ?intn) (length ?servers) ?d = Some (rotate (nat (sint (ms_index ?d))) ?servers, d')"
    by (rule discovery_fair [THEN conjunct1]) simp_all
  then show ?thesis unfolding i r l .
qed

end
