(* ===== verification/Balancer.thy ===== *)
theory Balancer
  imports Rotation
begin

section \<open>Load balancers (\<^verbatim>\<open>rpcx/balancer.go\<close>)\<close>

text \<open>
  The interface \<^verbatim>\<open>Balancer\<close> with its two implementations, as a datatype with one constructor for each.
  \<^const>\<open>None\<close> is a panic: \<^verbatim>\<open>Intn\<close> of 0, a division by zero, an index out of range. The random number
  generator is an argument, as in the discovery.
\<close>

definition bal_RandomSelect :: int where "bal_RandomSelect = 0"
definition bal_RoundRobinSelect :: int where "bal_RoundRobinSelect = 1"

record 'r random_balancer =
  rb_r :: 'r
  rb_servers :: "string list"

record rr_balancer =
  rr_index :: int64
  rr_servers :: "string list"

datatype 'r balancer = RandomB "'r random_balancer" | RoundRobinB rr_balancer

definition NewRandomBalancer :: "'r \<Rightarrow> 'r random_balancer" where
  "NewRandomBalancer r = \<lparr>rb_r = r, rb_servers = []\<rparr>"

definition NewRoundRobinBalancer :: rr_balancer where
  "NewRoundRobinBalancer = \<lparr>rr_index = 0, rr_servers = []\<rparr>"

definition NewBalancer :: "'r \<Rightarrow> int \<Rightarrow> 'r balancer option" where
  "NewBalancer r mode =
     (if mode = bal_RandomSelect then Some (RandomB (NewRandomBalancer r))
      else if mode = bal_RoundRobinSelect then Some (RoundRobinB NewRoundRobinBalancer)
      else None)"

definition rb_Get :: "(int \<Rightarrow> 'r \<Rightarrow> int \<times> 'r) \<Rightarrow> 'r random_balancer \<Rightarrow> ('r random_balancer \<times> string) option" where
  "rb_Get intn s =
     (if rb_servers s = [] then None
      else let (index, r') = intn (int (length (rb_servers s))) (rb_r s)
           in map_option (\<lambda>server. (s\<lparr>rb_r := r'\<rparr>, server)) (go_index (rb_servers s) index))"

definition rr_Get :: "rr_balancer \<Rightarrow> (rr_balancer \<times> string) option" where
  "rr_Get s =
     (if rr_servers s = [] then None
      else let index = go_rem (sint (rr_index s)) (int (length (rr_servers s)))
           in map_option (\<lambda>server. (s\<lparr>rr_index := rr_index s + 1\<rparr>, server)) (go_index (rr_servers s) index))"

fun bal_Get :: "(int \<Rightarrow> 'r \<Rightarrow> int \<times> 'r) \<Rightarrow> 'r balancer \<Rightarrow> ('r balancer \<times> string) option" where
  "bal_Get intn (RandomB s) = map_option (\<lambda>(s', x). (RandomB s', x)) (rb_Get intn s)"
| "bal_Get intn (RoundRobinB s) = map_option (\<lambda>(s', x). (RoundRobinB s', x)) (rr_Get s)"

fun bal_Reset :: "'r balancer \<Rightarrow> string list \<Rightarrow> 'r balancer" where
  "bal_Reset (RandomB s) servers = RandomB (s\<lparr>rb_servers := servers\<rparr>)"
| "bal_Reset (RoundRobinB s) servers = RoundRobinB (s\<lparr>rr_servers := servers\<rparr>)"

interpretation rr: rotation rr_servers rr_index rr_Get
  by unfold_locales (simp add: rr_Get_def go_index_mod)

lemma bal_run_rr:
  "rr_run (bal_Get intn) k (RoundRobinB s) = map_option (\<lambda>(xs, s'). (xs, RoundRobinB s')) (rr_run rr_Get k s)"
  by (induction k arbitrary: s) (auto split: option.splits)

lemma bal_Get_servers:
  assumes "\<And>n r. 0 < n \<Longrightarrow> 0 \<le> fst (intn n r) \<and> fst (intn n r) < n" "servers \<noteq> []"
  shows "\<exists>b' s. bal_Get intn (RandomB (b\<lparr>rb_servers := servers\<rparr>)) = Some (b', s) \<and> s \<in> set servers"
proof -
  obtain k r'' where k: "intn (int (length servers)) (rb_r b) = (k, r'')" by (cases "intn (int (length servers)) (rb_r b)")
  have "0 \<le> k" "k < int (length servers)" using assms(1) [of "int (length servers)" "rb_r b"] assms(2) k by auto
  then show ?thesis using assms(2) k by (auto simp: rb_Get_def go_index_def)
qed

subsection \<open>Properties\<close>

text \<open>A balancer serves from the list it was last given. After \<^verbatim>\<open>Reset\<close> a round-robin balancer
  that has made \<open>k\<close> choices returns every server once in the next round, starting at position \<open>k\<close>;
  a random balancer returns one of the servers. On an empty list both panic, and so does
  \<^verbatim>\<open>NewBalancer\<close> on any other mode.\<close>

theorem balancer_fair:
  assumes "\<And>n r. 0 < n \<Longrightarrow> 0 \<le> fst (intn n r) \<and> fst (intn n r) < n"
    and "servers \<noteq> []" and "sint k + int (length servers) < 2 ^ 63" and "0 \<le> sint k"
  shows "(\<exists>b'. rr_run (bal_Get intn) (length servers) (bal_Reset (RoundRobinB \<lparr>rr_index = k, rr_servers = old\<rparr>) servers) =
        Some (rotate (nat (sint k)) servers, b')) \<and>
    mset (rotate (nat (sint k)) servers) = mset servers \<and>
    (\<exists>b' s. bal_Get intn (bal_Reset (RandomB b) servers) = Some (b', s) \<and> s \<in> set servers) \<and>
    (\<forall>b. bal_Get intn (bal_Reset b []) = None) \<and>
    (NewBalancer r mode = None \<longleftrightarrow> mode \<notin> {bal_RandomSelect, bal_RoundRobinSelect})"
proof -
  let ?b = "\<lparr>rr_index = k, rr_servers = servers\<rparr>"
  have "\<exists>s'. rr_run rr_Get (length servers) ?b = Some (rotate (nat (sint k)) servers, s')"
    using rr.round_values [of ?b] assms(2-4) by (simp add: room_def)
  moreover have "bal_Get intn (bal_Reset b []) = None" for b by (cases b) (simp_all add: rb_Get_def rr_Get_def)
  ultimately show ?thesis
    using bal_Get_servers [where intn = intn and b = b, OF assms(1,2)]
    by (auto simp: bal_run_rr mset_rotate NewBalancer_def)
qed

theorem balancer_fair_witness:
  "\<exists>b'. rr_run (bal_Get (\<lambda>n r. (r mod n, r + 1 :: int))) 2
     (bal_Reset (RoundRobinB \<lparr>rr_index = 3, rr_servers = []\<rparr>) [''a'', ''b'']) = Some ([''b'', ''a''], b')"
proof -
  let ?servers = "[''a'', ''b'']"
  have i: "sint (3 :: int64) = 3" by simp
  have r: "rotate (nat 3) ?servers = [''b'', ''a'']" and l: "length ?servers = 2" by code_simp+
  have "\<exists>b'. rr_run (bal_Get (\<lambda>n r. (r mod n, r + 1 :: int))) (length ?servers)
      (bal_Reset (RoundRobinB \<lparr>rr_index = 3, rr_servers = []\<rparr>) ?servers) = Some (rotate (nat (sint (3 :: int64))) ?servers, b')"
    by (rule balancer_fair [THEN conjunct1]) simp_all
  then show ?thesis unfolding i r l .
qed

end
