(* ===== verification/Service.thy ===== *)
theory Service
  imports Prelude
begin

section \<open>Services and their methods (\<^verbatim>\<open>rpc/service.go\<close>, \<^verbatim>\<open>rpcx/service.go\<close>)\<close>

text \<open>
  A service is made from a receiver by reflection: its methods that look like remote methods are
  entered into a table. The part of \<^verbatim>\<open>reflect\<close> that is used (types with kind, name, package path
  and element type; methods with their signature) is modelled. Method bodies are functions of
  the argument: they return an error message or the value they leave in the reply, and
  \<^const>\<open>None\<close> when they do not return. The two files differ in one function only,
  \<^verbatim>\<open>isExportedOrBuiltinType\<close>, so the loop over the methods takes that function as an argument.
\<close>

subsection \<open>reflect.Type\<close>

text \<open>A predeclared type (\<^verbatim>\<open>int\<close>, \<^verbatim>\<open>error\<close>, ...), a type defined in a package with its underlying type, and
  the unnamed types.\<close>

datatype gotype =
    TBasic string
  | TNamed string string gotype
  | TStruct
  | TPtr gotype
  | TMap gotype gotype
  | TSlice gotype
  | TArray gotype
  | TChan gotype
  | TFunc

datatype gokind = KBasic | KStruct | KPtr | KMap | KSlice | KArray | KChan | KFunc

fun ty_Kind :: "gotype \<Rightarrow> gokind" where
  "ty_Kind (TBasic _) = KBasic"
| "ty_Kind (TNamed _ _ u) = ty_Kind u"
| "ty_Kind TStruct = KStruct"
| "ty_Kind (TPtr _) = KPtr"
| "ty_Kind (TMap _ _) = KMap"
| "ty_Kind (TSlice _) = KSlice"
| "ty_Kind (TArray _) = KArray"
| "ty_Kind (TChan _) = KChan"
| "ty_Kind TFunc = KFunc"

fun ty_Name :: "gotype \<Rightarrow> string" where
  "ty_Name (TBasic n) = n"
| "ty_Name (TNamed _ n _) = n"
| "ty_Name _ = ''''"

fun ty_PkgPath :: "gotype \<Rightarrow> string" where
  "ty_PkgPath (TNamed p _ _) = p"
| "ty_PkgPath _ = ''''"

text \<open>\<^verbatim>\<open>Elem\<close> panics (\<^const>\<open>None\<close>) on a type that has no element type.\<close>

fun ty_Elem :: "gotype \<Rightarrow> gotype option" where
  "ty_Elem (TNamed _ _ u) = ty_Elem u"
| "ty_Elem (TPtr t) = Some t"
| "ty_Elem (TMap _ t) = Some t"
| "ty_Elem (TSlice t) = Some t"
| "ty_Elem (TArray t) = Some t"
| "ty_Elem (TChan t) = Some t"
| "ty_Elem _ = None"

definition error_type :: gotype where "error_type = TBasic ''error''"

text \<open>\<^verbatim>\<open>ast.IsExported\<close>: the first letter is upper case (for names that start with an ASCII character).\<close>

definition ast_IsExported :: "string \<Rightarrow> bool" where
  "ast_IsExported n \<longleftrightarrow> (case n of [] \<Rightarrow> False | c # _ \<Rightarrow> (let x = of_char c :: nat in 65 \<le> x \<and> x \<le> 90))"

subsection \<open>Methods and services\<close>

text \<open>\<^verbatim>\<open>reflect.Method\<close>: the types of the parameters, the receiver first, and of the results.\<close>

record 'v reflect_method =
  rm_Name :: string
  rm_IsExported :: bool
  rm_In :: "gotype list"
  rm_Out :: "gotype list"
  rm_Func :: "'v \<Rightarrow> (string + 'v) option"

record 'v method_type =
  mt_method :: "'v reflect_method"
  mt_ArgType :: gotype
  mt_ReplyType :: gotype
  mt_numCalls :: uint64

record 'v service =
  sv_name :: string
  sv_method :: "(string, 'v method_type) gomap"

text \<open>What \<^verbatim>\<open>newService\<close> sees of a receiver: the name of its type (pointers removed) and the methods.\<close>

record 'v receiver =
  rc_name :: string
  rc_methods :: "'v reflect_method list"

definition mt_NumCalls :: "'v method_type \<Rightarrow> uint64" where
  "mt_NumCalls m = mt_numCalls m"

text \<open>The type of the value that \<^verbatim>\<open>newArgv\<close> and \<^verbatim>\<open>newReplyv\<close> make; \<open>replyv_init\<close> says what it is set to.\<close>

definition mt_newArgv :: "'v method_type \<Rightarrow> gotype option" where
  "mt_newArgv m =
     (if ty_Kind (mt_ArgType m) = KPtr then map_option TPtr (ty_Elem (mt_ArgType m))
      else Some (mt_ArgType m))"

datatype replyv_init = Zero | EmptyMap | EmptySlice

definition mt_newReplyv :: "'v method_type \<Rightarrow> (gotype \<times> replyv_init) option" where
  "mt_newReplyv m =
     (case ty_Elem (mt_ReplyType m) of
        None \<Rightarrow> None
      | Some t \<Rightarrow> Some (TPtr t, if ty_Kind t = KMap then EmptyMap else if ty_Kind t = KSlice then EmptySlice else Zero))"

definition isExportedOrBuiltinType :: "gotype \<Rightarrow> bool" where
  "isExportedOrBuiltinType t \<longleftrightarrow> ast_IsExported (ty_Name t) \<or> ty_PkgPath t = ''''"

text \<open>In \<^verbatim>\<open>rpcx\<close> pointers are removed first (a pointer type defined in a package included).\<close>

fun strip_ptr :: "gotype \<Rightarrow> gotype" where
  "strip_ptr (TPtr t) = strip_ptr t"
| "strip_ptr (TNamed p n u) = (if ty_Kind u = KPtr then strip_ptr u else TNamed p n u)"
| "strip_ptr t = t"

definition x_isExportedOrBuiltinType :: "gotype \<Rightarrow> bool" where
  "x_isExportedOrBuiltinType t0 \<longleftrightarrow>
     (let t = strip_ptr t0 in ast_IsExported (ty_Name t) \<or> ty_PkgPath t = '''')"

text \<open>One round of the loop in \<^verbatim>\<open>registerMethods\<close>.\<close>

definition register_method ::
  "(gotype \<Rightarrow> bool) \<Rightarrow> (string, 'v method_type) gomap \<Rightarrow> 'v reflect_method \<Rightarrow> (string, 'v method_type) gomap" where
  "register_method ok ms method =
     (if \<not> rm_IsExported method then ms
      else if length (rm_In method) \<noteq> 3 \<or> length (rm_Out method) \<noteq> 1 then ms
      else if rm_Out method ! 0 \<noteq> error_type then ms
      else
        let argType = rm_In method ! 1; replyType = rm_In method ! 2
        in if \<not> ok argType \<or> \<not> ok replyType then ms
           else AList.update (rm_Name method)
                  \<lparr>mt_method = method, mt_ArgType = argType, mt_ReplyType = replyType, mt_numCalls = 0\<rparr> ms)"

definition registerMethods ::
  "'v service \<Rightarrow> 'v reflect_method list \<Rightarrow> 'v service" where
  "registerMethods s methods =
     s\<lparr>sv_method := foldl (register_method isExportedOrBuiltinType) (sv_method s) methods\<rparr>"

definition x_registerMethods ::
  "'v service \<Rightarrow> 'v reflect_method list \<Rightarrow> 'v service" where
  "x_registerMethods s methods =
     s\<lparr>sv_method := foldl (register_method x_isExportedOrBuiltinType) (sv_method s) methods\<rparr>"

text \<open>\<^const>\<open>None\<close>: \<^verbatim>\<open>log.Fatalf\<close> ends the process.\<close>

definition newService :: "'v receiver \<Rightarrow> 'v service option" where
  "newService rcvr =
     (let s = \<lparr>sv_name = rc_name rcvr, sv_method = []\<rparr>
      in if \<not> ast_IsExported (sv_name s) then None else Some (registerMethods s (rc_methods rcvr)))"

definition x_newService :: "'v receiver \<Rightarrow> 'v service option" where
  "x_newService rcvr =
     (let s = \<lparr>sv_name = rc_name rcvr, sv_method = []\<rparr>
      in if \<not> ast_IsExported (sv_name s) then None else Some (x_registerMethods s (rc_methods rcvr)))"

text \<open>The counter wraps around at \<open>2 ^ 64\<close>.\<close>

definition service_call :: "'v method_type \<Rightarrow> 'v \<Rightarrow> 'v method_type \<times> (string + 'v) option" where
  "service_call m argv = (m\<lparr>mt_numCalls := mt_numCalls m + 1\<rparr>, rm_Func (mt_method m) argv)"

text \<open>The same functions of \<^verbatim>\<open>rpcx/service.go\<close>; they come out equal.\<close>

definition x_NumCalls :: "'v method_type \<Rightarrow> uint64" where
  "x_NumCalls m = mt_numCalls m"

definition x_newArgv :: "'v method_type \<Rightarrow> gotype option" where
  "x_newArgv m =
     (if ty_Kind (mt_ArgType m) = KPtr then map_option TPtr (ty_Elem (mt_ArgType m))
      else Some (mt_ArgType m))"

definition x_newReplyv :: "'v method_type \<Rightarrow> (gotype \<times> replyv_init) option" where
  "x_newReplyv m =
     (case ty_Elem (mt_ReplyType m) of
        None \<Rightarrow> None
      | Some t \<Rightarrow>
          Some (TPtr t, case ty_Kind t of KMap \<Rightarrow> EmptyMap | KSlice \<Rightarrow> EmptySlice | _ \<Rightarrow> Zero))"

definition x_service_call :: "'v method_type \<Rightarrow> 'v \<Rightarrow> 'v method_type \<times> (string + 'v) option" where
  "x_service_call m argv = (m\<lparr>mt_numCalls := mt_numCalls m + 1\<rparr>, rm_Func (mt_method m) argv)"

lemma x_service_eqs [simp]:
  "x_NumCalls m = mt_NumCalls m" "x_newArgv m = mt_newArgv m" "x_newReplyv m = mt_newReplyv m"
  "x_service_call m v = service_call m v"
  by (simp_all add: x_NumCalls_def mt_NumCalls_def x_newArgv_def mt_newArgv_def x_newReplyv_def mt_newReplyv_def
      x_service_call_def service_call_def split: option.splits gokind.splits)

text \<open>The line that \<^verbatim>\<open>debugMethod\<close> logs, in each package; \<^const>\<open>None\<close> is the panic of \<^verbatim>\<open>Elem\<close>. The receiver is the first
  parameter of a method and is skipped.\<close>

definition debugMethod :: "gotype \<Rightarrow> 'v reflect_method \<Rightarrow> string option" where
  "debugMethod typ method =
     (let argv = map (\<lambda>j. ty_Name (rm_In method ! j)) [1..<length (rm_In method)];
          returns = map (\<lambda>j. ty_Name (rm_Out method ! j)) [0..<length (rm_Out method)]
      in map_option (\<lambda>e. ''func (p *'' @ ty_Name e @ '') '' @ rm_Name method @ ''('' @ strings_Join argv '','' @ '') '' @ strings_Join returns '','')
           (ty_Elem typ))"

definition x_debugMethod :: "gotype \<Rightarrow> 'v reflect_method \<Rightarrow> string option" where
  "x_debugMethod typ method =
     (case ty_Elem typ of
        None \<Rightarrow> None
      | Some e \<Rightarrow>
          (let argv = map (\<lambda>j. ty_Name (rm_In method ! j)) [1..<length (rm_In method)];
               returns = map (\<lambda>j. ty_Name (rm_Out method ! j)) [0..<length (rm_Out method)]
           in Some (''func (p *'' @ ty_Name e @ '') '' @ rm_Name method @ ''('' @ strings_Join argv '','' @ '') '' @ strings_Join returns '','')))"

lemma map_from_1: "map (\<lambda>j. f (xs ! j)) [1..<length xs] = map f (tl xs)"
  by (rule nth_equalityI) (simp_all add: nth_tl)

lemma x_debugMethod_same: "x_debugMethod typ method = debugMethod typ method"
  by (simp add: debugMethod_def x_debugMethod_def Let_def split: option.splits)

text \<open>The types of a remote method are named without their packages, and the pointer to the reply has no name.\<close>

lemma debugMethod_remote:
  assumes "rm_In m = [TPtr (TNamed pkg t u), TNamed pkg' a u', TPtr r]" "rm_Out m = [error_type]"
  shows "debugMethod (TPtr (TNamed pkg t u)) m = Some (''func (p *'' @ t @ '') '' @ rm_Name m @ ''('' @ a @ '',) error'')"
  using assms by (simp add: debugMethod_def Let_def map_from_1 error_type_def)

subsection \<open>Facts\<close>

text \<open>The signature that makes a method a remote method.\<close>

definition remote_method :: "(gotype \<Rightarrow> bool) \<Rightarrow> 'v reflect_method \<Rightarrow> bool" where
  "remote_method ok m \<longleftrightarrow> rm_IsExported m \<and>
     (\<exists>rcv arg reply. rm_In m = [rcv, arg, reply] \<and> ok arg \<and> ok reply) \<and> rm_Out m = [error_type]"

definition method_entry :: "'v reflect_method \<Rightarrow> 'v method_type" where
  "method_entry m = \<lparr>mt_method = m, mt_ArgType = rm_In m ! 1, mt_ReplyType = rm_In m ! 2, mt_numCalls = 0\<rparr>"

lemma length_3_conv: "length xs = 3 \<longleftrightarrow> (\<exists>a b c. xs = [a, b, c])"
  by (auto simp: numeral_3_eq_3 length_Suc_conv)

lemma register_method_eq:
  "register_method ok ms m = (if remote_method ok m then AList.update (rm_Name m) (method_entry m) ms else ms)"
  by (auto simp: register_method_def remote_method_def method_entry_def length_3_conv length_Suc_conv Let_def)

lemma register_methods_lookup:
  assumes "distinct (map rm_Name methods)"
  shows "map_of (foldl (register_method ok) ms methods) n =
    (case find (\<lambda>m. rm_Name m = n \<and> remote_method ok m) methods of
       Some m \<Rightarrow> Some (method_entry m) | None \<Rightarrow> map_of ms n)"
  using assms
proof (induction methods arbitrary: ms)
  case (Cons m methods)
  have none: "find (\<lambda>m'. rm_Name m' = rm_Name m \<and> remote_method ok m') methods = None"
    using Cons.prems by (auto simp: find_None_iff) (metis imageI)
  show ?case
    using Cons none by (auto simp: register_method_eq update_conv split: option.splits)
qed simp

text \<open>A reply type from which \<^verbatim>\<open>newReplyv\<close> can make a value.\<close>

lemma newReplyv_None_iff: "mt_newReplyv m = None \<longleftrightarrow> ty_Kind (mt_ReplyType m) \<in> {KBasic, KStruct, KFunc}"
proof -
  have "ty_Elem t = None \<longleftrightarrow> ty_Kind t \<in> {KBasic, KStruct, KFunc}" for t by (induction t) auto
  from this [of "mt_ReplyType m"] show ?thesis
    by (cases "ty_Elem (mt_ReplyType m)") (simp_all add: mt_newReplyv_def)
qed

lemma find_Some_distinct:
  assumes "distinct (map f xs)" "x \<in> set xs" "P x"
  shows "find (\<lambda>y. f y = f x \<and> P y) xs = Some x"
  using assms by (induction xs) auto

lemma strip_ptr_named:
  "ty_Kind (strip_ptr t) \<noteq> KPtr"
  by (induction t rule: strip_ptr.induct) auto

lemma registered_iff:
  assumes "distinct (map rm_Name methods)"
  shows "map_of (foldl (register_method ok) [] methods) n = Some e \<longleftrightarrow>
    (\<exists>m \<in> set methods. rm_Name m = n \<and> remote_method ok m \<and> e = method_entry m)"
proof
  assume "map_of (foldl (register_method ok) [] methods) n = Some e"
  then obtain m where "find (\<lambda>m. rm_Name m = n \<and> remote_method ok m) methods = Some m" "e = method_entry m"
    by (auto simp: register_methods_lookup [OF assms] split: option.splits)
  then show "\<exists>m \<in> set methods. rm_Name m = n \<and> remote_method ok m \<and> e = method_entry m"
    unfolding find_Some_iff by (metis nth_mem)
next
  assume "\<exists>m \<in> set methods. rm_Name m = n \<and> remote_method ok m \<and> e = method_entry m"
  then obtain m where m: "m \<in> set methods" "rm_Name m = n" "remote_method ok m" "e = method_entry m" by blast
  then have "find (\<lambda>m. rm_Name m = n \<and> remote_method ok m) methods = Some m"
    using find_Some_distinct [OF assms, of m "remote_method ok"] by simp
  then show "map_of (foldl (register_method ok) [] methods) n = Some e"
    by (simp add: register_methods_lookup [OF assms] m(4))
qed

lemma newService_Some:
  "newService rcvr = Some s \<longleftrightarrow> ast_IsExported (rc_name rcvr) \<and>
     s = \<lparr>sv_name = rc_name rcvr, sv_method = foldl (register_method isExportedOrBuiltinType) [] (rc_methods rcvr)\<rparr>"
  "x_newService rcvr = Some s \<longleftrightarrow> ast_IsExported (rc_name rcvr) \<and>
     s = \<lparr>sv_name = rc_name rcvr, sv_method = foldl (register_method x_isExportedOrBuiltinType) [] (rc_methods rcvr)\<rparr>"
  by (auto simp: newService_def x_newService_def registerMethods_def x_registerMethods_def Let_def)

subsection \<open>Properties\<close>

text \<open>C21: registration enters exactly the remote methods. A service is made for a receiver whose type
  name is exported; in its table a name leads to the method of that name with its argument and reply
  type, and a call counter of 0, if that method is exported, takes two parameters of exported or
  built-in types and returns just an error; no other method is there. In \<^verbatim>\<open>rpc\<close> a pointer to an
  unexported type passes the check; in \<^verbatim>\<open>rpcx\<close> it does not.\<close>

theorem newService_methods:
  assumes "distinct (map rm_Name (rc_methods rcvr))"
  shows "(newService rcvr = None \<longleftrightarrow> \<not> ast_IsExported (rc_name rcvr)) \<and>
    (\<forall>s n e. newService rcvr = Some s \<longrightarrow> sv_name s = rc_name rcvr \<and>
       (map_of (sv_method s) n = Some e \<longleftrightarrow>
         (\<exists>m \<in> set (rc_methods rcvr). rm_Name m = n \<and> remote_method isExportedOrBuiltinType m \<and> e = method_entry m))) \<and>
    (\<forall>s n e. x_newService rcvr = Some s \<longrightarrow> sv_name s = rc_name rcvr \<and>
       (map_of (sv_method s) n = Some e \<longleftrightarrow>
         (\<exists>m \<in> set (rc_methods rcvr). rm_Name m = n \<and> remote_method x_isExportedOrBuiltinType m \<and> e = method_entry m))) \<and>
    isExportedOrBuiltinType (TPtr t) \<and>
    (x_isExportedOrBuiltinType (TPtr (TNamed pkg nm TStruct)) \<longleftrightarrow> ast_IsExported nm \<or> pkg = '''')"
proof (intro conjI allI)
  show "newService rcvr = None \<longleftrightarrow> \<not> ast_IsExported (rc_name rcvr)" by (simp add: newService_def Let_def)
  show "isExportedOrBuiltinType (TPtr t)" by (simp add: isExportedOrBuiltinType_def)
  show "x_isExportedOrBuiltinType (TPtr (TNamed pkg nm TStruct)) \<longleftrightarrow> ast_IsExported nm \<or> pkg = ''''"
    by (simp add: x_isExportedOrBuiltinType_def)
qed (simp_all add: newService_Some registered_iff [OF assms])

text \<open>The receiver of \<^verbatim>\<open>service_test.go\<close>: \<^verbatim>\<open>Sum\<close> is a remote method, \<^verbatim>\<open>sum\<close> is not.\<close>

definition foo_args :: gotype where "foo_args = TNamed ''rpc'' ''Args'' TStruct"

definition foo_sum :: "string \<Rightarrow> bool \<Rightarrow> int reflect_method" where
  "foo_sum nm ex = \<lparr>rm_Name = nm, rm_IsExported = ex,
     rm_In = [TPtr (TNamed ''rpc'' ''Foo'' TStruct), foo_args, TPtr (TBasic ''int'')], rm_Out = [error_type],
     rm_Func = (\<lambda>x. Some (Inr (x + x)))\<rparr>"

definition foo :: "int receiver" where
  "foo = \<lparr>rc_name = ''Foo'', rc_methods = [foo_sum ''Sum'' True, foo_sum ''sum'' False]\<rparr>"

lemma foo_sum_remote: "remote_method isExportedOrBuiltinType (foo_sum nm ex) \<longleftrightarrow> ex"
  by (simp add: foo_sum_def remote_method_def isExportedOrBuiltinType_def foo_args_def ast_IsExported_def)

theorem newService_methods_witness:
  "\<exists>s. newService foo = Some s \<and> map_of (sv_method s) ''Sum'' = Some (method_entry (foo_sum ''Sum'' True)) \<and>
     map_of (sv_method s) ''sum'' = None"
proof -
  have d: "distinct (map rm_Name (rc_methods foo))" by (simp add: foo_def foo_sum_def)
  have "newService foo \<noteq> None"
    using newService_methods [OF d] by (simp add: foo_def ast_IsExported_def)
  then obtain s where s: "newService foo = Some s" by blast
  have iff: "map_of (sv_method s) n = Some e \<longleftrightarrow> (\<exists>m \<in> set (rc_methods foo). rm_Name m = n \<and>
      remote_method isExportedOrBuiltinType m \<and> e = method_entry m)" for n e
    using newService_methods [OF d, THEN conjunct2, THEN conjunct1, rule_format, OF s] by (rule conjunct2)
  have "map_of (sv_method s) ''Sum'' = Some (method_entry (foo_sum ''Sum'' True))"
    unfolding iff by (simp add: foo_def foo_sum_remote) (simp add: foo_sum_def)
  moreover have "map_of (sv_method s) ''sum'' \<noteq> Some e" for e
    unfolding iff by (simp add: foo_def foo_sum_remote) (simp add: foo_sum_def)
  ultimately show ?thesis using s by (metis option.exhaust)
qed

end
