(* ===== verification/Gob_Codec.thy ===== *)
theory Gob_Codec
  imports Prelude
begin

section \<open>Codecs (\<^verbatim>\<open>rpc/codec\<close>, \<^verbatim>\<open>rpc/gobrpc\<close>, \<^verbatim>\<open>rpcx/client_codec.go\<close>, \<^verbatim>\<open>rpcx/server_codec.go\<close>)\<close>

text \<open>
  All codecs write a header and a body with \<^verbatim>\<open>encoding/gob\<close> through a buffered writer and read them
  with a gob decoder. gob is modelled at the level of whole values: the stream is a list of
  items, \<^verbatim>\<open>Decode\<close> takes one item and fails when its type does not fit, and decoding into \<^verbatim>\<open>nil\<close>
  discards one item. A body never decodes as a header: gob reports a mismatch when no field names
  agree, and the argument types of a service have no field called \<^verbatim>\<open>ServiceMethod\<close>, \<^verbatim>\<open>Seq\<close>, \<^verbatim>\<open>Error\<close> or
  \<^verbatim>\<open>Timeout\<close>. The buffer of \<^verbatim>\<open>bufio.Writer\<close> is unbounded here, so bytes are sent by \<^verbatim>\<open>Flush\<close> only.
\<close>

subsection \<open>Connections\<close>

text \<open>\<^verbatim>\<open>codec.Header\<close>, \<^verbatim>\<open>rpc.Response\<close>, and \<^verbatim>\<open>Request\<close> and \<^verbatim>\<open>Response\<close> of \<^verbatim>\<open>rpcx\<close>. Only a \<^verbatim>\<open>Request\<close> has a timeout, and only the
  others have an error; the field that is missing stays empty.\<close>

record header =
  h_ServiceMethod :: string
  h_Seq :: uint64
  h_Error :: string
  h_Timeout :: int

text \<open>\<open>Empty\<close> is the value \<^verbatim>\<open>struct{}{}\<close> that is sent as the body of an error response.\<close>

datatype 'v item = Hdr header | Val 'v | Empty

text \<open>What arrives on the connection and the error that follows it, what was sent, whether sending
  fails, and whether this side has closed it.\<close>

record 'v conn =
  cn_in :: "'v item list"
  cn_err :: string
  cn_out :: "'v item list"
  cn_broken :: bool
  cn_closed :: bool

record 'v codec =
  cd_conn :: "'v conn"
  cd_buf :: "'v item list"

definition EOF :: string where "EOF = ''EOF''"
definition ErrUnexpectedEOF :: string where "ErrUnexpectedEOF = ''unexpected EOF''"
definition err_closed :: string where "err_closed = ''use of closed network connection''"
definition err_mismatch :: string where "err_mismatch = ''gob: type mismatch''"

definition NewGobCodec :: "'v conn \<Rightarrow> 'v codec" where
  "NewGobCodec c = \<lparr>cd_conn = c, cd_buf = []\<rparr>"

text \<open>One item from the decoder.\<close>

definition dec_next :: "'v codec \<Rightarrow> (string + 'v item) \<times> 'v codec" where
  "dec_next c =
     (if cn_closed (cd_conn c) then (Inl err_closed, c)
      else case cn_in (cd_conn c) of
             [] \<Rightarrow> (Inl (cn_err (cd_conn c)), c)
           | it # rest \<Rightarrow> (Inr it, c\<lparr>cd_conn := (cd_conn c)\<lparr>cn_in := rest\<rparr>\<rparr>))"

definition dec_header :: "'v codec \<Rightarrow> (string + header) \<times> 'v codec" where
  "dec_header c =
     (case dec_next c of
        (Inl err, c') \<Rightarrow> (Inl err, c')
      | (Inr (Hdr h), c') \<Rightarrow> (Inr h, c')
      | (Inr _, c') \<Rightarrow> (Inl err_mismatch, c'))"

text \<open>Decode into a variable of which \<open>fits\<close> says what it can hold.\<close>

definition dec_value :: "('v \<Rightarrow> bool) \<Rightarrow> 'v codec \<Rightarrow> (string + 'v) \<times> 'v codec" where
  "dec_value fits c =
     (case dec_next c of
        (Inl err, c') \<Rightarrow> (Inl err, c')
      | (Inr (Val v), c') \<Rightarrow> if fits v then (Inr v, c') else (Inl err_mismatch, c')
      | (Inr _, c') \<Rightarrow> (Inl err_mismatch, c'))"

definition dec_nil :: "'v codec \<Rightarrow> string option \<times> 'v codec" where
  "dec_nil c = (case dec_next c of (Inl err, c') \<Rightarrow> (Some err, c') | (Inr _, c') \<Rightarrow> (None, c'))"

text \<open>The encoder writes a value to the buffer unless it cannot be encoded.\<close>

definition enc_item :: "('v \<Rightarrow> bool) \<Rightarrow> 'v item \<Rightarrow> 'v codec \<Rightarrow> string option \<times> 'v codec" where
  "enc_item encodable it c =
     (if (case it of Val v \<Rightarrow> \<not> encodable v | _ \<Rightarrow> False) then (Some ''gob: cannot encode'', c)
      else (None, c\<lparr>cd_buf := cd_buf c @ [it]\<rparr>))"

definition buf_Flush :: "'v codec \<Rightarrow> string option \<times> 'v codec" where
  "buf_Flush c =
     (if cd_buf c = [] then (None, c)
      else if cn_closed (cd_conn c) then (Some err_closed, c)
      else if cn_broken (cd_conn c) then (Some ''broken pipe'', c)
      else (None, c\<lparr>cd_conn := (cd_conn c)\<lparr>cn_out := cn_out (cd_conn c) @ cd_buf c\<rparr>, cd_buf := []\<rparr>))"

definition codec_Close :: "'v codec \<Rightarrow> 'v codec" where
  "codec_Close c = c\<lparr>cd_conn := (cd_conn c)\<lparr>cn_closed := True\<rparr>\<rparr>"

subsection \<open>The codecs of \<^verbatim>\<open>rpc\<close>\<close>

definition gob_ReadHeader :: "'v codec \<Rightarrow> (string + header) \<times> 'v codec" where
  "gob_ReadHeader c = dec_header c"

definition gob_ReadBody :: "('v \<Rightarrow> bool) \<Rightarrow> 'v codec \<Rightarrow> (string + 'v) \<times> 'v codec" where
  "gob_ReadBody fits c = dec_value fits c"

text \<open>\<^verbatim>\<open>Write\<close>: the deferred function flushes, whatever happened, and its error is dropped.\<close>

definition gob_Write :: "('v \<Rightarrow> bool) \<Rightarrow> header \<Rightarrow> 'v item \<Rightarrow> 'v codec \<Rightarrow> string option \<times> 'v codec" where
  "gob_Write encodable h body c =
     (let (e1, c1) = enc_item encodable (Hdr h) c;
          (err, c2) = (case e1 of Some e \<Rightarrow> (Some e, c1) | None \<Rightarrow> enc_item encodable body c1);
          c3 = snd (buf_Flush c2);
          c4 = (if err \<noteq> None then codec_Close c3 else c3)
      in (err, c4))"

definition gob_Close :: "'v codec \<Rightarrow> 'v codec" where
  "gob_Close c = codec_Close c"

text \<open>The constructors by the name of the codec, as \<^verbatim>\<open>init\<close> fills the map.\<close>

definition GobType :: string where "GobType = ''application/gob''"

definition NewCodecFuncMap :: "string \<rightharpoonup> ('v conn \<Rightarrow> 'v codec)" where
  "NewCodecFuncMap = [GobType \<mapsto> NewGobCodec]"

lemma NewCodecFuncMap_eq [simp]: "NewCodecFuncMap t = (if t = GobType then Some NewGobCodec else None)"
  by (simp add: NewCodecFuncMap_def)

text \<open>The codecs in \<^verbatim>\<open>gobrpc\<close>, one for each side of a connection. Here the header of a request is the type \<^verbatim>\<open>rpc.Request\<close>, none
  of whose fields is exported: gob refuses to encode it, and decodes nothing into it but a value without fields.
  \<open>'r\<close> stands for these requests. A \<^verbatim>\<open>Response\<close> has exported fields.\<close>

definition err_unexported :: string where "err_unexported = ''gob: type rpc.Request has no exported fields''"

definition enc_Request :: "'r \<Rightarrow> 'v codec \<Rightarrow> string option \<times> 'v codec" where
  "enc_Request header c = (Some err_unexported, c)"

definition dec_Request :: "'v codec \<Rightarrow> string option \<times> 'v codec" where
  "dec_Request c =
     (case dec_next c of
        (Inl err, c') \<Rightarrow> (Some err, c')
      | (Inr Empty, c') \<Rightarrow> (None, c')
      | (Inr _, c') \<Rightarrow> (Some err_mismatch, c'))"

definition gobrpc_NewServerCodec :: "'v conn \<Rightarrow> 'v codec" where
  "gobrpc_NewServerCodec c = \<lparr>cd_conn = c, cd_buf = []\<rparr>"

definition gobrpc_ReadRequestHeader :: "'v codec \<Rightarrow> string option \<times> 'v codec" where
  "gobrpc_ReadRequestHeader c = dec_Request c"

definition gobrpc_ReadRequestBody :: "('v \<Rightarrow> bool) \<Rightarrow> 'v codec \<Rightarrow> (string + 'v) \<times> 'v codec" where
  "gobrpc_ReadRequestBody fits c = dec_value fits c"

definition gobrpc_server_Close :: "'v codec \<Rightarrow> 'v codec" where
  "gobrpc_server_Close c = codec_Close c"

definition gobrpc_WriteResponse :: "('v \<Rightarrow> bool) \<Rightarrow> header \<Rightarrow> 'v item \<Rightarrow> 'v codec \<Rightarrow> string option \<times> 'v codec" where
  "gobrpc_WriteResponse encodable h body c =
     (let (e1, c1) = enc_item encodable (Hdr h) c;
          (err, c2) = (case e1 of Some e \<Rightarrow> (Some e, c1) | None \<Rightarrow> enc_item encodable body c1);
          c3 = snd (buf_Flush c2);
          c4 = (if err \<noteq> None then gobrpc_server_Close c3 else c3)
      in (err, c4))"

definition gobrpc_NewClientCodec :: "'v conn \<Rightarrow> 'v codec" where
  "gobrpc_NewClientCodec c = \<lparr>cd_conn = c, cd_buf = []\<rparr>"

definition gobrpc_ReadResponseHeader :: "'v codec \<Rightarrow> (string + header) \<times> 'v codec" where
  "gobrpc_ReadResponseHeader c = dec_header c"

definition gobrpc_ReadResponseBody :: "('v \<Rightarrow> bool) \<Rightarrow> 'v codec \<Rightarrow> (string + 'v) \<times> 'v codec" where
  "gobrpc_ReadResponseBody fits c = dec_value fits c"

definition gobrpc_client_Close :: "'v codec \<Rightarrow> 'v codec" where
  "gobrpc_client_Close c = codec_Close c"

definition gobrpc_WriteRequest :: "('v \<Rightarrow> bool) \<Rightarrow> 'r \<Rightarrow> 'v item \<Rightarrow> 'v codec \<Rightarrow> string option \<times> 'v codec" where
  "gobrpc_WriteRequest encodable header body c =
     (let (e1, c1) = enc_Request header c;
          (err, c2) = (case e1 of Some e \<Rightarrow> (Some e, c1) | None \<Rightarrow> enc_item encodable body c1);
          c3 = snd (buf_Flush c2);
          c4 = (if err \<noteq> None then gobrpc_client_Close c3 else c3)
      in (err, c4))"

lemma gobrpc_Write_same: "gobrpc_WriteResponse = gob_Write"
  by (rule ext, rule ext, rule ext, rule ext) (simp only: gobrpc_WriteResponse_def gob_Write_def gobrpc_server_Close_def)

subsection \<open>The codecs of \<^verbatim>\<open>rpcx\<close>\<close>

text \<open>Here the error of \<^verbatim>\<open>Flush\<close> is returned, and the connection is closed after an encoding error only if
  the flush succeeds.\<close>

definition x_NewServerCodec :: "'v conn \<Rightarrow> 'v codec" where
  "x_NewServerCodec c = \<lparr>cd_conn = c, cd_buf = []\<rparr>"

definition x_NewClientCodec :: "'v conn \<Rightarrow> 'v codec" where
  "x_NewClientCodec c = \<lparr>cd_conn = c, cd_buf = []\<rparr>"

definition x_server_Close :: "'v codec \<Rightarrow> 'v codec" where
  "x_server_Close c = codec_Close c"

definition x_fail :: "string \<Rightarrow> 'v codec \<Rightarrow> string option \<times> 'v codec" where
  "x_fail err c = (case buf_Flush c of (None, c') \<Rightarrow> (Some err, codec_Close c') | (Some _, c') \<Rightarrow> (Some err, c'))"

definition x_WriteRequest :: "('v \<Rightarrow> bool) \<Rightarrow> header \<Rightarrow> 'v item \<Rightarrow> 'v codec \<Rightarrow> string option \<times> 'v codec" where
  "x_WriteRequest encodable h body c =
     (case enc_item encodable (Hdr h) c of
        (Some err, c1) \<Rightarrow> x_fail err c1
      | (None, c1) \<Rightarrow>
          (case enc_item encodable body c1 of
             (Some err, c2) \<Rightarrow> x_fail err c2
           | (None, c2) \<Rightarrow> buf_Flush c2))"

definition x_WriteResponse :: "('v \<Rightarrow> bool) \<Rightarrow> header \<Rightarrow> 'v item \<Rightarrow> 'v codec \<Rightarrow> string option \<times> 'v codec" where
  "x_WriteResponse encodable h body c =
     (case enc_item encodable (Hdr h) c of
        (Some err, c1) \<Rightarrow> x_fail err c1
      | (None, c1) \<Rightarrow>
          (case enc_item encodable body c1 of
             (Some err, c2) \<Rightarrow> x_fail err c2
           | (None, c2) \<Rightarrow> buf_Flush c2))"

definition x_ReadRequestHeader :: "'v codec \<Rightarrow> (string + header) \<times> 'v codec" where
  "x_ReadRequestHeader c = dec_header c"

definition x_ReadRequestBody :: "('v \<Rightarrow> bool) \<Rightarrow> 'v codec \<Rightarrow> (string + 'v) \<times> 'v codec" where
  "x_ReadRequestBody fits c = dec_value fits c"

definition x_ReadResponseHeader :: "'v codec \<Rightarrow> (string + header) \<times> 'v codec" where
  "x_ReadResponseHeader c = dec_header c"

definition x_ReadResponseBody :: "('v \<Rightarrow> bool) \<Rightarrow> 'v codec \<Rightarrow> (string + 'v) \<times> 'v codec" where
  "x_ReadResponseBody fits c = dec_value fits c"

subsection \<open>Facts\<close>

definition wire_ok :: "'v codec \<Rightarrow> bool" where
  "wire_ok c \<longleftrightarrow> \<not> cn_closed (cd_conn c) \<and> \<not> cn_broken (cd_conn c) \<and> cd_buf c = []"

definition can_encode :: "('v \<Rightarrow> bool) \<Rightarrow> 'v item \<Rightarrow> bool" where
  "can_encode encodable it \<longleftrightarrow> (case it of Val v \<Rightarrow> encodable v | _ \<Rightarrow> True)"

text \<open>What is sent on a connection that works: the header and the body, one after the other.\<close>

definition sent :: "'v codec \<Rightarrow> 'v item list \<Rightarrow> 'v codec" where
  "sent c its = c\<lparr>cd_conn := (cd_conn c)\<lparr>cn_out := cn_out (cd_conn c) @ its\<rparr>\<rparr>"

lemma gob_Write_ok:
  assumes "wire_ok c" "can_encode encodable body"
  shows "gob_Write encodable h body c = (None, sent c [Hdr h, body])"
  using assms
  by (cases body) (simp_all add: gob_Write_def enc_item_def buf_Flush_def wire_ok_def sent_def can_encode_def)

lemma x_Write_ok:
  assumes "wire_ok c" "can_encode encodable body"
  shows "x_WriteResponse encodable h body c = (None, sent c [Hdr h, body])"
    "x_WriteRequest encodable h body c = (None, sent c [Hdr h, body])"
  using assms
  by (cases body; simp add: x_WriteResponse_def x_WriteRequest_def enc_item_def buf_Flush_def wire_ok_def sent_def can_encode_def)+

lemma sent_fields [simp]:
  "cn_in (cd_conn (sent c its)) = cn_in (cd_conn c)" "cn_err (cd_conn (sent c its)) = cn_err (cd_conn c)"
  "cn_out (cd_conn (sent c its)) = cn_out (cd_conn c) @ its" "wire_ok (sent c its) = wire_ok c"
  "cn_closed (cd_conn (sent c its)) = cn_closed (cd_conn c)" "cd_buf (sent c its) = cd_buf c"
  by (simp_all add: sent_def wire_ok_def)

text \<open>Reading one item.\<close>

definition popped :: "'v codec \<Rightarrow> 'v item list \<Rightarrow> 'v codec" where
  "popped c rest = c\<lparr>cd_conn := (cd_conn c)\<lparr>cn_in := rest\<rparr>\<rparr>"

lemma popped_fields [simp]:
  "cn_in (cd_conn (popped c r)) = r" "cn_err (cd_conn (popped c r)) = cn_err (cd_conn c)"
  "cn_out (cd_conn (popped c r)) = cn_out (cd_conn c)" "wire_ok (popped c r) = wire_ok c"
  "cn_closed (cd_conn (popped c r)) = cn_closed (cd_conn c)" "popped (popped c r) r' = popped c r'"
  by (simp_all add: popped_def wire_ok_def)

lemma dec_next_simps:
  "\<not> cn_closed (cd_conn c) \<Longrightarrow> cn_in (cd_conn c) = it # rest \<Longrightarrow> dec_next c = (Inr it, popped c rest)"
  "\<not> cn_closed (cd_conn c) \<Longrightarrow> cn_in (cd_conn c) = [] \<Longrightarrow> dec_next c = (Inl (cn_err (cd_conn c)), c)"
  by (simp_all add: dec_next_def popped_def)

lemma wire_ok_open [simp]: "wire_ok c \<Longrightarrow> \<not> cn_closed (cd_conn c)"
  by (simp add: wire_ok_def)

text \<open>Reads never touch what was sent.\<close>

lemma dec_next_out: "cn_out (cd_conn (snd (dec_next c))) = cn_out (cd_conn c)"
  by (simp add: dec_next_def split: list.splits)

text \<open>Streams of headers, each followed by a body.\<close>

definition pair_items :: "header \<times> 'v item \<Rightarrow> 'v item list" where
  "pair_items = (\<lambda>(h, b). [Hdr h, b])"

definition stream :: "(header \<times> 'v item) list \<Rightarrow> 'v item list" where
  "stream ps = concat (map pair_items ps)"

lemma stream_simps [simp]:
  "stream [] = []" "stream ((h, b) # ps) = Hdr h # b # stream ps" "stream (ps @ qs) = stream ps @ stream qs"
  by (simp_all add: stream_def pair_items_def)

definition calls_stream :: "(header \<times> 'v) list \<Rightarrow> 'v item list" where
  "calls_stream reqs = stream (map (\<lambda>(h, v). (h, Val v)) reqs)"

lemma calls_stream_simps [simp]:
  "calls_stream [] = []" "calls_stream ((h, v) # reqs) = Hdr h # Val v # calls_stream reqs"
  by (simp_all add: calls_stream_def)

text \<open>A request header, and a connection on which these items arrive before its end.\<close>

definition call_header :: "string \<Rightarrow> uint64 \<Rightarrow> header" where
  "call_header sm seq = \<lparr>h_ServiceMethod = sm, h_Seq = seq, h_Error = '''', h_Timeout = 0\<rparr>"

definition conn_of :: "'v item list \<Rightarrow> 'v conn" where
  "conn_of its = \<lparr>cn_in = its, cn_err = EOF, cn_out = [], cn_broken = False, cn_closed = False\<rparr>"

subsection \<open>What a codec promises\<close>

text \<open>The interface behind all of them: a writer puts a header and a body on the wire, whole and in this
  order, and the reader of the other side takes them off again. On an unusable connection nothing is promised.\<close>

locale message_codec =
  fixes wr :: "('v \<Rightarrow> bool) \<Rightarrow> header \<Rightarrow> 'v item \<Rightarrow> 'v codec \<Rightarrow> string option \<times> 'v codec"
    and read_header :: "'v codec \<Rightarrow> (string + header) \<times> 'v codec"
    and read_body :: "('v \<Rightarrow> bool) \<Rightarrow> 'v codec \<Rightarrow> (string + 'v) \<times> 'v codec"
  assumes write_ok: "wire_ok c \<Longrightarrow> can_encode encodable b \<Longrightarrow> wr encodable h b c = (None, sent c [Hdr h, b])"
    and read_header_ok: "\<not> cn_closed (cd_conn d) \<Longrightarrow> cn_in (cd_conn d) = Hdr h # rest \<Longrightarrow> read_header d = (Inr h, popped d rest)"
    and read_body_ok: "\<not> cn_closed (cd_conn d) \<Longrightarrow> cn_in (cd_conn d) = Val v # rest \<Longrightarrow> fits v \<Longrightarrow>
      read_body fits d = (Inr v, popped d rest)"

text \<open>Messages written one after the other, and read one after the other; \<^const>\<open>None\<close> after an error.\<close>

fun write_all ::
  "(('v \<Rightarrow> bool) \<Rightarrow> header \<Rightarrow> 'v item \<Rightarrow> 'v codec \<Rightarrow> string option \<times> 'v codec) \<Rightarrow> ('v \<Rightarrow> bool) \<Rightarrow> (header \<times> 'v) list \<Rightarrow>
   'v codec \<Rightarrow> 'v codec option" where
  "write_all wr encodable [] c = Some c"
| "write_all wr encodable ((h, v) # ps) c =
     (case wr encodable h (Val v) c of (Some _, _) \<Rightarrow> None | (None, c') \<Rightarrow> write_all wr encodable ps c')"

fun read_all ::
  "('v codec \<Rightarrow> (string + header) \<times> 'v codec) \<Rightarrow> (('v \<Rightarrow> bool) \<Rightarrow> 'v codec \<Rightarrow> (string + 'v) \<times> 'v codec) \<Rightarrow> ('v \<Rightarrow> bool) \<Rightarrow> nat \<Rightarrow>
   'v codec \<Rightarrow> ((header \<times> 'v) list \<times> 'v codec) option" where
  "read_all read_header read_body fits 0 d = Some ([], d)"
| "read_all read_header read_body fits (Suc n) d =
     (case read_header d of
        (Inl _, _) \<Rightarrow> None
      | (Inr h, d1) \<Rightarrow>
          (case read_body fits d1 of
             (Inl _, _) \<Rightarrow> None
           | (Inr v, d2) \<Rightarrow> map_option (\<lambda>(ps, d3). ((h, v) # ps, d3)) (read_all read_header read_body fits n d2)))"

lemma sent_sent [simp]: "sent (sent c its) its' = sent c (its @ its')"
  by (simp add: sent_def)

lemma sent_Nil [simp]: "sent c [] = c"
  by (simp add: sent_def)

lemma popped_id: "cn_in (cd_conn d) = rest \<Longrightarrow> popped d rest = d"
  by (auto simp: popped_def)

context message_codec
begin

lemma write_all_ok:
  assumes "wire_ok c" "\<forall>(h, v) \<in> set ps. encodable v"
  shows "write_all wr encodable ps c = Some (sent c (calls_stream ps))"
  using assms
proof (induction ps arbitrary: c)
  case (Cons p ps)
  obtain h v where p: "p = (h, v)" by (cases p)
  have "can_encode encodable (Val v)" using Cons.prems(2) p by (simp add: can_encode_def)
  from write_ok [OF Cons.prems(1) this] Cons.IH [of "sent c [Hdr h, Val v]"] Cons.prems show ?case by (simp add: p)
qed simp

lemma read_all_ok:
  assumes "\<not> cn_closed (cd_conn d)" "cn_in (cd_conn d) = calls_stream ps @ rest" "\<forall>(h, v) \<in> set ps. fits v"
  shows "read_all read_header read_body fits (length ps) d = Some (ps, popped d rest)"
  using assms
proof (induction ps arbitrary: d)
  case Nil
  then show ?case by (simp add: popped_id)
next
  case (Cons p ps)
  obtain h v where p: "p = (h, v)" by (cases p)
  have inp: "cn_in (cd_conn d) = Hdr h # Val v # calls_stream ps @ rest" using Cons.prems(2) p by simp
  have fits: "fits v" using Cons.prems(3) p by simp
  let ?d1 = "popped d (Val v # calls_stream ps @ rest)"
  have "read_body fits ?d1 = (Inr v, popped ?d1 (calls_stream ps @ rest))"
    by (rule read_body_ok [where rest = "calls_stream ps @ rest"]) (use Cons.prems(1) fits in simp_all)
  with read_header_ok [OF Cons.prems(1) inp] Cons.IH [of "popped d (calls_stream ps @ rest)"] Cons.prems(1,3)
  show ?case by (simp add: p)
qed

lemma messages_arrive:
  assumes "wire_ok c" "cn_out (cd_conn c) = []" "\<forall>(h, v) \<in> set ps. encodable v \<and> fits v" "\<not> cn_closed (cd_conn d)"
  shows "\<exists>c'. write_all wr encodable ps c = Some c' \<and>
    (cn_in (cd_conn d) = cn_out (cd_conn c') @ rest \<longrightarrow>
       read_all read_header read_body fits (length ps) d = Some (ps, popped d rest))"
proof -
  have "\<forall>(h, v) \<in> set ps. encodable v" "\<forall>(h, v) \<in> set ps. fits v" using assms(3) by auto
  then show ?thesis using write_all_ok [OF assms(1)] read_all_ok [OF assms(4)] assms(2) by simp
qed

end

lemma dec_ok:
  "\<not> cn_closed (cd_conn d) \<Longrightarrow> cn_in (cd_conn d) = Hdr h # rest \<Longrightarrow> dec_header d = (Inr h, popped d rest)"
  "\<not> cn_closed (cd_conn d) \<Longrightarrow> cn_in (cd_conn d) = Val v # rest \<Longrightarrow> fits v \<Longrightarrow> dec_value fits d = (Inr v, popped d rest)"
  by (simp_all add: dec_header_def dec_value_def dec_next_simps)

lemmas codec_defs = gob_ReadHeader_def gob_ReadBody_def gobrpc_Write_same
  gobrpc_ReadRequestBody_def gobrpc_ReadResponseHeader_def gobrpc_ReadResponseBody_def
  x_ReadRequestHeader_def x_ReadRequestBody_def x_ReadResponseHeader_def x_ReadResponseBody_def

interpretation gob: message_codec gob_Write gob_ReadHeader gob_ReadBody
  by unfold_locales (simp_all add: codec_defs gob_Write_ok dec_ok)



interpretation gobrpc_resp: message_codec gobrpc_WriteResponse gobrpc_ReadResponseHeader gobrpc_ReadResponseBody
  by unfold_locales (simp_all add: codec_defs gob_Write_ok dec_ok)

interpretation x_req: message_codec x_WriteRequest x_ReadRequestHeader x_ReadRequestBody
  by unfold_locales (simp_all add: codec_defs x_Write_ok dec_ok)

interpretation x_resp: message_codec x_WriteResponse x_ReadResponseHeader x_ReadResponseBody
  by unfold_locales (simp_all add: codec_defs x_Write_ok dec_ok)

text \<open>The two pairs of a writing and a reading side in \<^verbatim>\<open>rpc\<close> that can work, and the two in \<^verbatim>\<open>rpcx\<close>, each with the headers that its
  type of header can hold.\<close>

definition codec_pairs ::
  "((header \<Rightarrow> bool) \<times> (('v \<Rightarrow> bool) \<Rightarrow> header \<Rightarrow> 'v item \<Rightarrow> 'v codec \<Rightarrow> string option \<times> 'v codec) \<times>
    ('v codec \<Rightarrow> (string + header) \<times> 'v codec) \<times> (('v \<Rightarrow> bool) \<Rightarrow> 'v codec \<Rightarrow> (string + 'v) \<times> 'v codec)) list" where
  "codec_pairs =
     [(\<lambda>h. h_Timeout h = 0, gob_Write, gob_ReadHeader, gob_ReadBody),
      (\<lambda>h. h_Timeout h = 0, gobrpc_WriteResponse, gobrpc_ReadResponseHeader, gobrpc_ReadResponseBody),
      (\<lambda>h. h_Error h = '''', x_WriteRequest, x_ReadRequestHeader, x_ReadRequestBody),
      (\<lambda>h. h_Timeout h = 0, x_WriteResponse, x_ReadResponseHeader, x_ReadResponseBody)]"

subsection \<open>Properties\<close>

text \<open>C20: what is written is what is read, with the codec of \<^verbatim>\<open>rpc\<close>, the codecs of \<^verbatim>\<open>rpcx\<close> in both directions, and the responses of
  \<^verbatim>\<open>gobrpc\<close>. Any sequence of messages written on a connection that works, with headers that the type of header can hold and
  bodies that can be encoded, is written without an error; and the other side, when these
  bytes arrive followed by any others, reads back exactly the messages in their order and is left with the
  others. (The requests of \<^verbatim>\<open>gobrpc\<close> never reach the other side: \<open>gobrpc_requests_fail\<close> below.)\<close>

theorem codec_roundtrip:
  assumes "(legal, wr, read_header, read_body) \<in> set codec_pairs" and "wire_ok c" and "cn_out (cd_conn c) = []"
    and "\<forall>(h, v) \<in> set ps. legal h \<and> encodable v \<and> fits v" and "\<not> cn_closed (cd_conn d)"
  shows "\<exists>c'. write_all wr encodable ps c = Some c' \<and>
    (cn_in (cd_conn d) = cn_out (cd_conn c') @ rest \<longrightarrow>
       (\<exists>d'. read_all read_header read_body fits (length ps) d = Some (ps, d') \<and> cn_in (cd_conn d') = rest))"
proof -
  have m: "message_codec wr read_header read_body"
    using assms(1) gob.message_codec_axioms gobrpc_resp.message_codec_axioms
      x_req.message_codec_axioms x_resp.message_codec_axioms
    by (auto simp: codec_pairs_def)
  have "\<forall>(h, v) \<in> set ps. encodable v \<and> fits v" using assms(4) by auto
  from message_codec.messages_arrive [OF m assms(2,3) this assms(5), of rest] show ?thesis
    by fastforce
qed

theorem codec_roundtrip_witness:
  "\<exists>c'. write_all x_WriteRequest (\<lambda>_. True) [(call_header ''Foo.Sum'' 1, 7 :: nat), (call_header ''Foo.Sum'' 2, 8)] (x_NewClientCodec (conn_of [])) = Some c' \<and>
     (\<exists>d'. read_all x_ReadRequestHeader x_ReadRequestBody (\<lambda>_. True) 2 (x_NewServerCodec (conn_of (cn_out (cd_conn c')))) =
        Some ([(call_header ''Foo.Sum'' 1, 7), (call_header ''Foo.Sum'' 2, 8)], d'))"
proof -
  let ?ps = "[(call_header ''Foo.Sum'' 1, 7 :: nat), (call_header ''Foo.Sum'' 2, 8)]" and ?c = "x_NewClientCodec (conn_of []) :: nat codec"
  have w: "wire_ok ?c" "cn_out (cd_conn ?c) = []" by (simp_all add: wire_ok_def x_NewClientCodec_def conn_of_def)
  have p: "(\<lambda>h. h_Error h = '''', x_WriteRequest, x_ReadRequestHeader, x_ReadRequestBody) \<in> set codec_pairs" by (simp add: codec_pairs_def)
  have d: "\<not> cn_closed (cd_conn (x_NewServerCodec (conn_of its)))" "cn_in (cd_conn (x_NewServerCodec (conn_of its))) = its" for its :: "nat item list"
    by (simp_all add: x_NewServerCodec_def conn_of_def)
  have c: "write_all x_WriteRequest (\<lambda>_. True) ?ps ?c = Some (sent ?c (calls_stream ?ps))" by (rule x_req.write_all_ok [OF w(1)]) simp
  show ?thesis
    using codec_roundtrip [where ps = ?ps and encodable = "\<lambda>_. True" and fits = "\<lambda>_. True" and rest = "[]", OF p w _ d(1)] c
    by (auto simp: d(2) numeral_2_eq_2 call_header_def)
qed

text \<open>No request of \<^verbatim>\<open>gobrpc\<close> is ever sent: writing it fails and closes the connection, whatever the request and its body are; and
  a server that receives the header of a request of any other codec cannot read it.\<close>

lemma gobrpc_requests_fail:
  assumes "cd_buf c = []"
  shows "gobrpc_WriteRequest encodable header body c = (Some err_unexported, gobrpc_client_Close c)"
    "cn_out (cd_conn (gobrpc_client_Close c)) = cn_out (cd_conn c)" "cn_closed (cd_conn (gobrpc_client_Close c))"
    "\<not> cn_closed (cd_conn d) \<Longrightarrow> cn_in (cd_conn d) = Hdr h # rest \<Longrightarrow> fst (gobrpc_ReadRequestHeader d) = Some err_mismatch"
  using assms
  by (simp_all add: gobrpc_WriteRequest_def enc_Request_def buf_Flush_def gobrpc_client_Close_def codec_Close_def
      gobrpc_ReadRequestHeader_def dec_Request_def dec_next_simps)

text \<open>What is written is what is read. Requests or responses written with \<^verbatim>\<open>Write\<close> on a connection
  that works reach the other side in order, each header followed by its body, and a reader gets
  back exactly the first pair and is left with the rest of the stream.\<close>

theorem gob_roundtrip:
  assumes "wire_ok c" and "can_encode encodable (Val v)" and "fits v"
    and "\<not> cn_closed (cd_conn d)" and "cn_out (cd_conn c) = []"
  shows "\<exists>c'. gob_Write encodable h (Val v) c = (None, c') \<and>
    (cn_in (cd_conn d) = cn_out (cd_conn c') @ rest \<longrightarrow>
      (\<exists>d1 d2. gob_ReadHeader d = (Inr h, d1) \<and> gob_ReadBody fits d1 = (Inr v, d2) \<and> cn_in (cd_conn d2) = rest))"
  using assms
  by (auto simp: gob_Write_ok gob_ReadHeader_def gob_ReadBody_def dec_header_def dec_value_def dec_next_simps)

theorem gob_roundtrip_witness:
  "\<exists>c'. gob_Write (\<lambda>_. True) \<lparr>h_ServiceMethod = ''Foo.Sum'', h_Seq = 1, h_Error = '''', h_Timeout = 0\<rparr> (Val (7 :: nat))
     (NewGobCodec \<lparr>cn_in = [], cn_err = EOF, cn_out = [], cn_broken = False, cn_closed = False\<rparr>) = (None, c')"
  using gob_roundtrip [of "NewGobCodec \<lparr>cn_in = [], cn_err = EOF, cn_out = [], cn_broken = False, cn_closed = False\<rparr>"
      "\<lambda>_. True" "7 :: nat" "\<lambda>_. True"
      "NewGobCodec \<lparr>cn_in = [], cn_err = EOF, cn_out = [], cn_broken = False, cn_closed = False\<rparr>"]
  by (auto simp: wire_ok_def NewGobCodec_def can_encode_def)

text \<open>The codec of \<^verbatim>\<open>rpc\<close> does not notice that sending failed. On a connection that cannot be written
  to, \<^verbatim>\<open>Write\<close> reports success although nothing was sent; the codecs of \<^verbatim>\<open>rpcx\<close> report the error.\<close>

theorem gob_Write_hides_flush_error:
  assumes "cn_broken (cd_conn c)" and "\<not> cn_closed (cd_conn c)" and "can_encode encodable body"
  shows "fst (gob_Write encodable h body c) = None \<and> cn_out (cd_conn (snd (gob_Write encodable h body c))) = cn_out (cd_conn c) \<and>
    fst (x_WriteRequest encodable h body c) = Some ''broken pipe'' \<and>
    fst (x_WriteResponse encodable h body c) = Some ''broken pipe''"
  using assms
  by (cases body) (simp_all add: gob_Write_def x_WriteRequest_def x_WriteResponse_def enc_item_def buf_Flush_def can_encode_def)

theorem gob_Write_hides_flush_error_witness:
  "fst (gob_Write (\<lambda>_. True) \<lparr>h_ServiceMethod = ''Foo.Sum'', h_Seq = 1, h_Error = '''', h_Timeout = 0\<rparr> (Val (7 :: nat))
     (NewGobCodec \<lparr>cn_in = [], cn_err = EOF, cn_out = [], cn_broken = True, cn_closed = False\<rparr>)) = None"
  using gob_Write_hides_flush_error [of "NewGobCodec \<lparr>cn_in = [], cn_err = EOF, cn_out = [], cn_broken = True, cn_closed = False\<rparr>"
      "\<lambda>_. True" "Val (7 :: nat)"]
  by (simp add: NewGobCodec_def can_encode_def)

end
