(* ===== verification/Rpc_Server.thy ===== *)
theory Rpc_Server
  imports Service Gob_Codec "HOL-Library.Multiset"
begin

section \<open>The RPC server (\<^verbatim>\<open>rpc/server.go\<close>)\<close>

text \<open>
  A connection is served by a loop that reads requests and starts a goroutine for each; responses
  are written whole, in the order in which the goroutines finish. The loop and the goroutines are
  the steps of a transition relation, so every interleaving is a run. What gob can decode into a
  type, what it can encode, the timeout of the options and the text of a duration are fields of a
  configuration. Accepting connections is in \<open>Rpc_Dial\<close>, \<^verbatim>\<open>http.Handle\<close> in \<open>Rpc_Process\<close>.
\<close>

subsection \<open>Registration and lookup\<close>

type_synonym 'v server = "string \<rightharpoonup> 'v service"

definition MagicNumber :: int where "MagicNumber = 0x3bef5c"

definition NewServer :: "'v server" where
  "NewServer = Map.empty"

text \<open>\<^verbatim>\<open>LoadOrStore\<close> keeps the service that is already there. The outer \<^const>\<open>None\<close>: \<^verbatim>\<open>log.Fatalf\<close>.\<close>

definition Server_Register :: "'v server \<Rightarrow> 'v receiver \<Rightarrow> (string option \<times> 'v server) option" where
  "Server_Register srv rcvr =
     (case newService rcvr of
        None \<Rightarrow> None
      | Some s \<Rightarrow>
          (case srv (sv_name s) of
             Some _ \<Rightarrow> Some (Some (''rpc: service already defined: '' @ sv_name s), srv)
           | None \<Rightarrow> Some (None, srv(sv_name s \<mapsto> s))))"

text \<open>A method found: the names under which it is stored (they identify the object with its counter) and
  the entry.\<close>

definition findService :: "'v server \<Rightarrow> string \<Rightarrow> string + (string \<times> string \<times> 'v method_type)" where
  "findService srv serviceMethod =
     (let names = strings_Split serviceMethod CHR ''.''
      in if length names \<noteq> 2 then Inl (''illegal serviceMethod format:'' @ serviceMethod)
         else
           let serviceName = names ! 0; methodName = names ! 1
           in case srv serviceName of
                None \<Rightarrow> Inl (''find service got unknown service name: '' @ serviceMethod)
              | Some svc \<Rightarrow>
                  (case map_of (sv_method svc) methodName of
                     None \<Rightarrow> Inl (''find service got unknown method name: '' @ serviceMethod)
                   | Some mtype \<Rightarrow> Inr (serviceName, methodName, mtype)))"

text \<open>A call counts in the table of the service.\<close>

definition count_call :: "'v server \<Rightarrow> string \<Rightarrow> string \<Rightarrow> 'v \<Rightarrow> 'v server" where
  "count_call srv sname mname argv =
     (case srv sname of
        None \<Rightarrow> srv
      | Some svc \<Rightarrow>
          (case map_of (sv_method svc) mname of
             None \<Rightarrow> srv
           | Some m \<Rightarrow> srv(sname \<mapsto> svc\<lparr>sv_method := AList.update mname (fst (service_call m argv)) (sv_method svc)\<rparr>)))"

subsection \<open>Serving a connection\<close>

record 'v server_cfg =
  cf_fits :: "gotype \<Rightarrow> 'v \<Rightarrow> bool"
  cf_encodable :: "'v \<Rightarrow> bool"
  cf_timeout :: int
  cf_dur :: "int \<Rightarrow> string"

record 'v request =
  rq_header :: header
  rq_service :: string
  rq_mname :: string
  rq_mtype :: "'v method_type"
  rq_argv :: 'v

datatype 'v read_result =
    ReadFail string
  | BadReq header string
  | GoodReq "'v request"
  | ReadPanic

definition readRequestHeader :: "'v codec \<Rightarrow> (string + header) \<times> 'v codec" where
  "readRequestHeader c = gob_ReadHeader c"

definition readRequest :: "'v server_cfg \<Rightarrow> 'v server \<Rightarrow> 'v codec \<Rightarrow> 'v read_result \<times> 'v codec" where
  "readRequest cf srv c =
     (case readRequestHeader c of
        (Inl err, c1) \<Rightarrow> (ReadFail err, c1)
      | (Inr h, c1) \<Rightarrow>
          (case findService srv (h_ServiceMethod h) of
             Inl err \<Rightarrow> (BadReq h err, c1)
           | Inr (sname, mname, mtype) \<Rightarrow>
               if mt_newArgv mtype = None \<or> mt_newReplyv mtype = None then (ReadPanic, c1)
               else (case gob_ReadBody (cf_fits cf (mt_ArgType mtype)) c1 of
                       (Inl err, c2) \<Rightarrow> (BadReq h err, c2)
                     | (Inr v, c2) \<Rightarrow>
                         (GoodReq \<lparr>rq_header = h, rq_service = sname, rq_mname = mname, rq_mtype = mtype, rq_argv = v\<rparr>, c2))))"

definition sendResponse :: "'v server_cfg \<Rightarrow> 'v codec \<Rightarrow> header \<Rightarrow> 'v item \<Rightarrow> 'v codec" where
  "sendResponse cf c h body = snd (gob_Write (cf_encodable cf) h body c)"

definition handleCallError :: "'v server_cfg \<Rightarrow> 'v codec \<Rightarrow> header \<Rightarrow> string + 'v \<Rightarrow> 'v codec" where
  "handleCallError cf c h r =
     (case r of
        Inl err \<Rightarrow> sendResponse cf c (h\<lparr>h_Error := err\<rparr>) Empty
      | Inr reply \<Rightarrow> sendResponse cf c h (Val reply))"

text \<open>The state of a connection that is served: the loop is on or has ended, and the requests that are
  being handled. A panic in the loop ends the process.\<close>

record 'v serving =
  sg_server :: "'v server"
  sg_codec :: "'v codec"
  sg_running :: "'v request list"
  sg_loop :: bool
  sg_panic :: bool

text \<open>One round of the loop in \<^verbatim>\<open>serveCodec\<close>.\<close>

definition serve_read :: "'v server_cfg \<Rightarrow> 'v serving \<Rightarrow> 'v serving" where
  "serve_read cf s =
     (case readRequest cf (sg_server s) (sg_codec s) of
        (ReadFail err, c) \<Rightarrow> s\<lparr>sg_codec := c, sg_loop := False\<rparr>
      | (BadReq h err, c) \<Rightarrow> s\<lparr>sg_codec := sendResponse cf c (h\<lparr>h_Error := err\<rparr>) Empty\<rparr>
      | (GoodReq req, c) \<Rightarrow> s\<lparr>sg_codec := c, sg_running := sg_running s @ [req]\<rparr>
      | (ReadPanic, c) \<Rightarrow> s\<lparr>sg_codec := c, sg_panic := True\<rparr>)"

text \<open>\<^verbatim>\<open>handleRequest\<close>, for the \<open>i\<close>-th request that is being handled: the method has returned \<open>r\<close>, or the
  timeout is over first (then the method's goroutine goes on, and what it returns is lost).\<close>

definition handleRequest :: "'v server_cfg \<Rightarrow> 'v serving \<Rightarrow> nat \<Rightarrow> string + 'v \<Rightarrow> 'v serving" where
  "handleRequest cf s i r =
     (let req = sg_running s ! i
      in s\<lparr>sg_server := count_call (sg_server s) (rq_service req) (rq_mname req) (rq_argv req),
           sg_codec := handleCallError cf (sg_codec s) (rq_header req) r,
           sg_running := take i (sg_running s) @ drop (Suc i) (sg_running s)\<rparr>)"

definition timeout_error :: "'v server_cfg \<Rightarrow> string" where
  "timeout_error cf = ''rpc server: request handle timeout: expect within '' @ cf_dur cf (cf_timeout cf)"

definition serve_close :: "'v serving \<Rightarrow> 'v serving" where
  "serve_close s = s\<lparr>sg_codec := gob_Close (sg_codec s)\<rparr>"

inductive serve_step :: "'v server_cfg \<Rightarrow> 'v serving \<Rightarrow> 'v serving \<Rightarrow> bool" for cf where
  read: "sg_loop s \<Longrightarrow> \<not> sg_panic s \<Longrightarrow> serve_step cf s (serve_read cf s)"
| finish: "\<not> sg_panic s \<Longrightarrow> i < length (sg_running s) \<Longrightarrow>
    rm_Func (mt_method (rq_mtype (sg_running s ! i))) (rq_argv (sg_running s ! i)) = Some r \<Longrightarrow>
    serve_step cf s (handleRequest cf s i r)"
| timeout: "\<not> sg_panic s \<Longrightarrow> i < length (sg_running s) \<Longrightarrow> cf_timeout cf \<noteq> 0 \<Longrightarrow>
    serve_step cf s (handleRequest cf s i (Inl (timeout_error cf)))"
| close: "\<not> sg_panic s \<Longrightarrow> \<not> sg_loop s \<Longrightarrow> sg_running s = [] \<Longrightarrow> \<not> cn_closed (cd_conn (sg_codec s)) \<Longrightarrow>
    serve_step cf s (serve_close s)"

inductive_cases serve_stepE: "serve_step cf s s'"

text \<open>The steps in which no handler's timeout fires are those of a server without one.\<close>

definition untimed :: "'v server_cfg \<Rightarrow> 'v server_cfg" where
  "untimed cf = cf\<lparr>cf_timeout := 0\<rparr>"

lemma untimed_simps [simp]:
  "cf_timeout (untimed cf) = 0" "cf_fits (untimed cf) = cf_fits cf" "cf_encodable (untimed cf) = cf_encodable cf"
  "readRequest (untimed cf) = readRequest cf" "handleCallError (untimed cf) = handleCallError cf"
  "serve_read (untimed cf) = serve_read cf" "handleRequest (untimed cf) = handleRequest cf"
proof -
  show f: "cf_timeout (untimed cf) = 0" "cf_fits (untimed cf) = cf_fits cf" "cf_encodable (untimed cf) = cf_encodable cf"
    by (simp_all add: untimed_def)
  show r: "readRequest (untimed cf) = readRequest cf" by (rule ext, rule ext) (simp only: readRequest_def f)
  have s: "sendResponse (untimed cf) = sendResponse cf" by (rule ext, rule ext, rule ext) (simp only: sendResponse_def f)
  show h: "handleCallError (untimed cf) = handleCallError cf" by (rule ext, rule ext, rule ext) (simp only: handleCallError_def s)
  show "serve_read (untimed cf) = serve_read cf" by (rule ext) (simp only: serve_read_def r s)
  show "handleRequest (untimed cf) = handleRequest cf" by (rule ext, rule ext, rule ext) (simp only: handleRequest_def h)
qed

lemma untimed_id: "cf_timeout cf = 0 \<Longrightarrow> untimed cf = cf"
  by (simp add: untimed_def)

lemma serve_step_untimed:
  "serve_step cf s s' \<longleftrightarrow> serve_step (untimed cf) s s' \<or>
     (\<exists>i < length (sg_running s). \<not> sg_panic s \<and> cf_timeout cf \<noteq> 0 \<and> s' = handleRequest cf s i (Inl (timeout_error cf)))"
  by (auto simp: serve_step.simps)

definition serve_init :: "'v server \<Rightarrow> 'v codec \<Rightarrow> 'v serving" where
  "serve_init srv c = \<lparr>sg_server = srv, sg_codec = c, sg_running = [], sg_loop = True, sg_panic = False\<rparr>"

text \<open>\<^verbatim>\<open>ServeConn\<close>: the options come first on the connection, as JSON; \<open>opt\<close> is the result of decoding them.
  \<^const>\<open>None\<close>: the connection is closed without serving it.\<close>

record rpc_option =
  op_MagicNumber :: int
  op_CodecType :: string
  op_ConnectTimeout :: int
  op_HandleTimeout :: int

definition ServeConn :: "'v server \<Rightarrow> 'v conn \<Rightarrow> string + rpc_option \<Rightarrow> ('v serving \<times> int) option" where
  "ServeConn srv conn opt =
     (case opt of
        Inl err \<Rightarrow> None
      | Inr o' \<Rightarrow>
          if op_MagicNumber o' \<noteq> MagicNumber then None
          else (case NewCodecFuncMap (op_CodecType o') of
                  None \<Rightarrow> None
                | Some f \<Rightarrow> Some (serve_init srv (f conn), op_HandleTimeout o')))"

subsection \<open>Facts about lookup\<close>

text \<open>What a lookup finds, without the counter.\<close>

definition found :: "'v server \<Rightarrow> string \<Rightarrow> string + (string \<times> string \<times> 'v method_type)" where
  "found srv sm =
     (case findService srv sm of Inl err \<Rightarrow> Inl err | Inr (s, n, m) \<Rightarrow> Inr (s, n, m\<lparr>mt_numCalls := 0\<rparr>))"

lemma found_count_call: "found (count_call srv s n v) = found srv"
proof
  fix sm
  show "found (count_call srv s n v) sm = found srv sm"
  proof (cases "srv s")
    case (Some svc)
    then show ?thesis
      by (cases "map_of (sv_method svc) n")
         (auto simp: found_def findService_def count_call_def service_call_def update_conv Let_def split: option.splits)
  qed (simp add: count_call_def)
qed

lemma found_Inr:
  "found srv sm = Inr (s, n, m) \<Longrightarrow> \<exists>m'. findService srv sm = Inr (s, n, m') \<and> m = m'\<lparr>mt_numCalls := 0\<rparr>"
  by (auto simp: found_def split: sum.splits)

lemma found_Inl: "found srv sm = Inl err \<longleftrightarrow> findService srv sm = Inl err"
  by (auto simp: found_def split: sum.splits)

subsection \<open>Well-formed traffic\<close>

definition reply_pair :: "header \<Rightarrow> string + 'v \<Rightarrow> header \<times> 'v item" where
  "reply_pair h r = (case r of Inl err \<Rightarrow> (h\<lparr>h_Error := err\<rparr>, Empty) | Inr v \<Rightarrow> (h, Val v))"

text \<open>A request for a method that exists, with an argument that fits, and that the method answers with
  something that can be encoded.\<close>

definition answers :: "'v server_cfg \<Rightarrow> 'v method_type \<Rightarrow> 'v \<Rightarrow> string + 'v \<Rightarrow> bool" where
  "answers cf m v r \<longleftrightarrow> rm_Func (mt_method m) v = Some r \<and> (\<forall>x. r = Inr x \<longrightarrow> cf_encodable cf x)"

definition good_call :: "'v server_cfg \<Rightarrow> 'v server \<Rightarrow> header \<times> 'v \<Rightarrow> bool" where
  "good_call cf srv = (\<lambda>(h, v). \<exists>s n m r. found srv (h_ServiceMethod h) = Inr (s, n, m) \<and> mt_newArgv m \<noteq> None \<and>
     mt_newReplyv m \<noteq> None \<and> cf_fits cf (mt_ArgType m) v \<and> answers cf m v r)"

lemma untimed_good [simp]: "answers (untimed cf) = answers cf" "good_call (untimed cf) = good_call cf"
  by (simp_all add: answers_def good_call_def fun_eq_iff)

text \<open>The response a request deserves.\<close>

definition method_reply :: "'v method_type \<Rightarrow> header \<Rightarrow> 'v \<Rightarrow> header \<times> 'v item" where
  "method_reply m h v = reply_pair h (the (rm_Func (mt_method m) v))"

definition deserved :: "'v server \<Rightarrow> header \<times> 'v \<Rightarrow> header \<times> 'v item" where
  "deserved srv = (\<lambda>(h, v). case found srv (h_ServiceMethod h) of
     Inl err \<Rightarrow> (h\<lparr>h_Error := err\<rparr>, Empty)
   | Inr (_, _, m) \<Rightarrow> method_reply m h v)"

definition deserved_req :: "'v request \<Rightarrow> header \<times> 'v item" where
  "deserved_req req = method_reply (rq_mtype req) (rq_header req) (rq_argv req)"

lemma counter_irrelevant [simp]:
  "mt_newArgv (m\<lparr>mt_numCalls := k\<rparr>) = mt_newArgv m" "mt_newReplyv (m\<lparr>mt_numCalls := k\<rparr>) = mt_newReplyv m"
  "answers cf (m\<lparr>mt_numCalls := k\<rparr>) = answers cf m"
  by (simp_all add: mt_newArgv_def mt_newReplyv_def answers_def fun_eq_iff)

lemma handleCallError_ok:
  assumes "wire_ok c" "\<And>x. r = Inr x \<Longrightarrow> cf_encodable cf x"
  shows "handleCallError cf c h r = sent c (pair_items (reply_pair h r))"
  using assms
  by (cases r) (simp_all add: handleCallError_def sendResponse_def gob_Write_ok can_encode_def reply_pair_def pair_items_def)

lemma readRequest_good:
  assumes "wire_ok c" "cn_in (cd_conn c) = Hdr h # Val v # rest" "good_call cf srv (h, v)"
  shows "\<exists>req. readRequest cf srv c = (GoodReq req, popped c rest) \<and> deserved_req req = deserved srv (h, v) \<and>
    (\<exists>r. answers cf (rq_mtype req) (rq_argv req) r)"
proof -
  obtain s n m r where m: "found srv (h_ServiceMethod h) = Inr (s, n, m)" "mt_newArgv m \<noteq> None" "mt_newReplyv m \<noteq> None"
    "cf_fits cf (mt_ArgType m) v" "answers cf m v r" using assms(3) by (auto simp: good_call_def)
  obtain m' where m': "findService srv (h_ServiceMethod h) = Inr (s, n, m')" "m = m'\<lparr>mt_numCalls := 0\<rparr>"
    using found_Inr [OF m(1)] by blast
  let ?req = "\<lparr>rq_header = h, rq_service = s, rq_mname = n, rq_mtype = m', rq_argv = v\<rparr>"
  have "mt_newArgv m' \<noteq> None" "mt_newReplyv m' \<noteq> None" "cf_fits cf (mt_ArgType m') v" "answers cf m' v r"
    using m m'(2) by simp_all
  then have "readRequest cf srv c = (GoodReq ?req, popped c rest) \<and> deserved_req ?req = deserved srv (h, v) \<and>
      (\<exists>r. answers cf (rq_mtype ?req) (rq_argv ?req) r)"
    using assms(1,2) m(1) m'
    by (auto simp: readRequest_def readRequestHeader_def gob_ReadHeader_def gob_ReadBody_def dec_header_def dec_value_def
        dec_next_simps deserved_def deserved_req_def method_reply_def)
  then show ?thesis by blast
qed

lemma readRequest_end:
  assumes "wire_ok c" "cn_in (cd_conn c) = []"
  shows "readRequest cf srv c = (ReadFail (cn_err (cd_conn c)), c)"
  using assms by (simp add: readRequest_def readRequestHeader_def gob_ReadHeader_def dec_header_def dec_next_simps)

subsection \<open>The invariant of a connection\<close>

text \<open>Responses sent, requests being handled and requests still to be read add up.\<close>

definition serve_inv :: "'v server_cfg \<Rightarrow> 'v server \<Rightarrow> (header \<times> 'v) list \<Rightarrow> 'v serving \<Rightarrow> bool" where
  "serve_inv cf srv reqs s \<longleftrightarrow> \<not> sg_panic s \<and> found (sg_server s) = found srv \<and>
     (\<forall>req \<in> set (sg_running s). \<exists>r. answers cf (rq_mtype req) (rq_argv req) r) \<and>
     (wire_ok (sg_codec s) \<or> \<not> sg_loop s \<and> sg_running s = []) \<and>
     (\<exists>ps rest. cn_out (cd_conn (sg_codec s)) = stream ps \<and> cn_in (cd_conn (sg_codec s)) = calls_stream rest \<and>
        (\<forall>q \<in> set rest. good_call cf srv q) \<and> (sg_loop s \<or> rest = []) \<and>
        mset ps + mset (map deserved_req (sg_running s)) + mset (map (deserved srv) rest) = mset (map (deserved srv) reqs))"

lemma serve_invI:
  assumes "\<not> sg_panic s" "found (sg_server s) = found srv"
    "\<And>req. req \<in> set (sg_running s) \<Longrightarrow> \<exists>r. answers cf (rq_mtype req) (rq_argv req) r"
    "wire_ok (sg_codec s)" "cn_out (cd_conn (sg_codec s)) = stream ps" "cn_in (cd_conn (sg_codec s)) = calls_stream rest"
    "\<And>q. q \<in> set rest \<Longrightarrow> good_call cf srv q" "sg_loop s \<or> rest = []"
    "mset ps + mset (map deserved_req (sg_running s)) + mset (map (deserved srv) rest) = mset (map (deserved srv) reqs)"
  shows "serve_inv cf srv reqs s"
  unfolding serve_inv_def using assms by blast

lemma serve_inv_answers:
  "serve_inv cf srv reqs s \<Longrightarrow> i < length (sg_running s) \<Longrightarrow>
   \<exists>r. answers cf (rq_mtype (sg_running s ! i)) (rq_argv (sg_running s ! i)) r"
  unfolding serve_inv_def by (meson nth_mem)

lemma good_call_found: "found srv' = found srv \<Longrightarrow> good_call cf srv' = good_call cf srv"
  by (simp add: good_call_def)

lemma deserved_found: "found srv' = found srv \<Longrightarrow> deserved srv' = deserved srv"
  by (simp add: deserved_def)

lemma serve_inv_read:
  assumes inv: "serve_inv cf srv reqs s" and on: "sg_loop s"
  shows "serve_inv cf srv reqs (serve_read cf s)"
proof -
  let ?c = "sg_codec s"
  obtain ps rest where i: "\<not> sg_panic s" "found (sg_server s) = found srv" "wire_ok ?c"
    "\<forall>req \<in> set (sg_running s). \<exists>r. answers cf (rq_mtype req) (rq_argv req) r"
    "cn_out (cd_conn ?c) = stream ps" "cn_in (cd_conn ?c) = calls_stream rest" "\<forall>q \<in> set rest. good_call cf srv q"
    "mset ps + mset (map deserved_req (sg_running s)) + mset (map (deserved srv) rest) = mset (map (deserved srv) reqs)"
    using inv on by (auto simp: serve_inv_def)
  show ?thesis
  proof (cases rest)
    case Nil
    then have "serve_read cf s = s\<lparr>sg_loop := False\<rparr>"
      using i(3,6) readRequest_end [of ?c cf "sg_server s"] by (simp add: serve_read_def)
    then show ?thesis using i Nil by (intro serve_invI [where ps = ps and rest = "[]"]) simp_all
  next
    case (Cons q rest')
    obtain h v where q: "q = (h, v)" by (cases q)
    have "good_call cf (sg_server s) (h, v)" using i(2,7) Cons q by (simp add: good_call_found [OF i(2)])
    then obtain req where req: "readRequest cf (sg_server s) ?c = (GoodReq req, popped ?c (calls_stream rest'))"
      "deserved_req req = deserved srv (h, v)" "\<exists>r. answers cf (rq_mtype req) (rq_argv req) r"
      using readRequest_good [OF i(3), of h v "calls_stream rest'" cf "sg_server s"] i(6) Cons q
      by (auto simp: deserved_found [OF i(2)])
    have sr: "serve_read cf s = s\<lparr>sg_codec := popped ?c (calls_stream rest'), sg_running := sg_running s @ [req]\<rparr>"
      by (simp add: serve_read_def req(1))
    have ms: "mset ps + mset (map deserved_req (sg_running s @ [req])) + mset (map (deserved srv) rest') =
        mset (map (deserved srv) reqs)"
      using i(8) req(2) by (simp add: Cons q)
    show ?thesis unfolding sr
      by (rule serve_invI [where ps = ps and rest = rest']) (use i req(3) on ms in \<open>auto simp: Cons\<close>)
  qed
qed

lemma mset_remove_nth:
  assumes "i < length xs"
  shows "mset (map f xs) = mset (map f (take i xs @ drop (Suc i) xs)) + {# f (xs ! i) #}"
proof -
  have "mset (map f xs) = mset (map f (take i xs @ xs ! i # drop (Suc i) xs))" by (simp only: id_take_nth_drop [OF assms, symmetric])
  then show ?thesis by simp
qed

lemma serve_inv_finish:
  assumes inv: "serve_inv cf srv reqs s" and i: "i < length (sg_running s)"
    and r: "rm_Func (mt_method (rq_mtype (sg_running s ! i))) (rq_argv (sg_running s ! i)) = Some r"
  shows "serve_inv cf srv reqs (handleRequest cf s i r)"
proof -
  let ?c = "sg_codec s" and ?req = "sg_running s ! i" and ?run = "take i (sg_running s) @ drop (Suc i) (sg_running s)"
  have ne: "sg_running s \<noteq> []" using i by auto
  obtain ps rest where j: "\<not> sg_panic s" "found (sg_server s) = found srv" "wire_ok ?c"
    "\<forall>req \<in> set (sg_running s). \<exists>r. answers cf (rq_mtype req) (rq_argv req) r"
    "cn_out (cd_conn ?c) = stream ps" "cn_in (cd_conn ?c) = calls_stream rest" "\<forall>q \<in> set rest. good_call cf srv q"
    "sg_loop s \<or> rest = []"
    "mset ps + mset (map deserved_req (sg_running s)) + mset (map (deserved srv) rest) = mset (map (deserved srv) reqs)"
    using inv ne by (auto simp: serve_inv_def)
  have "\<exists>r. answers cf (rq_mtype ?req) (rq_argv ?req) r" using j(4) i nth_mem by blast
  then have "\<And>x. r = Inr x \<Longrightarrow> cf_encodable cf x" using r by (auto simp: answers_def)
  then have c: "handleCallError cf ?c (rq_header ?req) r = sent ?c (pair_items (reply_pair (rq_header ?req) r))"
    by (rule handleCallError_ok [OF j(3)])
  have d: "deserved_req ?req = reply_pair (rq_header ?req) r" using r by (simp add: deserved_req_def method_reply_def)
  have "cn_out (cd_conn (sent ?c (pair_items (reply_pair (rq_header ?req) r)))) = stream (ps @ [deserved_req ?req])"
    using j(5) by (simp add: d stream_def)
  moreover have "mset (ps @ [deserved_req ?req]) + mset (map deserved_req ?run) + mset (map (deserved srv) rest) =
      mset (map (deserved srv) reqs)"
    using j(9) mset_remove_nth [OF i, of deserved_req] by (simp add: ac_simps)
  moreover have "set ?run \<subseteq> set (sg_running s)" by (auto dest: in_set_takeD in_set_dropD)
  ultimately show ?thesis
    using j by (intro serve_invI [where ps = "ps @ [deserved_req ?req]" and rest = rest])
      (auto simp: handleRequest_def Let_def c found_count_call)
qed

lemma serve_inv_close:
  assumes "serve_inv cf srv reqs s" "\<not> sg_loop s" "sg_running s = []"
  shows "serve_inv cf srv reqs (serve_close s)"
  using assms by (auto simp: serve_inv_def serve_close_def gob_Close_def codec_Close_def)

lemma serve_inv_step:
  assumes "cf_timeout cf = 0" "serve_inv cf srv reqs s" "serve_step cf s s'"
  shows "serve_inv cf srv reqs s'"
  using assms(3,1,2) by (cases rule: serve_step.cases) (auto intro: serve_inv_read serve_inv_finish serve_inv_close)

lemma serve_inv_steps:
  assumes "cf_timeout cf = 0" "serve_inv cf srv reqs s" "(serve_step cf)\<^sup>*\<^sup>* s s'"
  shows "serve_inv cf srv reqs s'"
  using assms(3,2) by (induction rule: rtranclp_induct) (auto intro: serve_inv_step [OF assms(1)])

lemma serve_inv_init:
  assumes "wire_ok c" "cn_out (cd_conn c) = []" "cn_in (cd_conn c) = calls_stream reqs" "\<And>q. q \<in> set reqs \<Longrightarrow> good_call cf srv q"
  shows "serve_inv cf srv reqs (serve_init srv c)"
  using assms by (intro serve_invI [where ps = "[]" and rest = reqs]) (auto simp: serve_init_def)

text \<open>The work that is left; every step that the loop or a handler takes reduces it.\<close>

definition serve_work :: "'v serving \<Rightarrow> nat" where
  "serve_work s = 2 * length (cn_in (cd_conn (sg_codec s))) + length (sg_running s) +
     (if sg_loop s then 1 else 0) + (if cn_closed (cd_conn (sg_codec s)) then 0 else 1)"

lemma serve_work_step:
  assumes t: "cf_timeout cf = 0" and inv: "serve_inv cf srv reqs s" and st: "serve_step cf s s'"
  shows "serve_work s' < serve_work s"
  using st
proof (cases rule: serve_step.cases)
  case read
  then have w: "wire_ok (sg_codec s)" using inv by (auto simp: serve_inv_def)
  show ?thesis
  proof (cases "cn_in (cd_conn (sg_codec s))")
    case Nil
    then show ?thesis using read w readRequest_end [OF w Nil] by (simp add: serve_read_def serve_work_def)
  next
    case Cons
    obtain rest where rest: "cn_in (cd_conn (sg_codec s)) = calls_stream rest" "\<forall>q \<in> set rest. good_call cf srv q"
      using inv by (auto simp: serve_inv_def)
    then obtain h v rest' where r: "rest = (h, v) # rest'" using Cons by (cases rest) auto
    have f: "found (sg_server s) = found srv" using inv by (simp add: serve_inv_def)
    then have "good_call cf (sg_server s) (h, v)" using rest(2) r by (simp add: good_call_found [OF f])
    then obtain req where "readRequest cf (sg_server s) (sg_codec s) = (GoodReq req, popped (sg_codec s) (calls_stream rest'))"
      using readRequest_good [OF w, of h v "calls_stream rest'" cf "sg_server s"] rest(1) r by auto
    then show ?thesis using read rest(1) r by (simp add: serve_read_def serve_work_def)
  qed
next
  case (finish i r)
  then have w: "wire_ok (sg_codec s)" using inv by (auto simp: serve_inv_def)
  have "answers cf (rq_mtype (sg_running s ! i)) (rq_argv (sg_running s ! i)) r"
    using serve_inv_answers [OF inv finish(3)] finish(4) by (auto simp: answers_def)
  then have "handleCallError cf (sg_codec s) (rq_header (sg_running s ! i)) r =
      sent (sg_codec s) (pair_items (reply_pair (rq_header (sg_running s ! i)) r))"
    by (intro handleCallError_ok [OF w]) (simp add: answers_def)
  then show ?thesis using finish by (simp add: handleRequest_def serve_work_def Let_def)
next
  case close
  then show ?thesis by (simp add: serve_work_def serve_close_def gob_Close_def codec_Close_def)
qed (simp add: t)

lemma serve_can_step:
  assumes inv: "serve_inv cf srv reqs s" and stuck: "\<And>s'. \<not> serve_step cf s s'"
  shows "\<not> sg_loop s" "sg_running s = []" "cn_closed (cd_conn (sg_codec s))"
proof -
  have np: "\<not> sg_panic s" using inv by (simp add: serve_inv_def)
  show l: "\<not> sg_loop s" using serve_step.read [OF _ np] stuck by blast
  show r: "sg_running s = []"
  proof (rule ccontr)
    assume "sg_running s \<noteq> []"
    then have "0 < length (sg_running s)" by simp
    moreover obtain r where "rm_Func (mt_method (rq_mtype (sg_running s ! 0))) (rq_argv (sg_running s ! 0)) = Some r"
      using serve_inv_answers [OF inv calculation] by (auto simp: answers_def)
    ultimately show False using serve_step.finish [OF np] stuck by blast
  qed
  show "cn_closed (cd_conn (sg_codec s))" using serve_step.close [OF np l r] stuck by blast
qed

subsection \<open>Properties\<close>

text \<open>C17: every request is answered, once and correctly, in every interleaving. Let the client send any
  sequence of requests for methods that exist, with arguments that fit, and then end the connection;
  let handling have no timeout. In every state that the server can reach, a step reduces the work that
  is left, so serving ends; and when no step is possible the connection is closed and the responses
  that were sent, each a header followed by its body, are a permutation of those that the requests
  deserve: the request's header with the method's reply, or with the method's error and an empty body.\<close>

theorem server_answers_all:
  assumes "cf_timeout cf = 0" and "wire_ok c" and "cn_out (cd_conn c) = []" and "cn_in (cd_conn c) = calls_stream reqs"
    and "\<And>q. q \<in> set reqs \<Longrightarrow> good_call cf srv q" and "(serve_step cf)\<^sup>*\<^sup>* (serve_init srv c) s"
  shows "(\<forall>s'. serve_step cf s s' \<longrightarrow> serve_work s' < serve_work s) \<and>
    ((\<forall>s'. \<not> serve_step cf s s') \<longrightarrow> cn_closed (cd_conn (sg_codec s)) \<and>
       (\<exists>ps. cn_out (cd_conn (sg_codec s)) = stream ps \<and> mset ps = mset (map (deserved srv) reqs)))"
proof -
  have inv: "serve_inv cf srv reqs s"
    using serve_inv_steps [OF assms(1) serve_inv_init [OF assms(2-5)] assms(6)] .
  show ?thesis
    using serve_work_step [OF assms(1) inv] serve_can_step [OF inv] inv by (auto simp: serve_inv_def)
qed

text \<open>A request for a service that does not exist ends the connection. Its error response is sent, but
  its body is left on the stream and taken for the next header: the loop ends, and no request behind
  it is ever read, whatever it is for.\<close>

theorem server_unknown_service:
  assumes "wire_ok c" and "cn_in (cd_conn c) = Hdr h # Val v # rest" and "findService srv (h_ServiceMethod h) = Inl err"
  shows "serve_read cf (serve_read cf (serve_init srv c)) =
    (serve_init srv c)\<lparr>sg_codec := popped (sent c [Hdr (h\<lparr>h_Error := err\<rparr>), Empty]) rest, sg_loop := False\<rparr>"
proof -
  have "serve_read cf (serve_init srv c) =
      (serve_init srv c)\<lparr>sg_codec := sent (popped c (Val v # rest)) [Hdr (h\<lparr>h_Error := err\<rparr>), Empty]\<rparr>"
    using assms
    by (simp add: serve_read_def serve_init_def readRequest_def readRequestHeader_def gob_ReadHeader_def dec_header_def
        dec_next_simps sendResponse_def gob_Write_ok can_encode_def)
  then show ?thesis
    using assms(1)
    by (simp add: serve_read_def serve_init_def readRequest_def readRequestHeader_def gob_ReadHeader_def dec_header_def
        dec_next_simps) (simp add: popped_def sent_def)
qed

text \<open>A method whose reply is not a pointer is registered, and a request for it brings the server
  down: making the reply value panics in the goroutine of the connection.\<close>

theorem server_panics_on_value_reply:
  assumes "wire_ok c" and "cn_in (cd_conn c) = Hdr h # rest"
    and "findService srv (h_ServiceMethod h) = Inr (sn, mn, m)" and "ty_Kind (mt_ReplyType m) \<in> {KBasic, KStruct, KFunc}"
  shows "isExportedOrBuiltinType (TBasic ''int'') \<and> sg_panic (serve_read cf (serve_init srv c)) \<and>
    (\<forall>s'. \<not> serve_step cf (serve_read cf (serve_init srv c)) s')"
proof -
  have "mt_newReplyv m = None" using assms(4) newReplyv_None_iff by blast
  then have p: "sg_panic (serve_read cf (serve_init srv c))"
    using assms by (simp add: serve_read_def serve_init_def readRequest_def readRequestHeader_def gob_ReadHeader_def
        dec_header_def dec_next_simps)
  moreover have "\<not> serve_step cf (serve_read cf (serve_init srv c)) s'" for s'
    using p by (auto elim: serve_stepE)
  ultimately show ?thesis by (simp add: isExportedOrBuiltinType_def)
qed

subsection \<open>A server with the service of \<^verbatim>\<open>service_test.go\<close>\<close>

definition foo_service :: "int service" where
  "foo_service = \<lparr>sv_name = ''Foo'', sv_method = [(''Sum'', method_entry (foo_sum ''Sum'' True))]\<rparr>"

definition foo_cfg :: "int server_cfg" where
  "foo_cfg = \<lparr>cf_fits = (\<lambda>t v. t = foo_args), cf_encodable = (\<lambda>v. True), cf_timeout = 0, cf_dur = (\<lambda>d. ''0s'')\<rparr>"

lemma foo_registered: "Server_Register NewServer foo = Some (None, [''Foo'' \<mapsto> foo_service])"
proof -
  have "newService foo = Some foo_service"
    unfolding newService_Some
    by (simp add: foo_def register_method_eq foo_sum_remote)
      (simp add: foo_service_def foo_sum_def method_entry_def ast_IsExported_def)
  then show ?thesis by (simp add: Server_Register_def NewServer_def foo_service_def)
qed

lemma foo_find: "findService [''Foo'' \<mapsto> foo_service] ''Foo.Sum'' = Inr (''Foo'', ''Sum'', method_entry (foo_sum ''Sum'' True))"
  by (simp add: findService_def foo_service_def Let_def)

lemma foo_entry [simp]:
  "mt_ArgType (method_entry (foo_sum n e)) = foo_args" "mt_ReplyType (method_entry (foo_sum n e)) = TPtr (TBasic ''int'')"
  "rm_Func (mt_method (method_entry (foo_sum n e))) x = Some (Inr (x + x))" "mt_numCalls (method_entry (foo_sum n e)) = 0"
  by (simp_all add: method_entry_def foo_sum_def)

lemma foo_found: "found [''Foo'' \<mapsto> foo_service] ''Foo.Sum'' = Inr (''Foo'', ''Sum'', method_entry (foo_sum ''Sum'' True))"
  by (simp add: found_def foo_find)

lemma foo_good: "good_call foo_cfg [''Foo'' \<mapsto> foo_service] (call_header ''Foo.Sum'' n, v)"
  by (simp add: good_call_def call_header_def foo_found foo_cfg_def answers_def mt_newArgv_def mt_newReplyv_def foo_args_def)

lemma serve_ends:
  assumes "cf_timeout cf = 0" "serve_inv cf srv reqs s"
  shows "\<exists>s'. (serve_step cf)\<^sup>*\<^sup>* s s' \<and> (\<forall>s''. \<not> serve_step cf s' s'')"
  by (rule run_ends [where P = "serve_inv cf srv reqs" and work = serve_work])
    (use assms serve_inv_step serve_work_step in blast)+

theorem server_answers_all_witness:
  "\<exists>s. (serve_step foo_cfg)\<^sup>*\<^sup>* (serve_init [''Foo'' \<mapsto> foo_service]
         (NewGobCodec (conn_of [Hdr (call_header ''Foo.Sum'' 1), Val 3]))) s \<and>
     cn_out (cd_conn (sg_codec s)) = [Hdr (call_header ''Foo.Sum'' 1), Val 6]"
proof -
  let ?srv = "[''Foo'' \<mapsto> foo_service]" and ?reqs = "[(call_header ''Foo.Sum'' 1, 3 :: int)]"
  let ?c = "NewGobCodec (conn_of [Hdr (call_header ''Foo.Sum'' 1), Val 3])"
  have t: "cf_timeout foo_cfg = 0" by (simp add: foo_cfg_def)
  have c: "wire_ok ?c" "cn_out (cd_conn ?c) = []" "cn_in (cd_conn ?c) = calls_stream ?reqs"
    by (simp_all add: wire_ok_def NewGobCodec_def conn_of_def)
  have g: "\<And>q. q \<in> set ?reqs \<Longrightarrow> good_call foo_cfg ?srv q" using foo_good by simp
  obtain s where s: "(serve_step foo_cfg)\<^sup>*\<^sup>* (serve_init ?srv ?c) s" "\<forall>s'. \<not> serve_step foo_cfg s s'"
    using serve_ends [OF t serve_inv_init [OF c g]] by blast
  obtain ps where ps: "cn_out (cd_conn (sg_codec s)) = stream ps" "mset ps = mset (map (deserved ?srv) ?reqs)"
    using server_answers_all [OF t c g s(1)] s(2) by blast
  have "ps = [(call_header ''Foo.Sum'' 1, Val 6)]"
    using ps(2) by (simp add: deserved_def call_header_def foo_found method_reply_def reply_pair_def)
  with ps(1) s(1) show ?thesis by auto
qed

theorem server_unknown_service_witness:
  "sg_loop (serve_read foo_cfg (serve_read foo_cfg (serve_init NewServer
     (NewGobCodec (conn_of [Hdr (call_header ''Bar.Sum'' 1), Val 3, Hdr (call_header ''Foo.Sum'' 2), Val 4]))))) = False"
proof -
  have "findService NewServer (h_ServiceMethod (call_header ''Bar.Sum'' 1)) =
      Inl (''find service got unknown service name: '' @ ''Bar.Sum'')"
    by (simp add: findService_def NewServer_def call_header_def)
  from server_unknown_service [OF _ _ this, where rest = "[Hdr (call_header ''Foo.Sum'' 2), Val 4]" and v = "3 :: int"
      and cf = foo_cfg and c = "NewGobCodec (conn_of [Hdr (call_header ''Bar.Sum'' 1), Val 3, Hdr (call_header ''Foo.Sum'' 2), Val 4])"]
  show ?thesis by (simp add: wire_ok_def NewGobCodec_def conn_of_def)
qed

text \<open>A service whose method takes its reply by value.\<close>

definition val_service :: "int service" where
  "val_service = \<lparr>sv_name = ''Foo'', sv_method = [(''Sum'', (method_entry (foo_sum ''Sum'' True))\<lparr>mt_ReplyType := TBasic ''int''\<rparr>)]\<rparr>"

theorem server_panics_on_value_reply_witness:
  "sg_panic (serve_read foo_cfg (serve_init [''Foo'' \<mapsto> val_service] (NewGobCodec (conn_of [Hdr (call_header ''Foo.Sum'' 1), Val 3]))))"
proof -
  have "findService [''Foo'' \<mapsto> val_service] (h_ServiceMethod (call_header ''Foo.Sum'' 1)) =
      Inr (''Foo'', ''Sum'', (method_entry (foo_sum ''Sum'' True))\<lparr>mt_ReplyType := TBasic ''int''\<rparr>)"
    by (simp add: findService_def call_header_def val_service_def Let_def)
  from server_panics_on_value_reply [OF _ _ this, where rest = "[Val 3]"] show ?thesis
    by (simp add: wire_ok_def NewGobCodec_def conn_of_def)
qed

end
