(* ===== verification/Rpcx_Server.thy ===== *)
theory Rpcx_Server
  imports Rpc_Server
begin

section \<open>The server of \<^verbatim>\<open>rpcx\<close> (\<^verbatim>\<open>rpcx/server.go\<close>)\<close>

text \<open>
  The same loop as in \<^verbatim>\<open>rpc/server.go\<close> with three differences: there are no options on the connection
  and the timeout comes with each request, an error other than the end of the stream never ends the
  loop, and when a header cannot be decoded the next item is discarded. \<^verbatim>\<open>findService\<close>, \<^verbatim>\<open>newArgv\<close>
  and the rest of the lookup are the same text. The state of a connection is that of
  \<^verbatim>\<open>rpc\<close>. The announcement of the server in a registry is modelled with the registry.
\<close>

subsection \<open>Registration and lookup\<close>

definition x_Register :: "'v server \<Rightarrow> 'v receiver \<Rightarrow> (string option \<times> 'v server) option" where
  "x_Register srv rcvr =
     (case x_newService rcvr of
        None \<Rightarrow> None
      | Some s \<Rightarrow>
          (case srv (sv_name s) of
             Some _ \<Rightarrow> Some (Some (''rpc: service already defined: '' @ sv_name s), srv)
           | None \<Rightarrow> Some (None, srv(sv_name s \<mapsto> s))))"

definition x_RegisterName :: "'v server \<Rightarrow> string \<Rightarrow> 'v receiver \<Rightarrow> (string option \<times> 'v server) option" where
  "x_RegisterName srv name rcvr =
     (case x_newService rcvr of
        None \<Rightarrow> None
      | Some s \<Rightarrow>
          (case srv name of
             Some _ \<Rightarrow> Some (Some (''rpc: service already defined: '' @ name), srv)
           | None \<Rightarrow> Some (None, srv(name \<mapsto> s))))"

definition x_findService :: "'v server \<Rightarrow> string \<Rightarrow> string + (string \<times> string \<times> 'v method_type)" where
  "x_findService = findService"

definition x_count_call :: "'v server \<Rightarrow> string \<Rightarrow> string \<Rightarrow> 'v \<Rightarrow> 'v server" where
  "x_count_call srv sname mname argv =
     (case srv sname of
        None \<Rightarrow> srv
      | Some svc \<Rightarrow>
          (case map_of (sv_method svc) mname of
             None \<Rightarrow> srv
           | Some m \<Rightarrow> srv(sname \<mapsto> svc\<lparr>sv_method := AList.update mname (fst (x_service_call m argv)) (sv_method svc)\<rparr>)))"

lemma x_count_call_eq [simp]: "x_count_call = count_call"
  unfolding fun_eq_iff x_count_call_def count_call_def x_service_eqs by simp

subsection \<open>Serving a connection\<close>

datatype 'v x_read_result =
    XErr header string
  | XReq "'v request"
  | XPanic

definition zero_header :: header where
  "zero_header = \<lparr>h_ServiceMethod = '''', h_Seq = 0, h_Error = '''', h_Timeout = 0\<rparr>"

definition is_EOF :: "string \<Rightarrow> bool" where
  "is_EOF err \<longleftrightarrow> err = EOF \<or> err = ErrUnexpectedEOF"

definition x_readRequest :: "'v server_cfg \<Rightarrow> 'v server \<Rightarrow> 'v codec \<Rightarrow> 'v x_read_result \<times> 'v codec" where
  "x_readRequest cf srv c =
     (case x_ReadRequestHeader c of
        (Inl err, c1) \<Rightarrow> if is_EOF err then (XErr zero_header err, c1) else (XErr zero_header err, snd (dec_nil c1))
      | (Inr h, c1) \<Rightarrow>
          (case x_findService srv (h_ServiceMethod h) of
             Inl err \<Rightarrow> (XErr h err, c1)
           | Inr (sname, mname, mtype) \<Rightarrow>
               if x_newArgv mtype = None \<or> x_newReplyv mtype = None then (XPanic, c1)
               else (case x_ReadRequestBody (cf_fits cf (mt_ArgType mtype)) c1 of
                       (Inl err, c2) \<Rightarrow> (XErr h err, c2)
                     | (Inr v, c2) \<Rightarrow>
                         (XReq \<lparr>rq_header = h, rq_service = sname, rq_mname = mname, rq_mtype = mtype, rq_argv = v\<rparr>, c2))))"

definition x_sendResponse :: "'v server_cfg \<Rightarrow> 'v codec \<Rightarrow> header \<Rightarrow> 'v item \<Rightarrow> 'v codec" where
  "x_sendResponse cf c h body = snd (x_WriteResponse (cf_encodable cf) h body c)"

text \<open>A \<^verbatim>\<open>Response\<close> has no timeout.\<close>

definition response_header :: "header \<Rightarrow> string \<Rightarrow> header" where
  "response_header h err = \<lparr>h_ServiceMethod = h_ServiceMethod h, h_Seq = h_Seq h, h_Error = err, h_Timeout = 0\<rparr>"

definition x_handleCallError :: "'v server_cfg \<Rightarrow> 'v codec \<Rightarrow> header \<Rightarrow> string + 'v \<Rightarrow> 'v codec" where
  "x_handleCallError cf c h r =
     (case r of
        Inl err \<Rightarrow> x_sendResponse cf c (response_header h err) Empty
      | Inr reply \<Rightarrow> x_sendResponse cf c (response_header h '''') (Val reply))"

text \<open>One round of the loop in \<^verbatim>\<open>ServeCodec\<close>.\<close>

definition x_serve_read :: "'v server_cfg \<Rightarrow> 'v serving \<Rightarrow> 'v serving" where
  "x_serve_read cf s =
     (case x_readRequest cf (sg_server s) (sg_codec s) of
        (XErr h err, c) \<Rightarrow>
          if is_EOF err then s\<lparr>sg_codec := c, sg_loop := False\<rparr>
          else s\<lparr>sg_codec := x_sendResponse cf c (response_header h err) Empty\<rparr>
      | (XReq req, c) \<Rightarrow> s\<lparr>sg_codec := c, sg_running := sg_running s @ [req]\<rparr>
      | (XPanic, c) \<Rightarrow> s\<lparr>sg_codec := c, sg_panic := True\<rparr>)"

definition x_handleRequest :: "'v server_cfg \<Rightarrow> 'v serving \<Rightarrow> nat \<Rightarrow> string + 'v \<Rightarrow> 'v serving" where
  "x_handleRequest cf s i r =
     (let req = sg_running s ! i
      in s\<lparr>sg_server := x_count_call (sg_server s) (rq_service req) (rq_mname req) (rq_argv req),
           sg_codec := x_handleCallError cf (sg_codec s) (rq_header req) r,
           sg_running := take i (sg_running s) @ drop (Suc i) (sg_running s)\<rparr>)"

definition x_timeout_error :: "'v server_cfg \<Rightarrow> header \<Rightarrow> string" where
  "x_timeout_error cf h = ''rpc server: request handle timeout: expect within '' @ cf_dur cf (h_Timeout h)"

inductive x_serve_step :: "'v server_cfg \<Rightarrow> 'v serving \<Rightarrow> 'v serving \<Rightarrow> bool" for cf where
  read: "sg_loop s \<Longrightarrow> \<not> sg_panic s \<Longrightarrow> x_serve_step cf s (x_serve_read cf s)"
| finish: "\<not> sg_panic s \<Longrightarrow> i < length (sg_running s) \<Longrightarrow>
    rm_Func (mt_method (rq_mtype (sg_running s ! i))) (rq_argv (sg_running s ! i)) = Some r \<Longrightarrow>
    x_serve_step cf s (x_handleRequest cf s i r)"
| timeout: "\<not> sg_panic s \<Longrightarrow> i < length (sg_running s) \<Longrightarrow> h_Timeout (rq_header (sg_running s ! i)) \<noteq> 0 \<Longrightarrow>
    x_serve_step cf s (x_handleRequest cf s i (Inl (x_timeout_error cf (rq_header (sg_running s ! i)))))"
| close: "\<not> sg_panic s \<Longrightarrow> \<not> sg_loop s \<Longrightarrow> sg_running s = [] \<Longrightarrow> \<not> cn_closed (cd_conn (sg_codec s)) \<Longrightarrow>
    x_serve_step cf s (serve_close s)"

subsection \<open>On well-formed traffic the two servers do the same\<close>

text \<open>A header as the client of \<^verbatim>\<open>rpcx\<close> sends it: no error and no timeout.\<close>

definition plain_header :: "header \<Rightarrow> bool" where
  "plain_header h \<longleftrightarrow> h_Error h = '''' \<and> h_Timeout h = 0"

lemma response_header_plain: "plain_header h \<Longrightarrow> response_header h err = h\<lparr>h_Error := err\<rparr>"
  by (simp add: response_header_def plain_header_def)

definition plain_inv :: "'v serving \<Rightarrow> bool" where
  "plain_inv s \<longleftrightarrow> (\<forall>req \<in> set (sg_running s). plain_header (rq_header req)) \<and>
     (\<forall>h. Hdr h \<in> set (cn_in (cd_conn (sg_codec s))) \<longrightarrow> plain_header h) \<and> cn_err (cd_conn (sg_codec s)) = EOF"

lemma x_read_eq:
  assumes inv: "serve_inv cf srv reqs s" and p: "plain_inv s" and on: "sg_loop s"
  shows "x_serve_read cf s = serve_read cf s" "plain_inv (serve_read cf s)"
proof -
  let ?c = "sg_codec s"
  obtain rest where w: "wire_ok ?c" and r: "cn_in (cd_conn ?c) = calls_stream rest" "\<forall>q \<in> set rest. good_call cf srv q"
    and f: "found (sg_server s) = found srv" using inv on by (auto simp: serve_inv_def)
  have "x_serve_read cf s = serve_read cf s \<and> plain_inv (serve_read cf s)"
  proof (cases rest)
    case Nil
    then show ?thesis using w r p
      by (auto simp: x_serve_read_def serve_read_def x_readRequest_def readRequest_def readRequestHeader_def
          x_ReadRequestHeader_def gob_ReadHeader_def dec_header_def dec_next_simps plain_inv_def is_EOF_def)
  next
    case (Cons q rest')
    obtain h v where q: "q = (h, v)" by (cases q)
    have "good_call cf (sg_server s) (h, v)" using r(2) Cons q by (simp add: good_call_found [OF f])
    then obtain req where req: "readRequest cf (sg_server s) ?c = (GoodReq req, popped ?c (calls_stream rest'))"
      using readRequest_good [OF w, of h v "calls_stream rest'" cf "sg_server s"] r(1) Cons q by auto
    then have "x_readRequest cf (sg_server s) ?c = (XReq req, popped ?c (calls_stream rest'))" "rq_header req = h"
      using w r(1) Cons q
      by (auto simp: x_readRequest_def readRequest_def readRequestHeader_def x_findService_def x_ReadRequestBody_def
          gob_ReadBody_def x_ReadRequestHeader_def gob_ReadHeader_def dec_header_def dec_next_simps
          split: sum.splits prod.splits if_splits)
    then show ?thesis using req p r(1) Cons q
      by (auto simp: x_serve_read_def serve_read_def plain_inv_def)
  qed
  then show "x_serve_read cf s = serve_read cf s" "plain_inv (serve_read cf s)" by auto
qed

lemma x_handle_eq:
  assumes inv: "serve_inv cf srv reqs s" and p: "plain_inv s" and i: "i < length (sg_running s)"
    and r: "rm_Func (mt_method (rq_mtype (sg_running s ! i))) (rq_argv (sg_running s ! i)) = Some r"
  shows "x_handleRequest cf s i r = handleRequest cf s i r" "plain_inv (handleRequest cf s i r)"
proof -
  let ?h = "rq_header (sg_running s ! i)"
  have w: "wire_ok (sg_codec s)" using inv i by (auto simp: serve_inv_def)
  have h: "plain_header ?h" using p i by (simp add: plain_inv_def)
  have e: "\<And>x. r = Inr x \<Longrightarrow> cf_encodable cf x" using serve_inv_answers [OF inv i] r by (auto simp: answers_def)
  have h0: "?h\<lparr>h_Error := ''''\<rparr> = ?h" using h by (simp add: plain_header_def)
  have "x_handleCallError cf (sg_codec s) ?h r = sent (sg_codec s) (pair_items (reply_pair ?h r))"
    using w e h0
    by (cases r) (simp_all add: x_handleCallError_def x_sendResponse_def x_Write_ok can_encode_def response_header_plain [OF h]
        reply_pair_def pair_items_def)
  then have eq: "x_handleCallError cf (sg_codec s) ?h r = handleCallError cf (sg_codec s) ?h r"
    using handleCallError_ok [where h = ?h and r = r and cf = cf, OF w e] by simp
  then show "x_handleRequest cf s i r = handleRequest cf s i r" by (simp add: x_handleRequest_def handleRequest_def Let_def)
  show "plain_inv (handleRequest cf s i r)"
    using p handleCallError_ok [where h = ?h and r = r and cf = cf, OF w e]
    by (auto simp: plain_inv_def handleRequest_def Let_def dest: in_set_takeD in_set_dropD)
qed

lemma x_step_eq:
  assumes t: "cf_timeout cf = 0" and inv: "serve_inv cf srv reqs s" and p: "plain_inv s"
  shows "x_serve_step cf s s' \<longleftrightarrow> serve_step cf s s'" "serve_step cf s s' \<Longrightarrow> plain_inv s'"
proof -
  have h: "h_Timeout (rq_header (sg_running s ! i)) = 0" if "i < length (sg_running s)" for i
    using p that by (simp add: plain_inv_def plain_header_def)
  show "x_serve_step cf s s' \<longleftrightarrow> serve_step cf s s'"
  proof
    assume "x_serve_step cf s s'"
    then show "serve_step cf s s'"
    proof (cases rule: x_serve_step.cases)
      case read
      then show ?thesis using x_read_eq(1) [OF inv p] serve_step.read by metis
    next
      case (finish i r)
      then show ?thesis using x_handle_eq(1) [OF inv p] serve_step.finish by metis
    qed (use h serve_step.close in auto)
  next
    assume "serve_step cf s s'"
    then show "x_serve_step cf s s'"
    proof (cases rule: serve_step.cases)
      case read
      then show ?thesis using x_read_eq(1) [OF inv p] x_serve_step.read by metis
    next
      case (finish i r)
      then show ?thesis using x_handle_eq(1) [OF inv p] x_serve_step.finish by metis
    qed (use t x_serve_step.close in auto)
  qed
  show "plain_inv s'" if "serve_step cf s s'"
    using that
  proof (cases rule: serve_step.cases)
    case close
    then show ?thesis using p by (simp add: plain_inv_def serve_close_def gob_Close_def codec_Close_def)
  qed (use x_read_eq(2) [OF inv p] x_handle_eq(2) [OF inv p] t in auto)
qed

lemma x_steps_eq:
  assumes t: "cf_timeout cf = 0" and inv: "serve_inv cf srv reqs s" and p: "plain_inv s"
  shows "(x_serve_step cf)\<^sup>*\<^sup>* s s' \<longleftrightarrow> (serve_step cf)\<^sup>*\<^sup>* s s'"
proof
  assume "(x_serve_step cf)\<^sup>*\<^sup>* s s'"
  then have "(serve_step cf)\<^sup>*\<^sup>* s s' \<and> serve_inv cf srv reqs s' \<and> plain_inv s'"
  proof (induction rule: rtranclp_induct)
    case (step s1 s2)
    then have st: "serve_step cf s1 s2" using x_step_eq(1) [OF t] by blast
    then show ?case using step.IH serve_inv_step [OF t _ st] x_step_eq(2) [OF t _ _ st] by (meson rtranclp.rtrancl_into_rtrancl)
  qed (use inv p in auto)
  then show "(serve_step cf)\<^sup>*\<^sup>* s s'" by blast
next
  assume "(serve_step cf)\<^sup>*\<^sup>* s s'"
  then have "(x_serve_step cf)\<^sup>*\<^sup>* s s' \<and> serve_inv cf srv reqs s' \<and> plain_inv s'"
  proof (induction rule: rtranclp_induct)
    case (step s1 s2)
    then have "x_serve_step cf s1 s2" using x_step_eq(1) [OF t] by blast
    then show ?case using step serve_inv_step [OF t _ step.hyps(2)] x_step_eq(2) [OF t _ _ step.hyps(2)]
      by (meson rtranclp.rtrancl_into_rtrancl)
  qed (use inv p in auto)
  then show "(x_serve_step cf)\<^sup>*\<^sup>* s s'" by blast
qed

lemma x_steps_plain:
  assumes t: "cf_timeout cf = 0" and inv: "serve_inv cf srv reqs s" and p: "plain_inv s" and st: "(serve_step cf)\<^sup>*\<^sup>* s s'"
  shows "plain_inv s'"
proof -
  have "serve_inv cf srv reqs s' \<and> plain_inv s'"
    using st
  proof (induction rule: rtranclp_induct)
    case (step s1 s2)
    then show ?case using serve_inv_step [OF t _ step.hyps(2)] x_step_eq(2) [OF t _ _ step.hyps(2)] by blast
  qed (use inv p in auto)
  then show ?thesis by blast
qed

lemma plain_inv_init:
  assumes "cn_in (cd_conn c) = calls_stream reqs" "\<And>h v. (h, v) \<in> set reqs \<Longrightarrow> plain_header h" "cn_err (cd_conn c) = EOF"
  shows "plain_inv (serve_init srv c)"
  using assms by (auto simp: plain_inv_def serve_init_def calls_stream_def stream_def pair_items_def)

subsection \<open>Properties\<close>

text \<open>On the traffic of its own clients the server of \<^verbatim>\<open>rpcx\<close> has exactly the runs of the server of
  \<^verbatim>\<open>rpc\<close>: for requests that exist and fit, without timeouts and followed by the end of the stream, the
  same states are reachable in every interleaving. So every request gets its one response: when no
  step is left, the responses sent are a permutation of those that the requests deserve.\<close>

theorem x_server_answers_all:
  assumes "cf_timeout cf = 0" and "wire_ok c" and "cn_out (cd_conn c) = []" and "cn_in (cd_conn c) = calls_stream reqs"
    and "\<And>q. q \<in> set reqs \<Longrightarrow> good_call cf srv q" and "\<And>h v. (h, v) \<in> set reqs \<Longrightarrow> plain_header h"
    and "cn_err (cd_conn c) = EOF"
  shows "((x_serve_step cf)\<^sup>*\<^sup>* (serve_init srv c) s \<longleftrightarrow> (serve_step cf)\<^sup>*\<^sup>* (serve_init srv c) s) \<and>
    ((x_serve_step cf)\<^sup>*\<^sup>* (serve_init srv c) s \<and> (\<forall>s'. \<not> x_serve_step cf s s') \<longrightarrow>
       (\<exists>ps. cn_out (cd_conn (sg_codec s)) = stream ps \<and> mset ps = mset (map (deserved srv) reqs)))"
proof -
  have inv: "serve_inv cf srv reqs (serve_init srv c)" by (rule serve_inv_init [OF assms(2-5)])
  have p: "plain_inv (serve_init srv c)" by (rule plain_inv_init [OF assms(4,6,7)])
  note eq = x_steps_eq [OF assms(1) inv p, of s]
  have "\<exists>ps. cn_out (cd_conn (sg_codec s)) = stream ps \<and> mset ps = mset (map (deserved srv) reqs)"
    if "(x_serve_step cf)\<^sup>*\<^sup>* (serve_init srv c) s" "\<forall>s'. \<not> x_serve_step cf s s'"
  proof -
    have r: "(serve_step cf)\<^sup>*\<^sup>* (serve_init srv c) s" using that(1) eq by simp
    then have i: "serve_inv cf srv reqs s" "plain_inv s"
      using serve_inv_steps [OF assms(1) inv r] x_steps_plain [OF assms(1) inv p r] by auto
    then have "\<And>s'. \<not> serve_step cf s s'" using that(2) x_step_eq(1) [OF assms(1) i] by simp
    from serve_can_step [OF i(1) this] i(1) show ?thesis by (auto simp: serve_inv_def)
  qed
  with eq show ?thesis by blast
qed

theorem x_server_answers_all_witness:
  "\<exists>s. (x_serve_step foo_cfg)\<^sup>*\<^sup>* (serve_init [''Foo'' \<mapsto> foo_service]
         (NewGobCodec (conn_of [Hdr (call_header ''Foo.Sum'' 1), Val 3]))) s \<and>
     cn_closed (cd_conn (sg_codec s))"
proof -
  let ?srv = "[''Foo'' \<mapsto> foo_service]" and ?reqs = "[(call_header ''Foo.Sum'' 1, 3 :: int)]"
  let ?c = "NewGobCodec (conn_of [Hdr (call_header ''Foo.Sum'' 1), Val 3])"
  have t: "cf_timeout foo_cfg = 0" by (simp add: foo_cfg_def)
  have c: "wire_ok ?c" "cn_out (cd_conn ?c) = []" "cn_in (cd_conn ?c) = calls_stream ?reqs" "cn_err (cd_conn ?c) = EOF"
    by (simp_all add: wire_ok_def NewGobCodec_def conn_of_def)
  have g: "\<And>q. q \<in> set ?reqs \<Longrightarrow> good_call foo_cfg ?srv q" using foo_good by simp
  have h: "\<And>h v. (h, v) \<in> set ?reqs \<Longrightarrow> plain_header h" by (simp add: call_header_def plain_header_def)
  note inv = serve_inv_init [OF c(1-3) g]
  obtain s where s: "(serve_step foo_cfg)\<^sup>*\<^sup>* (serve_init ?srv ?c) s" "\<forall>s'. \<not> serve_step foo_cfg s s'"
    using serve_ends [OF t inv] by blast
  have "(x_serve_step foo_cfg)\<^sup>*\<^sup>* (serve_init ?srv ?c) s"
    using x_server_answers_all [where s = s, OF t c(1-3) g h c(4)] s(1) by simp
  moreover have "cn_closed (cd_conn (sg_codec s))"
    using serve_can_step(3) [OF serve_inv_steps [OF t inv s(1)]] s(2) by blast
  ultimately show ?thesis by blast
qed

text \<open>After a request for a service that does not exist the server of \<^verbatim>\<open>rpcx\<close> stays out of step with
  the stream. The body of that request is taken for a header, and to recover the server discards the
  next item, which is the header of the next request: it never gets a response, and its body is taken
  for a header in turn. The loop goes on, having sent an error response with sequence number 0 that
  no client has asked for.\<close>

theorem x_server_loses_next_request:
  assumes "wire_ok c" and "cn_in (cd_conn c) = Hdr h # Val v # Hdr h2 # Val v2 # rest"
    and "findService srv (h_ServiceMethod h) = Inl err" and "\<not> is_EOF err"
  shows "x_serve_read cf (x_serve_read cf (serve_init srv c)) =
    (serve_init srv c)\<lparr>sg_codec := popped (sent c [Hdr (response_header h err), Empty,
       Hdr (response_header zero_header err_mismatch), Empty]) (Val v2 # rest)\<rparr>"
proof -
  let ?c1 = "sent (popped c (Val v # Hdr h2 # Val v2 # rest)) [Hdr (response_header h err), Empty]"
  have "x_serve_read cf (serve_init srv c) = (serve_init srv c)\<lparr>sg_codec := ?c1\<rparr>"
    using assms
    by (simp add: x_serve_read_def serve_init_def x_readRequest_def x_ReadRequestHeader_def dec_header_def x_findService_def
        dec_next_simps x_sendResponse_def x_Write_ok can_encode_def)
  moreover have "\<not> is_EOF err_mismatch" by (simp add: is_EOF_def EOF_def ErrUnexpectedEOF_def err_mismatch_def)
  ultimately show ?thesis
    using assms(1)
    by (simp add: x_serve_read_def serve_init_def x_readRequest_def x_ReadRequestHeader_def dec_header_def dec_nil_def
        dec_next_simps x_sendResponse_def x_Write_ok can_encode_def) (simp add: popped_def sent_def)
qed

theorem x_server_loses_next_request_witness:
  "sg_running (x_serve_read foo_cfg (x_serve_read foo_cfg (serve_init [''Foo'' \<mapsto> foo_service]
     (NewGobCodec (conn_of [Hdr (call_header ''Bar.Sum'' 1), Val 3, Hdr (call_header ''Foo.Sum'' 2), Val 4]))))) = []"
proof -
  let ?err = "''find service got unknown service name: Bar.Sum''"
  have "findService [''Foo'' \<mapsto> foo_service] (h_ServiceMethod (call_header ''Bar.Sum'' 1)) = Inl ?err"
    by (simp add: findService_def call_header_def)
  moreover have "\<not> is_EOF ?err" by (simp add: is_EOF_def EOF_def ErrUnexpectedEOF_def)
  ultimately show ?thesis
    using x_server_loses_next_request [of "NewGobCodec (conn_of [Hdr (call_header ''Bar.Sum'' 1), Val 3,
        Hdr (call_header ''Foo.Sum'' 2), Val 4])" _ "3 :: int" _ 4 "[]" "[''Foo'' \<mapsto> foo_service]" ?err foo_cfg]
    by (simp add: wire_ok_def NewGobCodec_def conn_of_def serve_init_def)
qed

text \<open>The loop of \<^verbatim>\<open>rpcx\<close> does not end when the connection fails. If reading yields an error other
  than the end of the stream, every further round reads the same error, sends one more response
  that nobody asked for, and goes on.\<close>

theorem x_server_spins_on_error:
  assumes "wire_ok c" and "cn_in (cd_conn c) = []" and "\<not> is_EOF (cn_err (cd_conn c))"
  shows "((x_serve_read cf) ^^ n) (serve_init srv c) =
    (serve_init srv c)\<lparr>sg_codec := sent c (concat (replicate n [Hdr (response_header zero_header (cn_err (cd_conn c))), Empty]))\<rparr>"
proof (induction n)
  case (Suc n)
  let ?its = "concat (replicate n [Hdr (response_header zero_header (cn_err (cd_conn c))), Empty])"
  have "x_serve_read cf ((serve_init srv c)\<lparr>sg_codec := sent c ?its\<rparr>) =
      (serve_init srv c)\<lparr>sg_codec := sent (sent c ?its) [Hdr (response_header zero_header (cn_err (cd_conn c))), Empty]\<rparr>"
    using assms
    by (simp add: x_serve_read_def serve_init_def x_readRequest_def x_ReadRequestHeader_def dec_header_def dec_nil_def
        dec_next_simps x_sendResponse_def x_Write_ok can_encode_def)
  also have "sent (sent c ?its) [Hdr (response_header zero_header (cn_err (cd_conn c))), Empty] =
      sent c (?its @ [Hdr (response_header zero_header (cn_err (cd_conn c))), Empty])" by (simp add: sent_def)
  also have "?its @ [Hdr (response_header zero_header (cn_err (cd_conn c))), Empty] =
      concat (replicate (Suc n) [Hdr (response_header zero_header (cn_err (cd_conn c))), Empty])"
    by (induction n) auto
  finally show ?case using Suc by simp
qed (simp add: sent_def serve_init_def)

theorem x_server_spins_on_error_witness:
  "sg_loop (((x_serve_read foo_cfg) ^^ 1000) (serve_init NewServer
     (NewGobCodec ((conn_of [])\<lparr>cn_err := ''connection reset by peer''\<rparr>))))"
  using x_server_spins_on_error [of "NewGobCodec ((conn_of [])\<lparr>cn_err := ''connection reset by peer''\<rparr>)"
      1000 foo_cfg NewServer]
  by (simp add: wire_ok_def NewGobCodec_def conn_of_def is_EOF_def EOF_def ErrUnexpectedEOF_def serve_init_def)

end
