(* ===== verification/Rpc_Client.thy ===== *)
theory Rpc_Client
  imports Gob_Codec
begin

section \<open>The RPC client (\<^verbatim>\<open>rpc/client.go\<close>)\<close>

text \<open>
  A client numbers its calls, keeps the outstanding ones in \<^verbatim>\<open>pending\<close>, and a goroutine reads responses
  and completes the call with the number in the header. Calls are objects on a heap, since the
  goroutine that waits for a call and the map both point to it; a completed call is put into its
  channel \<^verbatim>\<open>Done\<close>, of which the number of elements and the capacity are kept (a channel that several
  calls share is not modelled). The functions below are the critical sections and straight pieces of
  the methods; \<^verbatim>\<open>receive\<close> is the loop of the goroutine on everything that arrives, up to the error that
  ends the connection.
\<close>

subsection \<open>State\<close>

record 'v rpc_call =
  ca_Seq :: uint64
  ca_ServiceMethod :: string
  ca_Args :: 'v
  ca_Reply :: "'v option"
  ca_Error :: "string option"
  ca_chan :: nat
  ca_cap :: nat

text \<open>\<open>cl_blocked\<close>: the goroutine that receives waits for ever on a full channel.\<close>

record 'v client =
  cl_codec :: "'v codec"
  cl_seq :: uint64
  cl_pending :: "(uint64, nat) gomap"
  cl_closing :: bool
  cl_shutdown :: bool
  cl_heap :: "nat \<Rightarrow> 'v rpc_call"
  cl_next :: nat
  cl_blocked :: bool

record 'v client_cfg =
  cc_fits :: "'v \<Rightarrow> bool"
  cc_encodable :: "'v \<Rightarrow> bool"

definition new_client :: "'v codec \<Rightarrow> (nat \<Rightarrow> 'v rpc_call) \<Rightarrow> 'v client" where
  "new_client c heap = \<lparr>cl_codec = c, cl_seq = 1, cl_pending = [], cl_closing = False, cl_shutdown = False,
     cl_heap = heap, cl_next = 0, cl_blocked = False\<rparr>"

definition upd_call :: "nat \<Rightarrow> ('v rpc_call \<Rightarrow> 'v rpc_call) \<Rightarrow> 'v client \<Rightarrow> 'v client" where
  "upd_call a f cl = cl\<lparr>cl_heap := (cl_heap cl)(a := f (cl_heap cl a))\<rparr>"

subsection \<open>Operations\<close>

definition Call_done :: "nat \<Rightarrow> 'v client \<Rightarrow> 'v client" where
  "Call_done a cl =
     (if ca_chan (cl_heap cl a) < ca_cap (cl_heap cl a) then upd_call a (\<lambda>c. c\<lparr>ca_chan := ca_chan c + 1\<rparr>) cl
      else cl\<lparr>cl_blocked := True\<rparr>)"

definition registerCall :: "nat \<Rightarrow> 'v client \<Rightarrow> 'v client" where
  "registerCall a cl =
     (let cl1 = upd_call a (\<lambda>c. c\<lparr>ca_Seq := cl_seq cl\<rparr>) cl
      in cl1\<lparr>cl_pending := AList.update (cl_seq cl) a (cl_pending cl1), cl_seq := cl_seq cl + 1\<rparr>)"

definition removeCall :: "uint64 \<Rightarrow> 'v client \<Rightarrow> nat option \<times> 'v client" where
  "removeCall seq cl =
     (case map_of (cl_pending cl) seq of
        None \<Rightarrow> (None, cl)
      | Some a \<Rightarrow> (Some a, cl\<lparr>cl_pending := AList.delete seq (cl_pending cl)\<rparr>))"

text \<open>\<^verbatim>\<open>terminateCalls\<close> completes every call that is pending, and leaves it in the map.\<close>

definition terminateCalls :: "string option \<Rightarrow> 'v client \<Rightarrow> 'v client" where
  "terminateCalls err cl =
     foldl (\<lambda>cl (_, a). if cl_blocked cl then cl else Call_done a (upd_call a (\<lambda>c. c\<lparr>ca_Error := err\<rparr>) cl))
       (cl\<lparr>cl_shutdown := True\<rparr>) (cl_pending cl)"

text \<open>\<^verbatim>\<open>send\<close>, when no other goroutine is in it at the same time.\<close>

definition Client_send :: "'v client_cfg \<Rightarrow> nat \<Rightarrow> 'v client \<Rightarrow> 'v client" where
  "Client_send cf a cl =
     (let cl1 = registerCall a cl;
          seq = ca_Seq (cl_heap cl1 a);
          h = \<lparr>h_ServiceMethod = ca_ServiceMethod (cl_heap cl1 a), h_Seq = seq, h_Error = '''', h_Timeout = 0\<rparr>;
          (err, c) = gob_Write (cc_encodable cf) h (Val (ca_Args (cl_heap cl1 a))) (cl_codec cl1);
          cl2 = cl1\<lparr>cl_codec := c\<rparr>
      in case err of
           None \<Rightarrow> cl2
         | Some e \<Rightarrow>
             (case removeCall seq cl2 of
                (None, cl3) \<Rightarrow> cl3
              | (Some a', cl3) \<Rightarrow> Call_done a' (upd_call a' (\<lambda>c. c\<lparr>ca_Error := Some e\<rparr>) cl3)))"

text \<open>\<^verbatim>\<open>Go\<close>: a channel without capacity panics (\<^const>\<open>None\<close>); without a channel one of capacity 1 is made. The
  reply variable holds no result yet.\<close>

definition Client_Go :: "'v client_cfg \<Rightarrow> string \<Rightarrow> 'v \<Rightarrow> nat option \<Rightarrow> 'v client \<Rightarrow> (nat \<times> 'v client) option" where
  "Client_Go cf serviceMethod args done cl =
     (let cap = (case done of None \<Rightarrow> 1 | Some n \<Rightarrow> n)
      in if cap = 0 then None
         else
           let a = cl_next cl;
               call = \<lparr>ca_Seq = 0, ca_ServiceMethod = serviceMethod, ca_Args = args, ca_Reply = None, ca_Error = None,
                       ca_chan = 0, ca_cap = cap\<rparr>
           in Some (a, Client_send cf a (cl\<lparr>cl_next := Suc a, cl_heap := (cl_heap cl)(a := call)\<rparr>)))"

text \<open>No lock is held in \<^verbatim>\<open>send\<close> once the call is registered, so goroutines that use one client can be in \<^verbatim>\<open>cc.Write\<close> at the same time. These are
  the pieces of \<^verbatim>\<open>send\<close> between which others can come: an \<^verbatim>\<open>Encode\<close> is whole, since a gob encoder has a lock of its own; \<^verbatim>\<open>Flush\<close> is taken as whole
  (in Go it may even race with the \<^verbatim>\<open>Encode\<close> of another goroutine); then the deferred \<^verbatim>\<open>Close\<close> and \<^verbatim>\<open>removeCall\<close>, after an error.\<close>

datatype sending = Enc_header | Enc_body | Flush_buf "string option" | Close_conn string | Give_up string

definition request_header :: "nat \<Rightarrow> 'v client \<Rightarrow> header" where
  "request_header a cl =
     \<lparr>h_ServiceMethod = ca_ServiceMethod (cl_heap cl a), h_Seq = ca_Seq (cl_heap cl a), h_Error = '''', h_Timeout = 0\<rparr>"

fun send_piece :: "'v client_cfg \<Rightarrow> nat \<Rightarrow> sending \<Rightarrow> 'v client \<Rightarrow> sending option \<times> 'v client" where
  "send_piece cf a Enc_header cl =
     (let (err, c) = enc_item (cc_encodable cf) (Hdr (request_header a cl)) (cl_codec cl)
      in (Some (case err of None \<Rightarrow> Enc_body | Some e \<Rightarrow> Flush_buf (Some e)), cl\<lparr>cl_codec := c\<rparr>))"
| "send_piece cf a Enc_body cl =
     (let (err, c) = enc_item (cc_encodable cf) (Val (ca_Args (cl_heap cl a))) (cl_codec cl)
      in (Some (Flush_buf err), cl\<lparr>cl_codec := c\<rparr>))"
| "send_piece cf a (Flush_buf err) cl = (map_option Close_conn err, cl\<lparr>cl_codec := snd (buf_Flush (cl_codec cl))\<rparr>)"
| "send_piece cf a (Close_conn e) cl = (Some (Give_up e), cl\<lparr>cl_codec := gob_Close (cl_codec cl)\<rparr>)"
| "send_piece cf a (Give_up e) cl =
     (None, case removeCall (ca_Seq (cl_heap cl a)) cl of
              (None, cl') \<Rightarrow> cl'
            | (Some a', cl') \<Rightarrow> Call_done a' (upd_call a' (\<lambda>c. c\<lparr>ca_Error := Some e\<rparr>) cl'))"

text \<open>\<^verbatim>\<open>Go\<close> up to the end of \<^verbatim>\<open>registerCall\<close>.\<close>

definition Go_register :: "string \<Rightarrow> 'v \<Rightarrow> nat option \<Rightarrow> 'v client \<Rightarrow> (nat \<times> 'v client) option" where
  "Go_register serviceMethod args done cl =
     (let cap = (case done of None \<Rightarrow> 1 | Some n \<Rightarrow> n)
      in if cap = 0 then None
         else
           let a = cl_next cl;
               call = \<lparr>ca_Seq = 0, ca_ServiceMethod = serviceMethod, ca_Args = args, ca_Reply = None, ca_Error = None,
                       ca_chan = 0, ca_cap = cap\<rparr>
           in Some (a, registerCall a (cl\<lparr>cl_next := Suc a, cl_heap := (cl_heap cl)(a := call)\<rparr>)))"

text \<open>A goroutine that is alone in \<^verbatim>\<open>send\<close> goes through the pieces as \<^const>\<open>Client_Go\<close> does.\<close>

primrec piece_rank :: "sending \<Rightarrow> nat" where
  "piece_rank Enc_header = 5"
| "piece_rank Enc_body = 4"
| "piece_rank (Flush_buf err) = 3"
| "piece_rank (Close_conn e) = 2"
| "piece_rank (Give_up e) = 1"

lemma send_piece_rank: "send_piece cf a p cl = (Some p', cl') \<Longrightarrow> piece_rank p' < piece_rank p"
  by (cases p) (auto split: prod.splits option.splits)

function send_alone :: "'v client_cfg \<Rightarrow> nat \<Rightarrow> sending \<Rightarrow> 'v client \<Rightarrow> 'v client" where
  "send_alone cf a p cl =
     (case send_piece cf a p cl of (None, cl') \<Rightarrow> cl' | (Some p', cl') \<Rightarrow> send_alone cf a p' cl')"
  by pat_completeness auto
termination
  by (relation "measure (\<lambda>(cf, a, p, cl). piece_rank p)") (simp, metis in_measure case_prod_conv send_piece_rank)

declare send_alone.simps [simp del]

lemma Client_Go_pieces:
  "Client_Go cf sm v done cl = map_option (\<lambda>(a, cl'). (a, send_alone cf a Enc_header cl')) (Go_register sm v done cl)"
  by (cases "cc_encodable cf v")
    (auto simp: Client_Go_def Go_register_def Client_send_def gob_Write_def enc_item_def request_header_def registerCall_def upd_call_def
      send_alone.simps removeCall_def gob_Close_def Let_def split: option.splits)

text \<open>The \<^verbatim>\<open>select\<close> of \<^verbatim>\<open>Call\<close>: the context is over, or the call is in the channel.\<close>

definition Call_ctx_done :: "string \<Rightarrow> nat \<Rightarrow> 'v client \<Rightarrow> string \<times> 'v client" where
  "Call_ctx_done ctx_err a cl =
     (''rpc client: call failed: '' @ ctx_err, snd (removeCall (ca_Seq (cl_heap cl a)) cl))"

definition Call_completed :: "nat \<Rightarrow> 'v client \<Rightarrow> (string option \<times> 'v client) option" where
  "Call_completed a cl =
     (if ca_chan (cl_heap cl a) = 0 then None
      else Some (ca_Error (cl_heap cl a), upd_call a (\<lambda>c. c\<lparr>ca_chan := ca_chan c - 1\<rparr>) cl))"

definition ErrShutdown :: string where "ErrShutdown = ''connection is shut down''"

definition Client_Close :: "'v client \<Rightarrow> string option \<times> 'v client" where
  "Client_Close cl =
     (if cl_closing cl then (Some ErrShutdown, cl)
      else (None, cl\<lparr>cl_closing := True, cl_codec := gob_Close (cl_codec cl)\<rparr>))"

definition Client_IsAvailable :: "'v client \<Rightarrow> bool" where
  "Client_IsAvailable cl \<longleftrightarrow> \<not> cl_shutdown cl \<and> \<not> cl_closing cl"

text \<open>One round of the loop in \<^verbatim>\<open>receive\<close>. \<open>Break err\<close>: the loop ends with that value of the variable \<^verbatim>\<open>err\<close>.\<close>

datatype loop_ctl = Continue | Break "string option"

definition receive_round :: "'v client_cfg \<Rightarrow> 'v client \<Rightarrow> loop_ctl \<times> 'v client" where
  "receive_round cf cl =
     (case gob_ReadHeader (cl_codec cl) of
        (Inl err, c) \<Rightarrow> (Break (Some err), cl\<lparr>cl_codec := c\<rparr>)
      | (Inr h, c) \<Rightarrow>
          (case removeCall (h_Seq h) (cl\<lparr>cl_codec := c\<rparr>) of
             (None, cl1) \<Rightarrow> (let (err, c1) = dec_nil (cl_codec cl1) in (Break err, cl1\<lparr>cl_codec := c1\<rparr>))
           | (Some a, cl1) \<Rightarrow>
               if h_Error h \<noteq> '''' then
                 (let cl2 = upd_call a (\<lambda>c. c\<lparr>ca_Error := Some (h_Error h)\<rparr>) cl1;
                      (err, c1) = dec_nil (cl_codec cl2)
                  in (Break err, Call_done a (cl2\<lparr>cl_codec := c1\<rparr>)))
               else
                 (case gob_ReadBody (cc_fits cf) (cl_codec cl1) of
                    (Inl err, c1) \<Rightarrow>
                      (Break (Some err),
                       Call_done a (upd_call a (\<lambda>c. c\<lparr>ca_Error := Some (''read body error '' @ err)\<rparr>) (cl1\<lparr>cl_codec := c1\<rparr>)))
                  | (Inr v, c1) \<Rightarrow>
                      (Continue, Call_done a (upd_call a (\<lambda>c. c\<lparr>ca_Reply := Some v\<rparr>) (cl1\<lparr>cl_codec := c1\<rparr>))))))"

lemma Call_done_codec [simp]: "cl_codec (Call_done a cl) = cl_codec cl" "cl_pending (Call_done a cl) = cl_pending cl"
  "cl_codec (upd_call a f cl) = cl_codec cl" "cl_pending (upd_call a f cl) = cl_pending cl"
  by (simp_all add: Call_done_def upd_call_def)

lemma receive_round_shorter:
  assumes "receive_round cf cl = (Continue, cl')"
  shows "length (cn_in (cd_conn (cl_codec cl'))) < length (cn_in (cd_conn (cl_codec cl)))"
proof -
  have pop: "fst (dec_next c) = Inr it \<Longrightarrow>
      length (cn_in (cd_conn (snd (dec_next c)))) < length (cn_in (cd_conn c))" for c :: "'a codec" and it
    by (auto simp: dec_next_def split: if_splits list.splits)
  obtain h c a c1 v where "dec_next (cl_codec cl) = (Inr (Hdr h), c)" "dec_next c = (Inr (Val v), c1)" "cl_codec cl' = c1"
    using assms
    by (auto simp: receive_round_def gob_ReadHeader_def dec_header_def gob_ReadBody_def dec_value_def removeCall_def Let_def
        split: prod.splits sum.splits item.splits option.splits if_splits)
  then show ?thesis using pop [of "cl_codec cl" "Hdr h"] pop [of c "Val v"] by simp
qed

text \<open>\<^verbatim>\<open>receive\<close>; a goroutine that is blocked in \<^verbatim>\<open>done\<close> does not go on.\<close>

function receive :: "'v client_cfg \<Rightarrow> 'v client \<Rightarrow> 'v client" where
  "receive cf cl =
     (case receive_round cf cl of
        (Continue, cl') \<Rightarrow> if cl_blocked cl' then cl' else receive cf cl'
      | (Break err, cl') \<Rightarrow> if cl_blocked cl' then cl' else terminateCalls err cl')"
  by pat_completeness auto
termination
  by (relation "measure (\<lambda>(cf, cl). length (cn_in (cd_conn (cl_codec cl))))") (auto simp: receive_round_shorter)

declare receive.simps [simp del]

subsection \<open>The invariant of a client\<close>

definition client_inv :: "'v client \<Rightarrow> bool" where
  "client_inv cl \<longleftrightarrow> \<not> cl_blocked cl \<and> distinct (map fst (cl_pending cl)) \<and>
     (\<forall>n a. map_of (cl_pending cl) n = Some a \<longrightarrow>
        ca_Seq (cl_heap cl a) = n \<and> ca_chan (cl_heap cl a) = 0 \<and> 0 < ca_cap (cl_heap cl a) \<and> a < cl_next cl)"

lemma client_inv_inj:
  "client_inv cl \<Longrightarrow> map_of (cl_pending cl) n = Some a \<Longrightarrow> map_of (cl_pending cl) m = Some a \<Longrightarrow> n = m"
  unfolding client_inv_def by metis

text \<open>The response \<open>v\<close> to the call numbered as in \<open>h\<close> has arrived.\<close>

definition deliver :: "'v client \<Rightarrow> header \<Rightarrow> 'v \<Rightarrow> 'v item list \<Rightarrow> 'v client" where
  "deliver cl h v rest =
     (let a = the (map_of (cl_pending cl) (h_Seq h))
      in cl\<lparr>cl_codec := popped (cl_codec cl) rest, cl_pending := AList.delete (h_Seq h) (cl_pending cl),
            cl_heap := (cl_heap cl)(a := (cl_heap cl a)\<lparr>ca_Reply := Some v, ca_chan := 1\<rparr>)\<rparr>)"

lemma receive_round_deliver:
  assumes inv: "client_inv cl" and op: "\<not> cn_closed (cd_conn (cl_codec cl))"
    and inp: "cn_in (cd_conn (cl_codec cl)) = Hdr h # Val v # rest" and h: "h_Error h = ''''" "cc_fits cf v"
    and a: "map_of (cl_pending cl) (h_Seq h) = Some a"
  shows "receive_round cf cl = (Continue, deliver cl h v rest)"
proof -
  have "ca_chan (cl_heap cl a) = 0" "0 < ca_cap (cl_heap cl a)" using inv a by (auto simp: client_inv_def)
  then show ?thesis using assms(2-)
    by (simp add: receive_round_def gob_ReadHeader_def dec_header_def gob_ReadBody_def dec_value_def dec_next_simps removeCall_def
        Call_done_def upd_call_def deliver_def)
qed

lemma map_of_delete: "map_of (AList.delete k xs) = (map_of xs)(k := None)"
  by (rule delete_conv')

lemma client_inv_deliver:
  assumes inv: "client_inv cl" and a: "map_of (cl_pending cl) (h_Seq h) = Some a"
  shows "client_inv (deliver cl h v rest)"
proof -
  have "b \<noteq> a" if "map_of (cl_pending cl) n = Some b" "n \<noteq> h_Seq h" for n b
    using client_inv_inj [OF inv a] that by blast
  then show ?thesis using inv a
    by (auto simp: client_inv_def deliver_def map_of_delete distinct_delete Let_def split: if_splits)
qed

lemma receive_deliver:
  assumes "client_inv cl" "\<not> cn_closed (cd_conn (cl_codec cl))"
    "cn_in (cd_conn (cl_codec cl)) = Hdr h # Val v # rest" "h_Error h = ''''" "cc_fits cf v"
    "map_of (cl_pending cl) (h_Seq h) = Some a"
  shows "receive cf cl = receive cf (deliver cl h v rest)"
proof -
  have "\<not> cl_blocked (deliver cl h v rest)" using client_inv_deliver [OF assms(1,6)] by (simp add: client_inv_def)
  then show ?thesis using receive_round_deliver [OF assms] by (simp add: receive.simps [of cf cl])
qed

lemma receive_end:
  assumes "client_inv cl" "\<not> cn_closed (cd_conn (cl_codec cl))" "cn_in (cd_conn (cl_codec cl)) = []"
  shows "receive cf cl = terminateCalls (Some (cn_err (cd_conn (cl_codec cl)))) cl"
  using assms
  by (simp add: receive.simps [of cf cl] receive_round_def gob_ReadHeader_def dec_header_def dec_next_simps client_inv_def)

text \<open>Replies that answer calls which are pending, in any order.\<close>

definition replies_ok :: "'v client_cfg \<Rightarrow> 'v client \<Rightarrow> (header \<times> 'v) list \<Rightarrow> bool" where
  "replies_ok cf cl ps \<longleftrightarrow> distinct (map (h_Seq \<circ> fst) ps) \<and>
     (\<forall>(h, v) \<in> set ps. h_Error h = '''' \<and> cc_fits cf v \<and> h_Seq h \<in> dom (map_of (cl_pending cl)))"

lemma receive_deliveries:
  assumes "client_inv cl" "\<not> cn_closed (cd_conn (cl_codec cl))" "cn_in (cd_conn (cl_codec cl)) = calls_stream ps" "replies_ok cf cl ps"
  shows "\<exists>cl'. receive cf cl = terminateCalls (Some (cn_err (cd_conn (cl_codec cl)))) cl' \<and> client_inv cl' \<and>
    cl_closing cl' = cl_closing cl \<and>
    map_of (cl_pending cl') = map_of (cl_pending cl) |` (- (h_Seq \<circ> fst) ` set ps) \<and>
    (\<forall>a. (\<forall>(h, v) \<in> set ps. map_of (cl_pending cl) (h_Seq h) \<noteq> Some a) \<longrightarrow> cl_heap cl' a = cl_heap cl a) \<and>
    (\<forall>(h, v) \<in> set ps. \<forall>a. map_of (cl_pending cl) (h_Seq h) = Some a \<longrightarrow>
       cl_heap cl' a = (cl_heap cl a)\<lparr>ca_Reply := Some v, ca_chan := 1\<rparr>)"
  using assms
proof (induction ps arbitrary: cl)
  case Nil
  then show ?case using receive_end [OF Nil.prems(1,2)] by auto
next
  case (Cons p ps)
  obtain h v where p: "p = (h, v)" by (cases p)
  obtain a where a: "map_of (cl_pending cl) (h_Seq h) = Some a" using Cons.prems(4) p by (auto simp: replies_ok_def)
  let ?cl = "deliver cl h v (calls_stream ps)"
  have r: "receive cf cl = receive cf ?cl"
    using Cons.prems p a by (intro receive_deliver) (auto simp: replies_ok_def)
  have pend: "map_of (cl_pending ?cl) = (map_of (cl_pending cl))(h_Seq h := None)"
    by (simp add: deliver_def map_of_delete Let_def)
  have heap: "cl_heap ?cl = (cl_heap cl)(a := (cl_heap cl a)\<lparr>ca_Reply := Some v, ca_chan := 1\<rparr>)"
    by (simp add: deliver_def a Let_def)
  have other: "h_Seq h' \<noteq> h_Seq h" if "(h', v') \<in> set ps" for h' v'
    using Cons.prems(4) p that by (force simp: replies_ok_def)
  have na: "map_of (cl_pending cl) (h_Seq h') \<noteq> Some a" if "(h', v') \<in> set ps" for h' v'
    using other [OF that] client_inv_inj [OF Cons.prems(1) a] by metis
  have "replies_ok cf ?cl ps"
    using Cons.prems(4) p other unfolding replies_ok_def pend by auto
  then obtain cl' where cl': "receive cf ?cl = terminateCalls (Some (cn_err (cd_conn (cl_codec ?cl)))) cl'" "client_inv cl'"
      "cl_closing cl' = cl_closing ?cl" "map_of (cl_pending cl') = map_of (cl_pending ?cl) |` (- (h_Seq \<circ> fst) ` set ps)"
      "\<And>b. (\<forall>(h, v) \<in> set ps. map_of (cl_pending ?cl) (h_Seq h) \<noteq> Some b) \<Longrightarrow> cl_heap cl' b = cl_heap ?cl b"
      "\<And>h' v' b. (h', v') \<in> set ps \<Longrightarrow> map_of (cl_pending ?cl) (h_Seq h') = Some b \<Longrightarrow>
         cl_heap cl' b = (cl_heap ?cl b)\<lparr>ca_Reply := Some v', ca_chan := 1\<rparr>"
    using Cons.IH [OF client_inv_deliver [OF Cons.prems(1) a]] Cons.prems(2) by (fastforce simp: deliver_def Let_def)
  have codec: "cn_err (cd_conn (cl_codec ?cl)) = cn_err (cd_conn (cl_codec cl))" "cl_closing ?cl = cl_closing cl"
    by (simp_all add: deliver_def Let_def)
  have "map_of (cl_pending cl') = map_of (cl_pending cl) |` (- (h_Seq \<circ> fst) ` set (p # ps))"
    unfolding cl'(4) pend p by (auto simp: restrict_map_def fun_eq_iff)
  moreover have "cl_heap cl' b = cl_heap cl b" if "\<forall>(h', v') \<in> set (p # ps). map_of (cl_pending cl) (h_Seq h') \<noteq> Some b" for b
  proof -
    have "\<forall>(h', v') \<in> set ps. map_of (cl_pending ?cl) (h_Seq h') \<noteq> Some b" "b \<noteq> a" using that a p by (fastforce simp: pend split: if_splits)+
    then show ?thesis using cl'(5) [of b] heap by simp
  qed
  moreover have "cl_heap cl' b = (cl_heap cl b)\<lparr>ca_Reply := Some v', ca_chan := 1\<rparr>"
    if "(h', v') \<in> set (p # ps)" "map_of (cl_pending cl) (h_Seq h') = Some b" for h' v' b
  proof (cases "(h', v') \<in> set ps")
    case True
    then have "b \<noteq> a" using na that(2) by auto
    then show ?thesis using cl'(6) [OF True, of b] that(2) other [OF True] unfolding heap pend by simp
  next
    case False
    then have "b = a" "v' = v" using that p a by auto
    moreover have "\<forall>(h', v') \<in> set ps. map_of (cl_pending ?cl) (h_Seq h') \<noteq> Some a"
      using na by (fastforce simp: pend split: if_splits)
    then have "cl_heap cl' a = cl_heap ?cl a" by (rule cl'(5))
    ultimately show ?thesis unfolding heap by simp
  qed
  ultimately show ?case using r cl'(1-3) codec by (intro exI [of _ cl']) auto
qed

text \<open>Sending keeps the invariant: the number of the next call is not in use before \<open>2 ^ 64\<close> calls.\<close>

lemma client_inv_register:
  assumes inv: "client_inv cl" and fresh: "map_of (cl_pending cl) (cl_seq cl) = None"
    and a: "ca_chan (cl_heap cl a) = 0" "0 < ca_cap (cl_heap cl a)" "a < cl_next cl"
    and new: "\<And>n. map_of (cl_pending cl) n \<noteq> Some a"
  shows "client_inv (registerCall a cl)"
  using assms
  by (auto simp: client_inv_def registerCall_def upd_call_def update_conv distinct_update Let_def split: if_splits)

definition numbered :: "'v client \<Rightarrow> bool" where
  "numbered cl \<longleftrightarrow> (\<forall>n a. map_of (cl_pending cl) n = Some a \<longrightarrow> 0 < n \<and> n < cl_seq cl)"

text \<open>A call that has been started on a connection that works: it is pending under its number, and its
  request is on the wire.\<close>

lemma Client_Go_ok:
  assumes inv: "client_inv cl" and num: "numbered cl" and seq: "0 < cl_seq cl" "unat (cl_seq cl) + 1 < 2 ^ 64"
    and w: "wire_ok (cl_codec cl)" and enc: "cc_encodable cf v"
  shows "\<exists>cl'. Client_Go cf sm v None cl = Some (cl_next cl, cl') \<and> client_inv cl' \<and> numbered cl' \<and>
    cl_next cl' = Suc (cl_next cl) \<and> cl_seq cl' = cl_seq cl + 1 \<and>
    cl_codec cl' = sent (cl_codec cl) [Hdr \<lparr>h_ServiceMethod = sm, h_Seq = cl_seq cl, h_Error = '''', h_Timeout = 0\<rparr>, Val v] \<and>
    map_of (cl_pending cl') = (map_of (cl_pending cl))(cl_seq cl \<mapsto> cl_next cl) \<and>
    ca_Error (cl_heap cl' (cl_next cl)) = None \<and>
    cl_closing cl' = cl_closing cl \<and> cl_shutdown cl' = cl_shutdown cl \<and>
    (\<forall>a. a \<noteq> cl_next cl \<longrightarrow> cl_heap cl' a = cl_heap cl a)"
proof -
  let ?a = "cl_next cl"
  let ?call = "\<lparr>ca_Seq = 0, ca_ServiceMethod = sm, ca_Args = v, ca_Reply = None, ca_Error = None, ca_chan = 0, ca_cap = 1\<rparr>"
  let ?cl1 = "cl\<lparr>cl_next := Suc ?a, cl_heap := (cl_heap cl)(?a := ?call)\<rparr>"
  let ?cl2 = "registerCall ?a ?cl1"
  have lt: "a < ?a" if "map_of (cl_pending cl) n = Some a" for n a using inv that by (auto simp: client_inv_def)
  then have new: "map_of (cl_pending ?cl1) n \<noteq> Some ?a" for n by fastforce
  have "client_inv ?cl1" using inv lt by (fastforce simp: client_inv_def)
  moreover have "map_of (cl_pending ?cl1) (cl_seq ?cl1) = None"
    using num by (cases "map_of (cl_pending cl) (cl_seq cl)") (auto simp: numbered_def)
  ultimately have i2: "client_inv ?cl2" using new by (intro client_inv_register) auto
  have less: "cl_seq cl < cl_seq cl + 1"
    using seq(2) by (simp add: word_less_nat_alt unat_word_ariths(1))
  have n2: "numbered ?cl2"
    using num less seq(1) by (auto simp: numbered_def registerCall_def update_conv Let_def upd_call_def intro: less_trans)
  let ?h = "\<lparr>h_ServiceMethod = sm, h_Seq = cl_seq cl, h_Error = '''', h_Timeout = 0\<rparr>"
  have wr: "gob_Write (cc_encodable cf) ?h (Val v) (cl_codec cl) = (None, sent (cl_codec cl) [Hdr ?h, Val v])"
    using w enc by (intro gob_Write_ok) (auto simp: can_encode_def)
  have "Client_Go cf sm v None cl = Some (?a, ?cl2\<lparr>cl_codec := sent (cl_codec cl) [Hdr ?h, Val v]\<rparr>)"
    using wr by (simp add: Client_Go_def Client_send_def registerCall_def upd_call_def Let_def)
  then show ?thesis using i2 n2
    by (auto simp: client_inv_def numbered_def registerCall_def upd_call_def update_conv Let_def)
qed

text \<open>The end of the loop completes every call that is still pending.\<close>

lemma terminate_fold:
  fixes xs :: "(uint64, nat) gomap"
  assumes "\<not> cl_blocked cl" "distinct (map snd xs)"
    "\<And>n a. (n, a) \<in> set xs \<Longrightarrow> ca_chan (cl_heap cl a) = 0 \<and> 0 < ca_cap (cl_heap cl a)"
  shows "foldl (\<lambda>cl (_, a). if cl_blocked cl then cl else Call_done a (upd_call a (\<lambda>c. c\<lparr>ca_Error := err\<rparr>) cl)) cl xs =
    cl\<lparr>cl_heap := (\<lambda>a. if a \<in> snd ` set xs then (cl_heap cl a)\<lparr>ca_Error := err, ca_chan := 1\<rparr> else cl_heap cl a)\<rparr>"
  using assms
proof (induction xs arbitrary: cl)
  case (Cons x xs)
  obtain n a where x: "x = (n, a)" by (cases x)
  let ?cl = "cl\<lparr>cl_heap := (cl_heap cl)(a := (cl_heap cl a)\<lparr>ca_Error := err, ca_chan := 1\<rparr>)\<rparr>"
  let ?f = "\<lambda>cl (_ :: uint64, a). if cl_blocked cl then cl else Call_done a (upd_call a (\<lambda>c. c\<lparr>ca_Error := err\<rparr>) cl)"
  have step: "Call_done a (upd_call a (\<lambda>c. c\<lparr>ca_Error := err\<rparr>) cl) = ?cl"
    using Cons.prems(3) [of n a] x by (simp add: Call_done_def upd_call_def)
  have a: "a \<notin> snd ` set xs" using Cons.prems(2) x by simp
  have ok: "ca_chan (cl_heap ?cl b) = 0 \<and> 0 < ca_cap (cl_heap ?cl b)" if "(m, b) \<in> set xs" for m b
    using Cons.prems(3) [of m b] that a by (auto simp: image_iff)
  have "foldl ?f cl (x # xs) = foldl ?f ?cl xs" using Cons.prems(1) by (simp only: x foldl.simps step prod.case if_False)
  also have "\<dots> = ?cl\<lparr>cl_heap := (\<lambda>b. if b \<in> snd ` set xs then (cl_heap ?cl b)\<lparr>ca_Error := err, ca_chan := 1\<rparr> else cl_heap ?cl b)\<rparr>"
    using Cons.prems(1,2) ok by (intro Cons.IH) auto
  also have "(\<lambda>b. if b \<in> snd ` set xs then (cl_heap ?cl b)\<lparr>ca_Error := err, ca_chan := 1\<rparr> else cl_heap ?cl b) =
      (\<lambda>b. if b \<in> snd ` set (x # xs) then (cl_heap cl b)\<lparr>ca_Error := err, ca_chan := 1\<rparr> else cl_heap cl b)"
    using a by (auto simp: x fun_eq_iff)
  finally show ?case by simp
qed simp

lemma terminateCalls_eq:
  assumes inv: "client_inv cl"
  shows "terminateCalls err cl = cl\<lparr>cl_shutdown := True, cl_heap :=
    (\<lambda>a. if \<exists>n. map_of (cl_pending cl) n = Some a then (cl_heap cl a)\<lparr>ca_Error := err, ca_chan := 1\<rparr> else cl_heap cl a)\<rparr>"
proof -
  have d: "distinct (map fst (cl_pending cl))" using inv by (simp add: client_inv_def)
  have iff: "(n, a) \<in> set (cl_pending cl) \<longleftrightarrow> map_of (cl_pending cl) n = Some a" for n a using d by simp
  have "inj_on snd (set (cl_pending cl))"
    using client_inv_inj [OF inv] by (force simp: inj_on_def iff)
  then have d2: "distinct (map snd (cl_pending cl))" using d by (simp add: distinct_map)
  have mem: "a \<in> snd ` set (cl_pending cl) \<longleftrightarrow> (\<exists>n. map_of (cl_pending cl) n = Some a)" for a
    by (metis (no_types) iff imageE image_eqI prod.collapse snd_conv)
  have nb: "\<not> cl_blocked (cl\<lparr>cl_shutdown := True\<rparr>)" using inv by (simp add: client_inv_def)
  have ok: "ca_chan (cl_heap (cl\<lparr>cl_shutdown := True\<rparr>) a) = 0 \<and> 0 < ca_cap (cl_heap (cl\<lparr>cl_shutdown := True\<rparr>) a)"
    if "(n, a) \<in> set (cl_pending cl)" for n a
  proof -
    have "ca_chan (cl_heap cl a) = 0 \<and> 0 < ca_cap (cl_heap cl a)" using inv that unfolding iff client_inv_def by blast
    then show ?thesis by simp
  qed
  show ?thesis unfolding terminateCalls_def
    by (rule trans [OF terminate_fold [OF nb d2]], erule ok, simp add: mem cong: if_cong)
qed

lemma receive_all:
  assumes "client_inv cl" and "\<not> cn_closed (cd_conn (cl_codec cl))" and "cn_in (cd_conn (cl_codec cl)) = calls_stream ps"
    and "replies_ok cf cl ps" and "(h_Seq \<circ> fst) ` set ps = dom (map_of (cl_pending cl))"
  shows "cl_pending (receive cf cl) = [] \<and> \<not> cl_blocked (receive cf cl) \<and> \<not> Client_IsAvailable (receive cf cl) \<and>
    (\<forall>h v a. (h, v) \<in> set ps \<and> map_of (cl_pending cl) (h_Seq h) = Some a \<longrightarrow>
       cl_heap (receive cf cl) a = (cl_heap cl a)\<lparr>ca_Reply := Some v, ca_chan := 1\<rparr>)"
proof -
  obtain cl' where cl': "receive cf cl = terminateCalls (Some (cn_err (cd_conn (cl_codec cl)))) cl'" "client_inv cl'"
    "map_of (cl_pending cl') = map_of (cl_pending cl) |` (- (h_Seq \<circ> fst) ` set ps)"
    "\<forall>(h, v) \<in> set ps. \<forall>a. map_of (cl_pending cl) (h_Seq h) = Some a \<longrightarrow>
       cl_heap cl' a = (cl_heap cl a)\<lparr>ca_Reply := Some v, ca_chan := 1\<rparr>"
    using receive_deliveries [OF assms(1-4)] by blast
  have "map_of (cl_pending cl') = Map.empty"
    unfolding cl'(3) assms(5) by (auto simp: restrict_map_def fun_eq_iff)
  then have "cl_pending cl' = []" by simp
  then have "receive cf cl = cl'\<lparr>cl_shutdown := True\<rparr>" unfolding cl'(1) by (simp add: terminateCalls_def)
  then show ?thesis
    using cl'(2,4) \<open>cl_pending cl' = []\<close> by (auto simp: client_inv_def Client_IsAvailable_def)
qed

subsection \<open>Properties\<close>

text \<open>C18: a reply goes to the call it answers. When the replies to all pending calls arrive, in any order
  and without errors, each call is completed with exactly the body that followed the header with its
  number, and with no error of its own; no call is completed twice, and none is left in the map.\<close>

theorem receive_matches_replies:
  assumes "client_inv cl" and "\<not> cn_closed (cd_conn (cl_codec cl))" and "cn_in (cd_conn (cl_codec cl)) = calls_stream ps"
    and "replies_ok cf cl ps" and "(h_Seq \<circ> fst) ` set ps = dom (map_of (cl_pending cl))"
  shows "cl_pending (receive cf cl) = [] \<and> \<not> cl_blocked (receive cf cl) \<and> \<not> Client_IsAvailable (receive cf cl) \<and>
    (\<forall>h v a. (h, v) \<in> set ps \<and> map_of (cl_pending cl) (h_Seq h) = Some a \<longrightarrow>
       cl_heap (receive cf cl) a = (cl_heap cl a)\<lparr>ca_Reply := Some v, ca_chan := 1\<rparr>)"
  using assms by (rule receive_all)

text \<open>C19: one error response ends the client. After the call it belongs to is completed with the
  error, the loop is left, and every other pending call is completed as well: with a nil error and
  without a reply, although its response may be next on the stream, which is not read any more.\<close>

theorem error_response_ends_client:
  assumes "client_inv cl" and "\<not> cn_closed (cd_conn (cl_codec cl))" and "cn_in (cd_conn (cl_codec cl)) = Hdr h # b # rest"
    and "h_Error h \<noteq> ''''" and "map_of (cl_pending cl) (h_Seq h) = Some a"
  shows "cn_in (cd_conn (cl_codec (receive cf cl))) = rest \<and> cl_shutdown (receive cf cl) \<and>
    cl_heap (receive cf cl) a = (cl_heap cl a)\<lparr>ca_Error := Some (h_Error h), ca_chan := 1\<rparr> \<and>
    (\<forall>n a'. n \<noteq> h_Seq h \<and> map_of (cl_pending cl) n = Some a' \<longrightarrow>
       cl_heap (receive cf cl) a' = (cl_heap cl a')\<lparr>ca_Error := None, ca_chan := 1\<rparr>)"
proof -
  let ?cl = "cl\<lparr>cl_codec := popped (cl_codec cl) rest, cl_pending := AList.delete (h_Seq h) (cl_pending cl),
    cl_heap := (cl_heap cl)(a := (cl_heap cl a)\<lparr>ca_Error := Some (h_Error h), ca_chan := 1\<rparr>)\<rparr>"
  have c: "ca_chan (cl_heap cl a) = 0" "0 < ca_cap (cl_heap cl a)" "\<not> cl_blocked cl"
    using assms(1,5) by (auto simp: client_inv_def)
  have "receive_round cf cl = (Break None, ?cl)"
    using assms(2-5) c
    by (simp add: receive_round_def gob_ReadHeader_def dec_header_def dec_nil_def dec_next_simps removeCall_def
        Call_done_def upd_call_def)
  then have r: "receive cf cl = terminateCalls None ?cl" using c(3) by (simp add: receive.simps [of cf cl])
  have ne: "a' \<noteq> a" if "map_of (cl_pending cl) n = Some a'" "n \<noteq> h_Seq h" for n a'
    using client_inv_inj [OF assms(1,5)] that by blast
  have "client_inv ?cl"
    using assms(1) ne by (auto simp: client_inv_def map_of_delete distinct_delete split: if_splits)
  then show ?thesis unfolding r
    using ne by (auto simp: terminateCalls_eq map_of_delete)
qed

text \<open>Two calls in flight.\<close>

definition any_cfg :: "int client_cfg" where
  "any_cfg = \<lparr>cc_fits = (\<lambda>_. True), cc_encodable = (\<lambda>_. True)\<rparr>"

definition no_call :: "int rpc_call" where
  "no_call = \<lparr>ca_Seq = 0, ca_ServiceMethod = '''', ca_Args = 0, ca_Reply = None, ca_Error = None, ca_chan = 0, ca_cap = 0\<rparr>"

definition two_calls :: "int item list \<Rightarrow> int client" where
  "two_calls its = snd (the (Client_Go any_cfg ''Foo.Sum'' 2 None (snd (the (Client_Go any_cfg ''Foo.Sum'' 1 None
     (new_client (NewGobCodec (conn_of its)) (\<lambda>_. no_call)))))))"

lemma two_calls_facts:
  "client_inv (two_calls its)" "map_of (cl_pending (two_calls its)) = [1 \<mapsto> 0, 2 \<mapsto> 1]"
  "\<not> cn_closed (cd_conn (cl_codec (two_calls its)))" "cn_in (cd_conn (cl_codec (two_calls its))) = its"
proof -
  let ?cl = "new_client (NewGobCodec (conn_of its)) (\<lambda>_. no_call)"
  have e: "cc_encodable any_cfg v" for v by (simp add: any_cfg_def)
  have "client_inv ?cl" "numbered ?cl" "wire_ok (cl_codec ?cl)" and q: "cl_seq ?cl = 1" "cl_next ?cl = 0"
    by (simp_all add: new_client_def client_inv_def numbered_def wire_ok_def NewGobCodec_def conn_of_def)
  then obtain cl1 where c1: "Client_Go any_cfg ''Foo.Sum'' 1 None ?cl = Some (0, cl1)" "client_inv cl1" "numbered cl1"
      "cl_next cl1 = 1" "cl_seq cl1 = 2" "map_of (cl_pending cl1) = [1 \<mapsto> 0]"
      "cl_codec cl1 = sent (cl_codec ?cl) [Hdr (call_header ''Foo.Sum'' 1), Val 1]"
    using Client_Go_ok [of ?cl any_cfg 1 "''Foo.Sum''"] e by (auto simp: new_client_def call_header_def)
  then have "wire_ok (cl_codec cl1)" using \<open>wire_ok (cl_codec ?cl)\<close> by simp
  then obtain cl2 where c2: "Client_Go any_cfg ''Foo.Sum'' 2 None cl1 = Some (1, cl2)" "client_inv cl2"
      "map_of (cl_pending cl2) = [1 \<mapsto> 0, 2 \<mapsto> 1]" "cl_codec cl2 = sent (cl_codec cl1) [Hdr (call_header ''Foo.Sum'' 2), Val 2]"
    using Client_Go_ok [OF c1(2,3), of any_cfg 2 "''Foo.Sum''"] c1 e by (auto simp: call_header_def)
  have "two_calls its = cl2" by (simp add: two_calls_def c1(1) c2(1))
  then show "client_inv (two_calls its)" "map_of (cl_pending (two_calls its)) = [1 \<mapsto> 0, 2 \<mapsto> 1]"
    "\<not> cn_closed (cd_conn (cl_codec (two_calls its)))" "cn_in (cd_conn (cl_codec (two_calls its))) = its"
    using c2(2-4) c1(7) by (simp_all add: new_client_def NewGobCodec_def conn_of_def)
qed

theorem receive_matches_replies_witness:
  "let cl = receive any_cfg (two_calls [Hdr (call_header ''Foo.Sum'' 2), Val 4, Hdr (call_header ''Foo.Sum'' 1), Val 3])
   in ca_Reply (cl_heap cl 0) = Some 3 \<and> ca_Reply (cl_heap cl 1) = Some 4 \<and> cl_pending cl = []"
proof -
  let ?ps = "[(call_header ''Foo.Sum'' 2, 4), (call_header ''Foo.Sum'' 1, 3)]"
  let ?cl = "two_calls [Hdr (call_header ''Foo.Sum'' 2), Val 4, Hdr (call_header ''Foo.Sum'' 1), Val 3]"
  note f = two_calls_facts [of "[Hdr (call_header ''Foo.Sum'' 2), Val 4, Hdr (call_header ''Foo.Sum'' 1), Val 3]"]
  have i: "cn_in (cd_conn (cl_codec ?cl)) = calls_stream ?ps" by (simp add: f(4))
  have s: "h_Seq (call_header sm n) = n" "h_Error (call_header sm n) = ''''" for sm n by (simp_all add: call_header_def)
  have o: "replies_ok any_cfg ?cl ?ps" by (simp add: replies_ok_def s any_cfg_def f(2))
  have d: "(h_Seq \<circ> fst) ` set ?ps = dom (map_of (cl_pending ?cl))" by (auto simp: s f(2))
  note r = receive_matches_replies [OF f(1,3) i o d]
  have "cl_heap (receive any_cfg ?cl) 0 = (cl_heap ?cl 0)\<lparr>ca_Reply := Some 3, ca_chan := 1\<rparr>"
    using r [THEN conjunct2, THEN conjunct2, THEN conjunct2, rule_format, of "call_header ''Foo.Sum'' 1" 3 0] by (simp add: f(2) s)
  moreover have "cl_heap (receive any_cfg ?cl) 1 = (cl_heap ?cl 1)\<lparr>ca_Reply := Some 4, ca_chan := 1\<rparr>"
    using r [THEN conjunct2, THEN conjunct2, THEN conjunct2, rule_format, of "call_header ''Foo.Sum'' 2" 4 1] by (simp add: f(2) s)
  ultimately show ?thesis using r by (simp add: Let_def)
qed

theorem error_response_ends_client_witness:
  "let its = [Hdr ((call_header ''Foo.Sum'' 1)\<lparr>h_Error := ''oops''\<rparr>), Empty, Hdr (call_header ''Foo.Sum'' 2), Val 4];
       cl = receive any_cfg (two_calls its)
   in ca_Error (cl_heap cl 0) = Some ''oops'' \<and> ca_Error (cl_heap cl 1) = None \<and> ca_chan (cl_heap cl 1) = 1 \<and>
      cn_in (cd_conn (cl_codec cl)) = [Hdr (call_header ''Foo.Sum'' 2), Val 4]"
proof -
  let ?its = "[Hdr ((call_header ''Foo.Sum'' 1)\<lparr>h_Error := ''oops''\<rparr>), Empty, Hdr (call_header ''Foo.Sum'' 2), Val 4]"
  note f = two_calls_facts [of ?its]
  have s: "h_Seq ((call_header sm n)\<lparr>h_Error := e\<rparr>) = n" for sm n e by (simp add: call_header_def)
  have a: "map_of (cl_pending (two_calls ?its)) (h_Seq ((call_header ''Foo.Sum'' 1)\<lparr>h_Error := ''oops''\<rparr>)) = Some 0"
    by (simp add: f(2) s)
  note r = error_response_ends_client [where cf = any_cfg, OF f(1,3,4) _ a]
  have "cl_heap (receive any_cfg (two_calls ?its)) 1 = (cl_heap (two_calls ?its) 1)\<lparr>ca_Error := None, ca_chan := 1\<rparr>"
    using r [THEN conjunct2, THEN conjunct2, THEN conjunct2, rule_format, of 2 1] by (simp add: f(2) s)
  then show ?thesis using r by (simp add: Let_def)
qed

text \<open>A late response ends the client. A call that is given up when its context is over is forgotten. When its response arrives
  all the same, the client reads it and leaves its loop: every other call that is pending is completed with a nil error
  and without a reply, although its own response may be next on the stream, and the client is shut down.\<close>

theorem late_response_ends_client:
  assumes "client_inv cl" and "\<not> cn_closed (cd_conn (cl_codec cl))" and "map_of (cl_pending cl) (h_Seq h) = Some a"
    and "cn_in (cd_conn (cl_codec cl)) = Hdr h # b # rest" and gone: "Call_ctx_done ctx_err a cl = (err, cl1)"
  shows "err = ''rpc client: call failed: '' @ ctx_err \<and> cl_heap cl1 = cl_heap cl \<and>
    cl_shutdown (receive cf cl1) \<and> cn_in (cd_conn (cl_codec (receive cf cl1))) = rest \<and>
    cl_heap (receive cf cl1) a = cl_heap cl a \<and>
    (\<forall>n a'. n \<noteq> h_Seq h \<and> map_of (cl_pending cl) n = Some a' \<longrightarrow>
       cl_heap (receive cf cl1) a' = (cl_heap cl a')\<lparr>ca_Error := None, ca_chan := 1\<rparr>)"
proof -
  have seq: "ca_Seq (cl_heap cl a) = h_Seq h" using assms(1,3) by (simp add: client_inv_def)
  have c1: "cl1 = cl\<lparr>cl_pending := AList.delete (h_Seq h) (cl_pending cl)\<rparr>" "err = ''rpc client: call failed: '' @ ctx_err"
    using gone assms(3) seq by (auto simp: Call_ctx_done_def removeCall_def)
  let ?cl = "cl1\<lparr>cl_codec := popped (cl_codec cl) rest\<rparr>"
  have "receive_round cf cl1 = (Break None, ?cl)"
    using assms(2,4)
    by (simp add: c1 receive_round_def gob_ReadHeader_def dec_header_def dec_nil_def dec_next_simps removeCall_def map_of_delete)
  moreover have "\<not> cl_blocked cl1" using assms(1) by (simp add: c1 client_inv_def)
  ultimately have r: "receive cf cl1 = terminateCalls None ?cl" by (simp add: receive.simps [of cf cl1])
  have ne: "a' \<noteq> a" if "map_of (cl_pending cl) n = Some a'" "n \<noteq> h_Seq h" for n a'
    using client_inv_inj [OF assms(1,3)] that by blast
  have "client_inv ?cl" using assms(1) by (auto simp: c1 client_inv_def map_of_delete distinct_delete split: if_splits)
  then show ?thesis unfolding r using ne by (auto simp: c1 terminateCalls_eq map_of_delete)
qed

theorem late_response_ends_client_witness:
  "let its = [Hdr (call_header ''Foo.Sum'' 1), Val 3, Hdr (call_header ''Foo.Sum'' 2), Val 4];
       (err, cl1) = Call_ctx_done ''context deadline exceeded'' 0 (two_calls its);
       cl = receive any_cfg cl1
   in err = ''rpc client: call failed: context deadline exceeded'' \<and> ca_Error (cl_heap cl 1) = None \<and> ca_chan (cl_heap cl 1) = 1 \<and>
      ca_Reply (cl_heap cl 1) = ca_Reply (cl_heap (two_calls its) 1) \<and> cn_in (cd_conn (cl_codec cl)) = [Hdr (call_header ''Foo.Sum'' 2), Val 4]"
proof -
  let ?its = "[Hdr (call_header ''Foo.Sum'' 1), Val 3, Hdr (call_header ''Foo.Sum'' 2), Val 4]"
  note f = two_calls_facts [of ?its]
  obtain err cl1 where c: "Call_ctx_done ''context deadline exceeded'' 0 (two_calls ?its) = (err, cl1)" by fastforce
  have a: "map_of (cl_pending (two_calls ?its)) (h_Seq (call_header ''Foo.Sum'' 1)) = Some 0"
    unfolding f(2) by (simp add: call_header_def)
  have s: "h_Seq (call_header ''Foo.Sum'' 1) = 1" by (simp add: call_header_def)
  note r = late_response_ends_client [where cf = any_cfg, OF f(1,3) a f(4) c]
  have "cl_heap (receive any_cfg cl1) 1 = (cl_heap (two_calls ?its) 1)\<lparr>ca_Error := None, ca_chan := 1\<rparr>"
    by (rule r [THEN conjunct2, THEN conjunct2, THEN conjunct2, THEN conjunct2, THEN conjunct2, rule_format, of 2 1])
      (simp add: f(2) s)
  then show ?thesis using r c by (simp add: Let_def)
qed

end
