(* ===== verification/Rpc_System.thy ===== *)
theory Rpc_System
  imports Rpc_Server Rpc_Client
begin

section \<open>A client and a server of \<^verbatim>\<open>rpc\<close> together\<close>

text \<open>
  The client of \<^verbatim>\<open>rpc/client.go\<close> starts calls, the server of \<^verbatim>\<open>rpc/server.go\<close> reads what the client has
  sent, and the client reads what the server has sent. Headers and numbers are those the two
  components choose themselves.
\<close>

text \<open>Calls started one after the other: method and argument of each.\<close>

fun go_all :: "'v client_cfg \<Rightarrow> (string \<times> 'v) list \<Rightarrow> 'v client \<Rightarrow> 'v client option" where
  "go_all cf [] cl = Some cl"
| "go_all cf ((sm, v) # calls) cl =
     (case Client_Go cf sm v None cl of None \<Rightarrow> None | Some (_, cl') \<Rightarrow> go_all cf calls cl')"

text \<open>The requests on the wire: numbers count from \<open>q\<close>.\<close>

fun requests_from :: "uint64 \<Rightarrow> (string \<times> 'v) list \<Rightarrow> (header \<times> 'v) list" where
  "requests_from q [] = []"
| "requests_from q ((sm, v) # calls) = (call_header sm q, v) # requests_from (q + 1) calls"

lemma requests_from_nth:
  "i < length calls \<Longrightarrow> requests_from q calls ! i = (call_header (fst (calls ! i)) (q + of_nat i), snd (calls ! i))"
  by (induction q calls arbitrary: i rule: requests_from.induct) (auto simp: nth_Cons algebra_simps split: nat.splits)

lemma length_requests_from [simp]: "length (requests_from q calls) = length calls"
  by (induction q calls rule: requests_from.induct) auto

lemma call_header_fields [simp]:
  "h_Seq (call_header sm q) = q" "h_ServiceMethod (call_header sm q) = sm" "h_Error (call_header sm q) = ''''"
  by (simp_all add: call_header_def)

text \<open>Numbers do not repeat.\<close>

lemma of_nat_uint64_inj:
  assumes "i < 2 ^ 63" "j < 2 ^ 63" "(of_nat i :: uint64) = of_nat j"
  shows "i = j"
proof -
  have u: "unat (of_nat k :: uint64) = k" if "k < 2 ^ 63" for k
  proof -
    have "k < 2 ^ LENGTH(64)" by (rule less_trans [OF that]) simp
    then show ?thesis by (simp only: unat_of_nat mod_less)
  qed
  have "i = unat (of_nat i :: uint64)" by (rule u [OF assms(1), symmetric])
  also have "\<dots> = unat (of_nat j :: uint64)" by (simp only: assms(3))
  also have "\<dots> = j" by (rule u [OF assms(2)])
  finally show ?thesis .
qed

lemma requests_from_Seq:
  "map (h_Seq \<circ> fst) (requests_from q calls) = map (\<lambda>i. q + of_nat i) [0..<length calls]"
  by (rule nth_equalityI) (simp_all add: requests_from_nth)

lemma requests_from_distinct:
  assumes "length calls < 2 ^ 63"
  shows "distinct (map (h_Seq \<circ> fst) (requests_from q calls))"
  unfolding requests_from_Seq distinct_map
  using assms by (auto simp: inj_on_def intro: of_nat_uint64_inj)

text \<open>What the client has sent and what is pending after starting calls.\<close>

lemma go_all_ok:
  assumes "client_inv cl" "numbered cl" "0 < cl_seq cl" "unat (cl_seq cl) + length calls < 2 ^ 64"
    "wire_ok (cl_codec cl)" "\<And>sm v. (sm, v) \<in> set calls \<Longrightarrow> cc_encodable cf v"
  shows "\<exists>cl'. go_all cf calls cl = Some cl' \<and> client_inv cl' \<and>
    cl_codec cl' = sent (cl_codec cl) (calls_stream (requests_from (cl_seq cl) calls)) \<and>
    (\<forall>n. n \<notin> (\<lambda>i. cl_seq cl + of_nat i) ` {0..<length calls} \<longrightarrow> map_of (cl_pending cl') n = map_of (cl_pending cl) n) \<and>
    (\<forall>i < length calls. map_of (cl_pending cl') (cl_seq cl + of_nat i) = Some (cl_next cl + i) \<and>
       ca_Error (cl_heap cl' (cl_next cl + i)) = None) \<and>
    (\<forall>a < cl_next cl. cl_heap cl' a = cl_heap cl a)"
  using assms
proof (induction calls arbitrary: cl)
  case Nil
  then show ?case by (simp add: sent_def)
next
  case (Cons call calls)
  obtain sm v where c: "call = (sm, v)" by (cases call)
  obtain cl1 where g: "Client_Go cf sm v None cl = Some (cl_next cl, cl1)" "client_inv cl1" "numbered cl1"
    "cl_next cl1 = Suc (cl_next cl)" "cl_seq cl1 = cl_seq cl + 1"
    "cl_codec cl1 = sent (cl_codec cl) [Hdr (call_header sm (cl_seq cl)), Val v]"
    "map_of (cl_pending cl1) = (map_of (cl_pending cl))(cl_seq cl \<mapsto> cl_next cl)"
    "ca_Error (cl_heap cl1 (cl_next cl)) = None" "\<forall>a. a \<noteq> cl_next cl \<longrightarrow> cl_heap cl1 a = cl_heap cl a"
    using Client_Go_ok [OF Cons.prems(1-3), of cf v sm] Cons.prems(4-6) c by (auto simp: call_header_def)
  have u: "unat (cl_seq cl1) = unat (cl_seq cl) + 1"
    using Cons.prems(4) by (simp add: g(5) unat_word_ariths(1))
  then have pos: "0 < cl_seq cl1" by (simp add: word_less_nat_alt)
  have "\<exists>cl'. go_all cf calls cl1 = Some cl' \<and> client_inv cl' \<and>
      cl_codec cl' = sent (cl_codec cl1) (calls_stream (requests_from (cl_seq cl1) calls)) \<and>
      (\<forall>n. n \<notin> (\<lambda>i. cl_seq cl1 + of_nat i) ` {0..<length calls} \<longrightarrow> map_of (cl_pending cl') n = map_of (cl_pending cl1) n) \<and>
      (\<forall>i < length calls. map_of (cl_pending cl') (cl_seq cl1 + of_nat i) = Some (cl_next cl1 + i) \<and>
         ca_Error (cl_heap cl' (cl_next cl1 + i)) = None) \<and>
      (\<forall>a < cl_next cl1. cl_heap cl' a = cl_heap cl1 a)"
    using g pos u Cons.prems(4-6) by (intro Cons.IH) auto
  then obtain cl' where cl': "go_all cf calls cl1 = Some cl'" "client_inv cl'"
      "cl_codec cl' = sent (cl_codec cl1) (calls_stream (requests_from (cl_seq cl1) calls))"
      "\<And>n. n \<notin> (\<lambda>i. cl_seq cl1 + of_nat i) ` {0..<length calls} \<Longrightarrow> map_of (cl_pending cl') n = map_of (cl_pending cl1) n"
      "\<And>i. i < length calls \<Longrightarrow> map_of (cl_pending cl') (cl_seq cl1 + of_nat i) = Some (cl_next cl1 + i)"
      "\<And>i. i < length calls \<Longrightarrow> ca_Error (cl_heap cl' (cl_next cl1 + i)) = None"
      "\<And>a. a < cl_next cl1 \<Longrightarrow> cl_heap cl' a = cl_heap cl1 a"
    by blast
  let ?new = "\<lambda>i. cl_seq cl1 + of_nat i"
  have shift: "cl_seq cl + of_nat (Suc j) = ?new j" for j by (simp add: g(5))
  have "?new i \<noteq> cl_seq cl" if "i < length calls" for i
  proof
    assume "?new i = cl_seq cl"
    then have "(of_nat (Suc i) :: uint64) = 0" by (simp add: g(5))
    then have "unat (of_nat (Suc i) :: uint64) = 0" by simp
    then show False using that Cons.prems(4) by (simp add: unat_of_nat del: of_nat_Suc)
  qed
  then have "cl_seq cl \<notin> ?new ` {0..<length calls}" by fastforce
  then have first: "map_of (cl_pending cl') (cl_seq cl) = Some (cl_next cl)"
    using cl'(4) [of "cl_seq cl"] g(7) by simp
  have pend: "map_of (cl_pending cl') (cl_seq cl + of_nat i) = Some (cl_next cl + i) \<and>
      ca_Error (cl_heap cl' (cl_next cl + i)) = None" if "i < length (call # calls)" for i
  proof (cases i)
    case 0
    then show ?thesis using first cl'(7) [of "cl_next cl"] g(4,8) by simp
  next
    case (Suc j)
    then show ?thesis using that cl'(5,6) [of j] g(4) by (simp add: shift del: of_nat_Suc)
  qed
  have old: "map_of (cl_pending cl') n = map_of (cl_pending cl) n"
    if n: "n \<notin> (\<lambda>i. cl_seq cl + of_nat i) ` {0..<length (call # calls)}" for n
  proof -
    have "n \<noteq> cl_seq cl + of_nat 0" using n by (metis image_eqI atLeastLessThan_iff le0 length_Cons zero_less_Suc)
    moreover have "n \<notin> ?new ` {0..<length calls}"
    proof
      assume "n \<in> ?new ` {0..<length calls}"
      then obtain j where "j < length calls" "n = ?new j" by auto
      then show False using n shift [of j] by (metis image_eqI atLeastLessThan_iff le0 length_Cons Suc_less_eq)
    qed
    ultimately show ?thesis using cl'(4) [of n] g(7) by simp
  qed
  have "cl_codec cl' = sent (cl_codec cl) (calls_stream (requests_from (cl_seq cl) (call # calls)))"
    using cl'(3) g(5,6) by (simp add: c sent_def)
  moreover have "\<forall>a < cl_next cl. cl_heap cl' a = cl_heap cl a" using cl'(7) g(4,9) by simp
  moreover have "go_all cf (call # calls) cl = Some cl'" using g(1) cl'(1) by (simp add: c)
  ultimately show ?case using cl'(2) pend old by blast
qed

text \<open>The value a method returns for an argument.\<close>

definition rpc_result :: "'v server \<Rightarrow> string \<Rightarrow> 'v \<Rightarrow> 'v option" where
  "rpc_result srv sm v =
     (case found srv sm of
        Inr (_, _, m) \<Rightarrow> (case rm_Func (mt_method m) v of Some (Inr r) \<Rightarrow> Some r | _ \<Rightarrow> None)
      | Inl _ \<Rightarrow> None)"

text \<open>A call that can be sent, that the server accepts, and that returns a value the client can decode.\<close>

definition callable :: "'v client_cfg \<Rightarrow> 'v server_cfg \<Rightarrow> 'v server \<Rightarrow> string \<times> 'v \<Rightarrow> bool" where
  "callable ccf cf srv = (\<lambda>(sm, v). cc_encodable ccf v \<and> good_call cf srv (call_header sm 0, v) \<and>
     (\<exists>r. rpc_result srv sm v = Some r \<and> cc_fits ccf r))"

lemma untimed_callable [simp]: "callable ccf (untimed cf) = callable ccf cf"
  by (simp add: callable_def fun_eq_iff)

lemma callable_deserved:
  assumes "callable ccf cf srv (sm, v)"
  shows "deserved srv (call_header sm q, v) = (call_header sm q, Val (the (rpc_result srv sm v)))"
    "good_call cf srv (call_header sm q, v)"
  using assms
  by (auto simp: callable_def deserved_def good_call_def rpc_result_def method_reply_def reply_pair_def answers_def
      split: sum.splits option.splits)

definition reply_of :: "'v server \<Rightarrow> header \<times> 'v \<Rightarrow> header \<times> 'v" where
  "reply_of srv = (\<lambda>(h, v). (h, the (rpc_result srv (h_ServiceMethod h) v)))"

text \<open>The stream of responses, read as replies.\<close>

lemma responses_as_replies:
  assumes ps: "mset ps = mset (map (deserved srv) reqs)"
    and d: "\<And>q. q \<in> set reqs \<Longrightarrow> deserved srv q = map_prod id Val (reply_of srv q)"
  shows "\<exists>qs. stream ps = calls_stream qs \<and> mset qs = mset (map (reply_of srv) reqs)"
proof -
  let ?un = "map_prod id (\<lambda>it. case it of Val x \<Rightarrow> x)"
  have e: "map (deserved srv) reqs = map (map_prod id Val \<circ> reply_of srv) reqs" using d by simp
  have set: "set ps = (map_prod id Val \<circ> reply_of srv) ` set reqs" using ps e by (metis set_map set_mset_mset)
  have "map (map_prod id Val \<circ> ?un) ps = ps" by (rule map_idI) (auto simp: set map_prod_def split: prod.splits)
  then have "stream ps = calls_stream (map ?un ps)"
    by (simp add: calls_stream_def comp_def map_prod_def case_prod_beta)
  moreover have "mset (map ?un ps) = mset (map (reply_of srv) reqs)"
  proof -
    have "mset (map ?un ps) = image_mset ?un (mset ps)" by simp
    also have "\<dots> = mset (map (?un \<circ> (map_prod id Val \<circ> reply_of srv)) reqs)"
      unfolding ps e mset_map by (rule multiset.map_comp)
    also have "?un \<circ> (map_prod id Val \<circ> reply_of srv) = reply_of srv" by (auto simp: fun_eq_iff map_prod_def split: prod.splits)
    finally show ?thesis .
  qed
  ultimately show ?thesis by blast
qed

text \<open>The bytes \<open>its\<close> reach the client.\<close>

definition arrive :: "'v client \<Rightarrow> 'v item list \<Rightarrow> 'v client" where
  "arrive cl its = cl\<lparr>cl_codec := popped (cl_codec cl) its\<rparr>"

text \<open>Where serving a client's calls can end, with the requests that the client has sent all there to be read.\<close>

definition serves_to :: "'v server_cfg \<Rightarrow> 'v server \<Rightarrow> 'v client \<Rightarrow> 'v serving \<Rightarrow> bool" where
  "serves_to cf srv cl s \<longleftrightarrow>
     (serve_step cf)\<^sup>*\<^sup>* (serve_init srv (NewGobCodec (conn_of (cn_out (cd_conn (cl_codec cl)))))) s \<and>
     (\<forall>s'. \<not> serve_step cf s s')"

lemma fresh_wire [simp]: "wire_ok (NewGobCodec (conn_of its))" "cn_out (cd_conn (NewGobCodec (conn_of its))) = []"
  "cn_in (cd_conn (NewGobCodec (conn_of its))) = its"
  by (simp_all add: wire_ok_def NewGobCodec_def conn_of_def)

text \<open>A client that has started calls.\<close>

lemma go_all_fresh:
  assumes "length calls < 2 ^ 63" "\<And>c. c \<in> set calls \<Longrightarrow> callable ccf cf srv c"
  shows "\<exists>cl. go_all ccf calls (new_client (NewGobCodec (conn_of [])) heap) = Some cl \<and> client_inv cl \<and>
    wire_ok (cl_codec cl) \<and> cn_out (cd_conn (cl_codec cl)) = calls_stream (requests_from 1 calls) \<and>
    dom (map_of (cl_pending cl)) = (h_Seq \<circ> fst) ` set (requests_from 1 calls) \<and>
    (\<forall>i < length calls. map_of (cl_pending cl) (1 + of_nat i) = Some i \<and> ca_Error (cl_heap cl i) = None)"
proof -
  let ?cl = "new_client (NewGobCodec (conn_of [])) heap"
  have q: "cl_seq ?cl = 1" "cl_next ?cl = 0" "cl_pending ?cl = []" "cl_codec ?cl = NewGobCodec (conn_of [])"
    by (simp_all add: new_client_def)
  have "client_inv ?cl" "numbered ?cl" by (simp_all add: new_client_def client_inv_def numbered_def)
  moreover have "cc_encodable ccf v" if "(sm, v) \<in> set calls" for sm v using assms(2) [OF that] by (simp add: callable_def)
  ultimately obtain cl where cl: "go_all ccf calls ?cl = Some cl" "client_inv cl"
    "cl_codec cl = sent (NewGobCodec (conn_of [])) (calls_stream (requests_from 1 calls))"
    "\<And>n. n \<notin> (\<lambda>i. 1 + of_nat i) ` {0..<length calls} \<Longrightarrow> map_of (cl_pending cl) n = None"
    "\<And>i. i < length calls \<Longrightarrow> map_of (cl_pending cl) (1 + of_nat i) = Some i \<and> ca_Error (cl_heap cl i) = None"
    using go_all_ok [of ?cl calls ccf] assms(1) by (auto simp: q)
  have seqs: "(h_Seq \<circ> fst) ` set (requests_from 1 calls) = (\<lambda>i. 1 + of_nat i) ` {0..<length calls}"
    using arg_cong [OF requests_from_Seq, of set 1 calls] by simp
  have "dom (map_of (cl_pending cl)) = (\<lambda>i. 1 + of_nat i) ` {0..<length calls}"
    using cl(4,5) by fastforce
  then show ?thesis using cl(1,2,3,5) seqs by simp
qed

lemma requests_good:
  assumes "\<And>c. c \<in> set calls \<Longrightarrow> callable ccf cf srv c" "x \<in> set (requests_from q calls)"
  shows "good_call cf srv x" "deserved srv x = map_prod id Val (reply_of srv x)"
    "h_Error (fst x) = ''''" "cc_fits ccf (snd (reply_of srv x))"
proof -
  obtain i where i: "i < length calls" "x = requests_from q calls ! i" using assms(2) by (metis in_set_conv_nth length_requests_from)
  obtain sm v where c: "calls ! i = (sm, v)" by (cases "calls ! i")
  then have x: "x = (call_header sm (q + of_nat i), v)" using i by (simp add: requests_from_nth)
  have ok: "callable ccf cf srv (sm, v)" using assms(1) i(1) c by (metis nth_mem)
  show "good_call cf srv x" "deserved srv x = map_prod id Val (reply_of srv x)" "h_Error (fst x) = ''''"
    using callable_deserved [OF ok] by (simp_all add: x reply_of_def)
  show "cc_fits ccf (snd (reply_of srv x))" using ok by (auto simp: x reply_of_def callable_def)
qed

lemma fst_reply_of [simp]: "fst (reply_of srv x) = fst x"
  by (simp add: reply_of_def case_prod_beta)

text \<open>What the server has sent when it is done.\<close>

lemma served_replies:
  assumes t: "cf_timeout cf = 0" and ok: "\<And>c. c \<in> set calls \<Longrightarrow> callable ccf cf srv c"
    and out: "cn_out (cd_conn (cl_codec cl)) = calls_stream (requests_from q calls)"
  shows "\<exists>s. serves_to cf srv cl s"
    "serves_to cf srv cl s \<Longrightarrow> \<exists>ps. cn_out (cd_conn (sg_codec s)) = calls_stream ps \<and>
       mset ps = mset (map (reply_of srv) (requests_from q calls))"
proof -
  let ?reqs = "requests_from q calls"
  let ?s0 = "serve_init srv (NewGobCodec (conn_of (cn_out (cd_conn (cl_codec cl)))))"
  have inv: "serve_inv cf srv ?reqs ?s0"
    unfolding out by (rule serve_inv_init) (simp_all add: requests_good(1) [OF ok])
  show "\<exists>s. serves_to cf srv cl s" using serve_ends [OF t inv] by (auto simp: serves_to_def)
  assume s: "serves_to cf srv cl s"
  then have i: "serve_inv cf srv ?reqs s" using serve_inv_steps [OF t inv] by (simp add: serves_to_def)
  have "\<not> sg_loop s" "sg_running s = []" using serve_can_step [OF i] s by (auto simp: serves_to_def)
  then obtain ps where "cn_out (cd_conn (sg_codec s)) = stream ps" "mset ps = mset (map (deserved srv) ?reqs)"
    using i by (auto simp: serve_inv_def)
  then show "\<exists>ps. cn_out (cd_conn (sg_codec s)) = calls_stream ps \<and> mset ps = mset (map (reply_of srv) ?reqs)"
    using responses_as_replies [of ps srv ?reqs] requests_good(2) [OF ok] by metis
qed

text \<open>What the client has when it has read them.\<close>

lemma replies_complete_calls:
  assumes len: "length calls < 2 ^ 63" and ok: "\<And>c. c \<in> set calls \<Longrightarrow> callable ccf cf srv c"
    and cl: "client_inv cl" "wire_ok (cl_codec cl)" "dom (map_of (cl_pending cl)) = (h_Seq \<circ> fst) ` set (requests_from 1 calls)"
      "\<And>i. i < length calls \<Longrightarrow> map_of (cl_pending cl) (1 + of_nat i) = Some i \<and> ca_Error (cl_heap cl i) = None"
    and ps: "mset ps = mset (map (reply_of srv) (requests_from 1 calls))"
  shows "cl_pending (receive ccf (arrive cl (calls_stream ps))) = [] \<and>
    (\<forall>i < length calls. \<exists>c. cl_heap (receive ccf (arrive cl (calls_stream ps))) i = c \<and> ca_chan c = 1 \<and>
       ca_Error c = None \<and> ca_Reply c = rpc_result srv (fst (calls ! i)) (snd (calls ! i)))"
proof -
  let ?reqs = "requests_from 1 calls" and ?cl = "arrive cl (calls_stream ps)"
  have set: "set ps = reply_of srv ` set ?reqs" using ps by (metis set_map set_mset_mset)
  have f: "cl_pending ?cl = cl_pending cl" "cl_heap ?cl = cl_heap cl" "cl_codec ?cl = popped (cl_codec cl) (calls_stream ps)"
    by (simp_all add: arrive_def)
  have inv: "client_inv ?cl" using cl(1) by (simp add: arrive_def client_inv_def)
  have "mset (map (h_Seq \<circ> fst) ps) = mset (map (h_Seq \<circ> fst) (map (reply_of srv) ?reqs))" using ps by (metis mset_map)
  also have "map (h_Seq \<circ> fst) (map (reply_of srv) ?reqs) = map (h_Seq \<circ> fst) ?reqs" by simp
  finally have "distinct (map (h_Seq \<circ> fst) ps)"
    using requests_from_distinct [OF len] by (metis mset_eq_imp_distinct_iff)
  moreover have "h_Error h = '''' \<and> cc_fits ccf v \<and> h_Seq h \<in> dom (map_of (cl_pending cl))" if hv: "(h, v) \<in> set ps" for h v
  proof -
    obtain x where x: "x \<in> set ?reqs" "(h, v) = reply_of srv x" using hv by (auto simp: set)
    then have "fst x = h" "snd (reply_of srv x) = v" by (metis fst_reply_of fst_conv, metis snd_conv)
    then show ?thesis using requests_good(3,4) [OF ok x(1)] x(1) cl(3) by force
  qed
  ultimately have rok: "replies_ok ccf ?cl ps" by (auto simp: replies_ok_def f)
  have "(h_Seq \<circ> fst) ` set ps = dom (map_of (cl_pending ?cl))" by (simp add: set f cl(3) image_image)
  then have all: "cl_pending (receive ccf ?cl) = []"
    "\<And>h v a. (h, v) \<in> set ps \<Longrightarrow> map_of (cl_pending cl) (h_Seq h) = Some a \<Longrightarrow>
       cl_heap (receive ccf ?cl) a = (cl_heap cl a)\<lparr>ca_Reply := Some v, ca_chan := 1\<rparr>"
    using receive_all [OF inv _ _ rok] cl(2) by (auto simp: f)
  have "\<exists>c. cl_heap (receive ccf ?cl) i = c \<and> ca_chan c = 1 \<and> ca_Error c = None \<and>
      ca_Reply c = rpc_result srv (fst (calls ! i)) (snd (calls ! i))" if i: "i < length calls" for i
  proof -
    obtain sm v where c: "calls ! i = (sm, v)" by (cases "calls ! i")
    have "callable ccf cf srv (sm, v)" using ok i c by (metis nth_mem)
    then obtain r where r: "rpc_result srv sm v = Some r" by (auto simp: callable_def)
    have "?reqs ! i \<in> set ?reqs" using i by simp
    then have "reply_of srv (?reqs ! i) \<in> set ps" by (simp add: set)
    then have "(call_header sm (1 + of_nat i), r) \<in> set ps" using i c r by (simp add: requests_from_nth reply_of_def)
    then show ?thesis using all(2) cl(4) [OF i] c r by simp
  qed
  with all(1) show ?thesis by blast
qed

lemma calls_complete:
  assumes "cf_timeout cf = 0" and "length calls < 2 ^ 63" and "\<And>c. c \<in> set calls \<Longrightarrow> callable ccf cf srv c"
  shows "\<exists>cl. go_all ccf calls (new_client (NewGobCodec (conn_of [])) heap) = Some cl \<and> cn_out (cd_conn (cl_codec cl)) = calls_stream (requests_from 1 calls) \<and>
    (\<exists>s. serves_to cf srv cl s) \<and>
    (\<forall>s. serves_to cf srv cl s \<longrightarrow>
       (let cl' = receive ccf (arrive cl (cn_out (cd_conn (sg_codec s))))
        in cl_pending cl' = [] \<and>
           (\<forall>i < length calls. \<exists>c. cl_heap cl' i = c \<and> ca_chan c = 1 \<and> ca_Error c = None \<and>
              ca_Reply c = rpc_result srv (fst (calls ! i)) (snd (calls ! i)))))"
proof -
  obtain cl where cl: "go_all ccf calls (new_client (NewGobCodec (conn_of [])) heap) = Some cl" "client_inv cl"
    "wire_ok (cl_codec cl)" "cn_out (cd_conn (cl_codec cl)) = calls_stream (requests_from 1 calls)"
    "dom (map_of (cl_pending cl)) = (h_Seq \<circ> fst) ` set (requests_from 1 calls)"
    "\<And>i. i < length calls \<Longrightarrow> map_of (cl_pending cl) (1 + of_nat i) = Some i \<and> ca_Error (cl_heap cl i) = None"
    using go_all_fresh [OF assms(2,3)] by blast
  have ends: "\<exists>s. serves_to cf srv cl s" by (rule served_replies(1) [OF assms(1) _ cl(4)]) (rule assms(3))
  have "let cl' = receive ccf (arrive cl (cn_out (cd_conn (sg_codec s))))
        in cl_pending cl' = [] \<and>
           (\<forall>i < length calls. \<exists>c. cl_heap cl' i = c \<and> ca_chan c = 1 \<and> ca_Error c = None \<and>
              ca_Reply c = rpc_result srv (fst (calls ! i)) (snd (calls ! i)))" if s: "serves_to cf srv cl s" for s
  proof -
    have "\<exists>ps. cn_out (cd_conn (sg_codec s)) = calls_stream ps \<and> mset ps = mset (map (reply_of srv) (requests_from 1 calls))"
      by (rule served_replies(2) [OF assms(1) _ cl(4) s]) (rule assms(3))
    then obtain ps where ps: "cn_out (cd_conn (sg_codec s)) = calls_stream ps"
      "mset ps = mset (map (reply_of srv) (requests_from 1 calls))" by blast
    show ?thesis unfolding Let_def ps(1)
      by (rule replies_complete_calls [OF assms(2) _ cl(2,3,5) _ ps(2)]) (use assms(3) cl(6) in blast)+
  qed
  with cl(1,4) ends show ?thesis by blast
qed

text \<open>C16: remote calls return what the methods return, when no handler's timeout fires and no method returns an
  error. One goroutine of a new client starts any number of calls (fewer than \<open>2 ^ 63\<close>), one after the other and without
  waiting for replies (\<^verbatim>\<open>Go\<close>), of methods that the server has, with arguments that can be sent and decoded, for which the methods return values
  that can be sent and decoded. The server has any timeout for handlers, such as the ten seconds of the default
  options; the runs of the server are those in which every method returns before its timeout, which is the relation \<^const>\<open>serve_step\<close> of the server \<^const>\<open>untimed\<close>. Then all
  requests are sent; the server, reading exactly what the client wrote, can always be run to an end;
  and however its handlers interleave and in whatever order the responses are written, when the client has read
  them every call has been signalled once, without an error, and holds the value that its
  own method returns for its own argument. (A method's error and a timeout are sent as an error response, and the first of those ends
  the client with every call that is pending, as \<open>Rpc_Client\<close> shows.)\<close>

theorem rpc_end_to_end:
  assumes "length calls < 2 ^ 63" and "\<And>c. c \<in> set calls \<Longrightarrow> callable ccf cf srv c"
  shows "\<exists>cl. go_all ccf calls (new_client (NewGobCodec (conn_of [])) heap) = Some cl \<and> (\<exists>s. serves_to (untimed cf) srv cl s) \<and>
    (\<forall>s. serves_to (untimed cf) srv cl s \<longrightarrow>
       (let cl' = receive ccf (arrive cl (cn_out (cd_conn (sg_codec s))))
        in cl_pending cl' = [] \<and>
           (\<forall>i < length calls. \<exists>c. cl_heap cl' i = c \<and> ca_chan c = 1 \<and> ca_Error c = None \<and>
              ca_Reply c = rpc_result srv (fst (calls ! i)) (snd (calls ! i)))))"
  using calls_complete [of "untimed cf" calls ccf srv heap] assms by auto

text \<open>The timeout is the ten seconds of the default options.\<close>

theorem rpc_end_to_end_witness:
  "\<exists>cl s. go_all any_cfg [(''Foo.Sum'', 3), (''Foo.Sum'', 5)] (new_client (NewGobCodec (conn_of [])) (\<lambda>_. no_call)) = Some cl \<and>
     serves_to (untimed (foo_cfg\<lparr>cf_timeout := 10000000000\<rparr>)) [''Foo'' \<mapsto> foo_service] cl s \<and>
     (let cl' = receive any_cfg (arrive cl (cn_out (cd_conn (sg_codec s))))
      in ca_Reply (cl_heap cl' 0) = Some 6 \<and> ca_Reply (cl_heap cl' 1) = Some 10)"
proof -
  let ?srv = "[''Foo'' \<mapsto> foo_service]" and ?calls = "[(''Foo.Sum'', 3), (''Foo.Sum'', 5 :: int)]" and ?cf = "foo_cfg\<lparr>cf_timeout := 10000000000\<rparr>"
  have r: "rpc_result ?srv ''Foo.Sum'' v = Some (v + v)" for v by (simp add: rpc_result_def foo_found)
  have u: "untimed ?cf = foo_cfg" by (simp add: untimed_def foo_cfg_def)
  have "callable any_cfg foo_cfg ?srv c" if "c \<in> set ?calls" for c
    using that by (auto simp: callable_def any_cfg_def foo_good r)
  then have ok: "callable any_cfg ?cf ?srv c" if "c \<in> set ?calls" for c
    unfolding untimed_callable [of any_cfg ?cf, symmetric] u using that by blast
  have "length ?calls < 2 ^ 63" by simp
  from rpc_end_to_end [OF this ok, of "\<lambda>_. no_call"] obtain cl s
    where cl: "go_all any_cfg ?calls (new_client (NewGobCodec (conn_of [])) (\<lambda>_. no_call)) = Some cl" "serves_to (untimed ?cf) ?srv cl s"
      "\<And>i. i < length ?calls \<Longrightarrow> ca_Reply (cl_heap (receive any_cfg (arrive cl (cn_out (cd_conn (sg_codec s))))) i) =
         rpc_result ?srv (fst (?calls ! i)) (snd (?calls ! i))"
    unfolding Let_def by blast
  show ?thesis using cl(1,2) cl(3) [of 0] cl(3) [of 1] by (auto simp: r Let_def)
qed

end
