(* ===== verification/Rpc_Dial.thy ===== *)
theory Rpc_Dial
  imports Rpc_Server Rpc_Client
begin

section \<open>Options and connecting (\<^verbatim>\<open>rpc/option.go\<close>, \<^verbatim>\<open>rpc/client.go\<close>)\<close>

text \<open>
  How a client is made: options are completed, a connection is dialled, the options are sent on it as JSON (and
  before them, for HTTP, a \<^verbatim>\<open>CONNECT\<close> request), and the client is built on the connection. The network is a record
  of functions: \<^verbatim>\<open>net.DialTimeout\<close>, the status line that answers \<^verbatim>\<open>CONNECT\<close>, whether making the
  client takes longer than the connect timeout, and the text of a duration. The options that were sent are
  part of the result. That \<^verbatim>\<open>parseOptions\<close> completes the caller's own object is not modelled.
\<close>

subsection \<open>Options\<close>

definition DefaultOption :: rpc_option where
  "DefaultOption = \<lparr>op_MagicNumber = MagicNumber, op_CodecType = GobType, op_ConnectTimeout = 0, op_HandleTimeout = 10 * 1000000000\<rparr>"

definition parseOptions :: "rpc_option option list \<Rightarrow> string + rpc_option" where
  "parseOptions opts =
     (if length opts = 0 \<or> opts ! 0 = None then Inr DefaultOption
      else if length opts \<noteq> 1 then Inl ''number of options is more than 1''
      else let opt = the (opts ! 0);
               opt1 = opt\<lparr>op_MagicNumber := op_MagicNumber DefaultOption\<rparr>
           in Inr (if op_CodecType opt1 = '''' then opt1\<lparr>op_CodecType := op_CodecType DefaultOption\<rparr> else opt1))"

subsection \<open>Clients on a connection\<close>

record 'v network =
  nw_dial :: "string \<Rightarrow> string \<Rightarrow> int \<Rightarrow> string + 'v conn"
  nw_status :: "string + string"
  nw_slow :: bool
  nw_dur :: "int \<Rightarrow> string"
  nw_heap :: "nat \<Rightarrow> 'v rpc_call"

text \<open>A client with the options that were sent for it, or an error.\<close>

type_synonym 'v dialled = "string + 'v client \<times> rpc_option"

definition NewClient :: "'v network \<Rightarrow> 'v conn \<Rightarrow> rpc_option \<Rightarrow> 'v dialled" where
  "NewClient nw conn opt =
     (case NewCodecFuncMap (op_CodecType opt) of
        None \<Rightarrow> Inl (''invalid codec type '' @ op_CodecType opt)
      | Some f \<Rightarrow>
          if cn_closed conn then Inl err_closed
          else if cn_broken conn then Inl ''broken pipe''
          else Inr (new_client (f conn) (nw_heap nw), opt))"

definition connected :: string where "connected = ''200 Connected to Gee RPC''"

text \<open>What is written before the options, and the answer to it. An error of writing shows when the answer is read.\<close>

definition NewHTTPClient :: "'v network \<Rightarrow> 'v conn \<Rightarrow> rpc_option \<Rightarrow> 'v dialled" where
  "NewHTTPClient nw conn opt =
     (case nw_status nw of
        Inl err \<Rightarrow> Inl err
      | Inr status \<Rightarrow>
          if status = connected then NewClient nw conn opt
          else Inl (''unexpected HTTP response: '' @ status))"

text \<open>\<^verbatim>\<open>dialTimeout\<close>: the result, and whether a connection was opened and closed again.\<close>

definition dialTimeout ::
  "'v network \<Rightarrow> ('v network \<Rightarrow> 'v conn \<Rightarrow> rpc_option \<Rightarrow> 'v dialled) \<Rightarrow> string \<Rightarrow> string \<Rightarrow> rpc_option option list \<Rightarrow> 'v dialled \<times> bool" where
  "dialTimeout nw f network address opts =
     (case parseOptions opts of
        Inl err \<Rightarrow> (Inl err, False)
      | Inr opt \<Rightarrow>
          (case nw_dial nw network address (op_ConnectTimeout opt) of
             Inl err \<Rightarrow> (Inl err, False)
           | Inr conn \<Rightarrow>
               let res = (if op_ConnectTimeout opt = 0 then f nw conn opt
                          else if nw_slow nw then Inl (''rpc client: connect timeout: expect within '' @ nw_dur nw (op_ConnectTimeout opt))
                          else f nw conn opt)
               in (res, case res of Inl err \<Rightarrow> True | Inr _ \<Rightarrow> False)))"

definition Dial :: "'v network \<Rightarrow> string \<Rightarrow> string \<Rightarrow> rpc_option option list \<Rightarrow> 'v dialled \<times> bool" where
  "Dial nw network address opts = dialTimeout nw NewClient network address opts"

definition DialHTTP :: "'v network \<Rightarrow> string \<Rightarrow> string \<Rightarrow> rpc_option option list \<Rightarrow> 'v dialled \<times> bool" where
  "DialHTTP nw network address opts = dialTimeout nw NewHTTPClient network address opts"

definition XDial :: "'v network \<Rightarrow> string \<Rightarrow> rpc_option option list \<Rightarrow> 'v dialled \<times> bool" where
  "XDial nw rpcAddr opts =
     (let parts = strings_Split rpcAddr CHR ''@''
      in if length parts \<noteq> 2 then
           (Inl (''rpc client err: wrong format '' @ [CHR 0x27] @ rpcAddr @ [CHR 0x27] @ '', expect protocol@addr''), False)
         else
           let protocol = parts ! 0; addr = parts ! 1
           in if protocol = ''http'' then DialHTTP nw ''tcp'' addr opts else Dial nw protocol addr opts)"

subsection \<open>The server's side of \<^verbatim>\<open>CONNECT\<close> (\<^verbatim>\<open>rpc/server.go\<close>)\<close>

text \<open>\<open>hijacked\<close> is the result of \<^verbatim>\<open>Hijack\<close> and \<open>opt\<close> what is decoded from the connection afterwards. The result is a response,
  or the status line that was written and what \<^verbatim>\<open>ServeConn\<close> does, or nothing.\<close>

datatype 'v http_served = Refused nat "(string \<times> string) list" string | Hijacked string "('v serving \<times> int) option" | Dropped

definition Server_ServeHTTP :: "'v server \<Rightarrow> string \<Rightarrow> string + 'v conn \<Rightarrow> string + rpc_option \<Rightarrow> 'v http_served" where
  "Server_ServeHTTP srv meth hijacked opt =
     (if meth \<noteq> ''CONNECT'' then
        Refused 405 [(''Content-Type'', ''text/plain; charset=utf-8'')] (''405 must CONNECT'' @ [CHR 0x0A])
      else case hijacked of
             Inl err \<Rightarrow> Dropped
           | Inr conn \<Rightarrow> Hijacked (''HTTP/1.0 '' @ connected @ [CHR 0x0A, CHR 0x0A]) (ServeConn srv conn opt))"

text \<open>\<^verbatim>\<open>Accept\<close>, for the results that the listener's \<^verbatim>\<open>Accept\<close> returns one after the other: the connections that
  are handed to \<^verbatim>\<open>ServeConn\<close>, each in a goroutine of its own, up to the first error.\<close>

fun Server_Accept :: "(string + 'v conn) list \<Rightarrow> 'v conn list" where
  "Server_Accept [] = []"
| "Server_Accept (Inl err # accepted) = []"
| "Server_Accept (Inr conn # accepted) = conn # Server_Accept accepted"

subsection \<open>Facts\<close>

lemma parseOptions_magic: "parseOptions opts = Inr opt \<Longrightarrow> op_MagicNumber opt = MagicNumber"
  by (auto simp: parseOptions_def DefaultOption_def Let_def split: if_splits)

lemma NewClient_Inr:
  "NewClient nw conn opt = Inr (cl, opt') \<longleftrightarrow> op_CodecType opt = GobType \<and> \<not> cn_closed conn \<and> \<not> cn_broken conn \<and>
     cl = new_client (NewGobCodec conn) (nw_heap nw) \<and> opt' = opt"
  by (auto simp: NewClient_def)

lemma NewHTTPClient_Inr:
  "NewHTTPClient nw conn opt = Inr r \<longleftrightarrow> nw_status nw = Inr connected \<and> NewClient nw conn opt = Inr r"
  by (auto simp: NewHTTPClient_def split: sum.splits if_splits)

lemma dialTimeout_Inr:
  "dialTimeout nw f network address opts = (Inr r, closed) \<longleftrightarrow> \<not> closed \<and>
     (\<exists>opt conn. parseOptions opts = Inr opt \<and> nw_dial nw network address (op_ConnectTimeout opt) = Inr conn \<and>
        (op_ConnectTimeout opt = 0 \<or> \<not> nw_slow nw) \<and> f nw conn opt = Inr r)"
  by (auto simp: dialTimeout_def Let_def split: sum.splits)

lemma dialTimeout_Inl:
  "dialTimeout nw f network address opts = (Inl err, closed) \<Longrightarrow>
   closed \<or> (\<exists>e. parseOptions opts = Inl e) \<or> (\<exists>network a d. nw_dial nw network a d = Inl err)"
  unfolding dialTimeout_def Let_def by (cases "parseOptions opts") (auto split: sum.splits)

lemma Split2: "length (strings_Split s c) = 2 \<Longrightarrow> s = strings_Split s c ! 0 @ c # strings_Split s c ! 1"
  using Join_Split [of s c] by (auto simp: length_Suc_conv numeral_2_eq_2)

lemma Split2_parts: "length (strings_Split s c) = 2 \<Longrightarrow> c \<notin> set (strings_Split s c ! 0) \<and> c \<notin> set (strings_Split s c ! 1)"
  using Split_parts_no_sep [of "strings_Split s c ! 0" s c] Split_parts_no_sep [of "strings_Split s c ! 1" s c] by simp

subsection \<open>Properties\<close>

text \<open>C33: a client that \<^verbatim>\<open>XDial\<close> returns has an open connection to the address after the \<^verbatim>\<open>@\<close>, on the network before it
  (\<^verbatim>\<open>tcp\<close> for \<^verbatim>\<open>http\<close>), is ready for calls, and has sent options that every server accepts: \<^verbatim>\<open>ServeConn\<close> serves
  the connection with the handling timeout of these options. An address without exactly one \<^verbatim>\<open>@\<close> is an
  error, and so are two options. After an error no connection is left open.\<close>

theorem XDial_handshake:
  "case XDial nw rpcAddr opts of
     (Inr (cl, opt), closed) \<Rightarrow>
       \<not> closed \<and> client_inv cl \<and> numbered cl \<and> Client_IsAvailable cl \<and> wire_ok (cl_codec cl) \<and>
       ServeConn srv conn' (Inr opt) = Some (serve_init srv (NewGobCodec conn'), op_HandleTimeout opt) \<and>
       (\<exists>p a conn. rpcAddr = p @ ''@'' @ a \<and> CHR ''@'' \<notin> set p \<and> CHR ''@'' \<notin> set a \<and>
          nw_dial nw (if p = ''http'' then ''tcp'' else p) a (op_ConnectTimeout opt) = Inr conn \<and> cl_codec cl = NewGobCodec conn)
   | (Inl err, closed) \<Rightarrow>
       closed \<or> length (strings_Split rpcAddr CHR ''@'') \<noteq> 2 \<or> (\<exists>e. parseOptions opts = Inl e) \<or>
       (\<exists>network a d. nw_dial nw network a d = Inl err)"
proof (cases "XDial nw rpcAddr opts")
  case (Pair res closed)
  let ?parts = "strings_Split rpcAddr CHR ''@''"
  let ?f = "if ?parts ! 0 = ''http'' then NewHTTPClient else NewClient" and ?n = "if ?parts ! 0 = ''http'' then ''tcp'' else ?parts ! 0"
  have x: "XDial nw rpcAddr opts = dialTimeout nw ?f ?n (?parts ! 1) opts" if "length ?parts = 2"
    using that by (simp add: XDial_def DialHTTP_def Dial_def Let_def)
  show ?thesis
  proof (cases res)
    case (Inl err)
    have "dialTimeout nw ?f ?n (?parts ! 1) opts = (Inl err, closed)" if "length ?parts = 2"
      using x [OF that] Pair Inl by simp
    then show ?thesis unfolding Pair Inl prod.case sum.case using dialTimeout_Inl by blast
  next
    case (Inr r)
    obtain cl opt where r: "r = (cl, opt)" by (cases r)
    have two: "length ?parts = 2" using Pair Inr by (auto simp: XDial_def Let_def split: if_splits)
    obtain opt' conn where d: "parseOptions opts = Inr opt'" "nw_dial nw ?n (?parts ! 1) (op_ConnectTimeout opt') = Inr conn"
      "?f nw conn opt' = Inr (cl, opt)" "\<not> closed"
      using trans [OF x [OF two, symmetric] Pair] unfolding Inr r dialTimeout_Inr by blast
    then have c: "op_CodecType opt' = GobType" "\<not> cn_closed conn" "\<not> cn_broken conn" "cl = new_client (NewGobCodec conn) (nw_heap nw)" "opt = opt'"
      by (auto simp: NewHTTPClient_Inr NewClient_Inr split: if_splits)
    have "client_inv cl" "numbered cl" "Client_IsAvailable cl" "wire_ok (cl_codec cl)" "cl_codec cl = NewGobCodec conn"
      by (simp_all add: c(2-4) new_client_def client_inv_def numbered_def Client_IsAvailable_def wire_ok_def NewGobCodec_def)
    moreover have "ServeConn srv conn' (Inr opt) = Some (serve_init srv (NewGobCodec conn'), op_HandleTimeout opt)"
      using parseOptions_magic [OF d(1)] c(1,5) by (simp add: ServeConn_def)
    moreover have "\<exists>p a conn. rpcAddr = p @ ''@'' @ a \<and> CHR ''@'' \<notin> set p \<and> CHR ''@'' \<notin> set a \<and>
        nw_dial nw (if p = ''http'' then ''tcp'' else p) a (op_ConnectTimeout opt) = Inr conn \<and> cl_codec cl = NewGobCodec conn"
    proof (intro exI conjI)
      show "rpcAddr = ?parts ! 0 @ ''@'' @ ?parts ! 1" using Split2 [OF two] by (simp only: append_Cons append_Nil)
      show "CHR ''@'' \<notin> set (?parts ! 0)" "CHR ''@'' \<notin> set (?parts ! 1)" using Split2_parts [OF two] by blast+
      show "nw_dial nw ?n (?parts ! 1) (op_ConnectTimeout opt) = Inr conn" using d(2) c(5) by (simp only:)
    qed (fact calculation)
    ultimately show ?thesis using d(4) unfolding Pair Inr r by (simp only: prod.case sum.case simp_thms)
  qed
qed

theorem XDial_handshake_witness:
  "let nw = \<lparr>nw_dial = (\<lambda>n a t. Inr (conn_of [])), nw_status = Inr connected, nw_slow = False, nw_dur = (\<lambda>d. ''0s''), nw_heap = (\<lambda>_. no_call)\<rparr>
   in \<exists>cl opt. XDial nw ''http@10.0.0.1:7001'' [] = (Inr (cl, opt), False) \<and>
        ServeConn NewServer (conn_of []) (Inr opt) = Some (serve_init (NewServer :: int server) (NewGobCodec (conn_of [])), op_HandleTimeout opt)"
proof -
  let ?nw = "\<lparr>nw_dial = (\<lambda>n a t. Inr (conn_of [])), nw_status = Inr connected, nw_slow = False, nw_dur = (\<lambda>d. ''0s''), nw_heap = (\<lambda>_. no_call)\<rparr>"
  have "XDial ?nw ''http@10.0.0.1:7001'' [] = (Inr (new_client (NewGobCodec (conn_of [])) (\<lambda>_. no_call), DefaultOption), False)"
    by (simp add: XDial_def DialHTTP_def dialTimeout_def NewHTTPClient_def NewClient_def parseOptions_def DefaultOption_def conn_of_def Let_def)
  then show ?thesis
    using XDial_handshake [where nw = ?nw and rpcAddr = "''http@10.0.0.1:7001''" and opts = "[]" and srv = "NewServer :: int server"
        and conn' = "conn_of []"] by (simp add: Let_def)
qed

end
