(* ===== verification/XClient.thy ===== *)
theory XClient
  imports Rpc_Dial Discovery
begin

section \<open>The client with discovery (\<^verbatim>\<open>rpc/xclient/xclient.go\<close>)\<close>

text \<open>
  \<^verbatim>\<open>XClient\<close> asks a discovery for a server, keeps one connection per server, and calls. What it relies on is the
  interface \<^verbatim>\<open>Discovery\<close>: the locale below states its laws, and both discoveries of the package satisfy
  them. The clients are objects on a heap, since calls that are running point to them after they have been
  replaced. Waiting for a call to complete is part of the RPC client.
\<close>

subsection \<open>The interface\<close>

text \<open>\<open>listed\<close> are the servers a discovery knows. A server that \<^verbatim>\<open>Get\<close> returns is one of them, and \<^verbatim>\<open>GetAll\<close> returns
  all of them.\<close>

locale discovery =
  fixes get :: "'d \<Rightarrow> int \<Rightarrow> ('d \<times> (string + string)) option"
    and get_all :: "'d \<Rightarrow> 'd \<times> (string + string list)"
    and listed :: "'d \<Rightarrow> string list"
  assumes get_listed: "get d mode = Some (d', Inr s) \<Longrightarrow> s \<in> set (listed d')"
    and get_all_listed: "get_all d = (d', Inr ss) \<Longrightarrow> ss = listed d'"

lemma go_index_in: "go_index xs k = Some s \<Longrightarrow> s \<in> set xs"
  by (auto simp: go_index_def split: if_splits)

lemma ms_Get_listed: "ms_Get intn d mode = Some (d', Inr s) \<Longrightarrow> s \<in> set (ms_servers d')"
  by (auto simp: ms_Get_def Let_def go_index_in split: if_splits option.splits prod.splits)

interpretation md: discovery "ms_Get intn" "\<lambda>d. (d, ms_GetAll d)" ms_servers
  by unfold_locales (auto simp: ms_Get_listed ms_GetAll_def)

text \<open>The discovery that asks a registry, at the times \<open>now\<close> and \<open>now'\<close>; the world of its HTTP client is part of the state.\<close>

definition gd_get :: "'r intn \<Rightarrow> 'w header_client \<Rightarrow> int \<Rightarrow> int \<Rightarrow> 'r gee_disc \<times> 'w \<Rightarrow> int \<Rightarrow> (('r gee_disc \<times> 'w) \<times> (string + string)) option" where
  "gd_get intn http now now' = (\<lambda>(d, w) mode. map_option (\<lambda>(d', r, w'). ((d', w'), r)) (gd_Get intn http d mode now now' w))"

definition gd_get_all :: "'w header_client \<Rightarrow> int \<Rightarrow> int \<Rightarrow> 'r gee_disc \<times> 'w \<Rightarrow> ('r gee_disc \<times> 'w) \<times> (string + string list)" where
  "gd_get_all http now now' = (\<lambda>(d, w). case gd_GetAll http d now now' w of (d', r, w') \<Rightarrow> ((d', w'), r))"

interpretation gd: discovery "gd_get intn http now now'" "gd_get_all http now now'" "\<lambda>(d, _). ms_servers (gd_multi d)"
proof (unfold_locales, goal_cases)
  case (1 d mode d' s)
  then show ?case
    by (auto simp: gd_get_def gd_Get_def ms_Get_listed split: prod.splits option.splits)
next
  case (2 d d' ss)
  then show ?case by (auto simp: gd_get_all_def gd_GetAll_def ms_GetAll_def split: prod.splits option.splits)
qed

subsection \<open>State and operations\<close>

record ('d, 'v) xclient =
  xc_d :: 'd
  xc_mode :: int
  xc_opt :: "rpc_option option"
  xc_clients :: "(string, nat) gomap"
  xc_heap :: "nat \<Rightarrow> 'v client"
  xc_next :: nat

definition NewXClient :: "'d \<Rightarrow> int \<Rightarrow> rpc_option option \<Rightarrow> (nat \<Rightarrow> 'v client) \<Rightarrow> ('d, 'v) xclient" where
  "NewXClient d mode opt heap = \<lparr>xc_d = d, xc_mode = mode, xc_opt = opt, xc_clients = [], xc_heap = heap, xc_next = 0\<rparr>"

definition close_client :: "nat \<Rightarrow> ('d, 'v) xclient \<Rightarrow> ('d, 'v) xclient" where
  "close_client a xc = xc\<lparr>xc_heap := (xc_heap xc)(a := snd (Client_Close (xc_heap xc a)))\<rparr>"

definition XClient_Close :: "('d, 'v) xclient \<Rightarrow> ('d, 'v) xclient" where
  "XClient_Close xc =
     foldl (\<lambda>xc (key, a). let xc1 = close_client a xc in xc1\<lparr>xc_clients := AList.delete key (xc_clients xc1)\<rparr>) xc (xc_clients xc)"

text \<open>\<^verbatim>\<open>dial\<close>: the client, and whether a connection was made. The option \<^verbatim>\<open>opt\<close> is not passed on.\<close>

definition XClient_dial :: "'v network \<Rightarrow> string \<Rightarrow> ('d, 'v) xclient \<Rightarrow> (string + nat) \<times> ('d, 'v) xclient" where
  "XClient_dial nw rpcAddr xc =
     (let client = map_of (xc_clients xc) rpcAddr
      in if (case client of None \<Rightarrow> False | Some a \<Rightarrow> Client_IsAvailable (xc_heap xc a)) then (Inr (the client), xc)
         else
           let xc1 = (case client of
                        None \<Rightarrow> xc
                      | Some a \<Rightarrow> (close_client a xc)\<lparr>xc_clients := AList.delete rpcAddr (xc_clients xc)\<rparr>)
           in case fst (XDial nw rpcAddr []) of
                Inl err \<Rightarrow> (Inl err, xc1)
              | Inr (cl, _) \<Rightarrow>
                  let a = xc_next xc1
                  in (Inr a, xc1\<lparr>xc_heap := (xc_heap xc1)(a := cl), xc_next := Suc a, xc_clients := AList.update rpcAddr a (xc_clients xc1)\<rparr>))"

text \<open>\<^verbatim>\<open>call\<close> and \<^verbatim>\<open>Call\<close> up to the point where they wait: the client and the call, or an error. (The channel of the call has
  capacity 1, so starting it does not panic.)\<close>

definition XClient_call ::
  "'v network \<Rightarrow> 'v client_cfg \<Rightarrow> string \<Rightarrow> string \<Rightarrow> 'v \<Rightarrow> ('d, 'v) xclient \<Rightarrow> (string + nat \<times> nat) \<times> ('d, 'v) xclient" where
  "XClient_call nw cf rpcAddr serviceMethod args xc =
     (case XClient_dial nw rpcAddr xc of
        (Inl err, xc1) \<Rightarrow> (Inl err, xc1)
      | (Inr a, xc1) \<Rightarrow>
          (case Client_Go cf serviceMethod args (Some 1) (xc_heap xc1 a) of
             None \<Rightarrow> (Inl ''panic'', xc1)
           | Some (i, cl) \<Rightarrow> (Inr (a, i), xc1\<lparr>xc_heap := (xc_heap xc1)(a := cl)\<rparr>)))"

text \<open>\<^verbatim>\<open>Call\<close>, for the discovery's \<^verbatim>\<open>Get\<close>; \<^const>\<open>None\<close> when that panics.\<close>

definition XClient_Call ::
  "('d \<Rightarrow> int \<Rightarrow> ('d \<times> (string + string)) option) \<Rightarrow> 'v network \<Rightarrow> 'v client_cfg \<Rightarrow> string \<Rightarrow> 'v \<Rightarrow> ('d, 'v) xclient \<Rightarrow>
   ((string + nat \<times> nat) \<times> ('d, 'v) xclient) option" where
  "XClient_Call get nw cf serviceMethod args xc =
     (case get (xc_d xc) (xc_mode xc) of
        None \<Rightarrow> None
      | Some (d, Inl err) \<Rightarrow> Some (Inl err, xc\<lparr>xc_d := d\<rparr>)
      | Some (d, Inr rpcAddr) \<Rightarrow> Some (XClient_call nw cf rpcAddr serviceMethod args (xc\<lparr>xc_d := d\<rparr>)))"

text \<open>\<^verbatim>\<open>Broadcast\<close>: the variables that its goroutines share, and the critical section of a goroutine whose call
  has ended with \<open>r\<close>. The calls run at the same time; their ends come in some order.\<close>

record 'v broadcast =
  bc_e :: "string option"
  bc_replyDone :: bool
  bc_reply :: "'v option"
  bc_cancelled :: bool

definition Broadcast_init :: "bool \<Rightarrow> 'v broadcast" where
  "Broadcast_init want_reply = \<lparr>bc_e = None, bc_replyDone = (\<not> want_reply), bc_reply = None, bc_cancelled = False\<rparr>"

definition Broadcast_finish :: "'v broadcast \<Rightarrow> string + 'v \<Rightarrow> 'v broadcast" where
  "Broadcast_finish b r =
     (let b1 = (case r of
                  Inl err \<Rightarrow> if bc_e b = None then b\<lparr>bc_e := Some err, bc_cancelled := True\<rparr> else b
                | Inr _ \<Rightarrow> b)
      in case r of
           Inr v \<Rightarrow> if \<not> bc_replyDone b1 then b1\<lparr>bc_reply := Some v, bc_replyDone := True\<rparr> else b1
         | Inl _ \<Rightarrow> b1)"

text \<open>The servers that are called, or the error of \<^verbatim>\<open>GetAll\<close>; and the result when all goroutines have ended.\<close>

definition Broadcast_servers :: "('d \<Rightarrow> 'd \<times> (string + string list)) \<Rightarrow> ('d, 'v) xclient \<Rightarrow> (string + string list) \<times> ('d, 'v) xclient" where
  "Broadcast_servers get_all xc = (case get_all (xc_d xc) of (d, r) \<Rightarrow> (r, xc\<lparr>xc_d := d\<rparr>))"

definition Broadcast_wait :: "bool \<Rightarrow> (string + 'v) list \<Rightarrow> 'v broadcast" where
  "Broadcast_wait want_reply results = foldl Broadcast_finish (Broadcast_init want_reply) results"

subsection \<open>Facts\<close>

text \<open>Every address has its own client.\<close>

definition xc_inv :: "('d, 'v) xclient \<Rightarrow> bool" where
  "xc_inv xc \<longleftrightarrow> distinct (map fst (xc_clients xc)) \<and> (\<forall>s a. map_of (xc_clients xc) s = Some a \<longrightarrow> a < xc_next xc) \<and>
     (\<forall>s s' a. map_of (xc_clients xc) s = Some a \<and> map_of (xc_clients xc) s' = Some a \<longrightarrow> s = s')"

lemma NewXClient_inv [simp]: "xc_inv (NewXClient d mode opt heap)"
  by (simp add: xc_inv_def NewXClient_def)

lemma xc_inv_delete: "xc_inv xc \<Longrightarrow> xc_inv ((close_client a xc)\<lparr>xc_clients := AList.delete s (xc_clients xc)\<rparr>)"
  by (auto simp: xc_inv_def close_client_def delete_conv' distinct_delete split: if_splits)

lemma xc_inv_add:
  "xc_inv xc \<Longrightarrow> xc_inv (xc\<lparr>xc_heap := h, xc_next := Suc (xc_next xc), xc_clients := AList.update s (xc_next xc) (xc_clients xc)\<rparr>)"
  unfolding xc_inv_def by (auto simp: update_conv' distinct_update less_Suc_eq split: if_splits) (metis less_irrefl)+

lemma XDial_available: "fst (XDial nw s opts) = Inr (cl, opt) \<Longrightarrow> Client_IsAvailable cl"
  by (auto simp: XDial_def Dial_def DialHTTP_def dialTimeout_def Let_def NewHTTPClient_Inr NewClient_Inr new_client_def Client_IsAvailable_def
      split: if_splits sum.splits)

lemma Client_Close_unavailable: "\<not> Client_IsAvailable (snd (Client_Close cl))"
  by (simp add: Client_Close_def Client_IsAvailable_def)

text \<open>The client that is used for an address afterwards: the old one while it works, else a new one, the old one being
  closed. After an error there is none.\<close>

lemma XClient_dial_spec:
  assumes "xc_inv xc" "XClient_dial nw s xc = (r, xc')"
  shows "xc_inv xc'" "xc_d xc' = xc_d xc" "\<And>s'. s' \<noteq> s \<Longrightarrow> map_of (xc_clients xc') s' = map_of (xc_clients xc) s'"
    "r = Inr a \<Longrightarrow> map_of (xc_clients xc') s = Some a \<and> Client_IsAvailable (xc_heap xc' a)"
    "r = Inl err \<Longrightarrow> map_of (xc_clients xc') s = None"
    "map_of (xc_clients xc) s = Some b \<Longrightarrow>
       (if Client_IsAvailable (xc_heap xc b) then r = Inr b \<and> xc' = xc else r \<noteq> Inr b \<and> \<not> Client_IsAvailable (xc_heap xc' b))"
proof -
  define xc1 where "xc1 = (case map_of (xc_clients xc) s of None \<Rightarrow> xc
      | Some a \<Rightarrow> (close_client a xc)\<lparr>xc_clients := AList.delete s (xc_clients xc)\<rparr>)"
  have i1: "xc_inv xc1" using assms(1) by (auto simp: xc1_def xc_inv_delete split: option.splits)
  have f1: "xc_d xc1 = xc_d xc" "xc_next xc1 = xc_next xc" "map_of (xc_clients xc1) = (map_of (xc_clients xc))(s := None)"
    by (auto simp: xc1_def close_client_def delete_conv' fun_eq_iff split: option.splits)
  consider (old) b' where "map_of (xc_clients xc) s = Some b'" "Client_IsAvailable (xc_heap xc b')" "r = Inr b'" "xc' = xc"
    | (err) e where "r = Inl e" "xc' = xc1" "\<And>b. map_of (xc_clients xc) s = Some b \<Longrightarrow> \<not> Client_IsAvailable (xc_heap xc b)"
    | (new) cl where "Client_IsAvailable cl" "r = Inr (xc_next xc1)"
        "xc' = xc1\<lparr>xc_heap := (xc_heap xc1)(xc_next xc1 := cl), xc_next := Suc (xc_next xc1), xc_clients := AList.update s (xc_next xc1) (xc_clients xc1)\<rparr>"
        "\<And>b. map_of (xc_clients xc) s = Some b \<Longrightarrow> \<not> Client_IsAvailable (xc_heap xc b)"
  proof (cases "case map_of (xc_clients xc) s of None \<Rightarrow> False | Some a \<Rightarrow> Client_IsAvailable (xc_heap xc a)")
    case True
    then obtain b' where b': "map_of (xc_clients xc) s = Some b'" "Client_IsAvailable (xc_heap xc b')" by (auto split: option.splits)
    then have "r = Inr b'" "xc' = xc" using assms(2) unfolding XClient_dial_def by simp_all
    then show ?thesis using that(1) b' by blast
  next
    case False
    then have un: "\<not> Client_IsAvailable (xc_heap xc b)" if "map_of (xc_clients xc) s = Some b" for b using that by simp
    show ?thesis
    proof (cases "fst (XDial nw s [])")
      case (Inl e)
      then have "r = Inl e" "xc' = xc1" using assms(2) False unfolding XClient_dial_def xc1_def Let_def by simp_all
      then show ?thesis using that(2) un by blast
    next
      case (Inr p)
      obtain cl opt where p: "p = (cl, opt)" by (cases p)
      then have "Client_IsAvailable cl" using Inr XDial_available by blast
      moreover have "r = Inr (xc_next xc1)"
        "xc' = xc1\<lparr>xc_heap := (xc_heap xc1)(xc_next xc1 := cl), xc_next := Suc (xc_next xc1), xc_clients := AList.update s (xc_next xc1) (xc_clients xc1)\<rparr>"
        using assms(2) False Inr p unfolding XClient_dial_def xc1_def Let_def by simp_all
      ultimately show ?thesis using that(3) un by blast
    qed
  qed
  note cases = this
  have closed: "\<not> Client_IsAvailable (xc_heap xc1 b)" if "map_of (xc_clients xc) s = Some b" for b
    using that by (simp add: xc1_def close_client_def Client_Close_unavailable)
  have lt: "b < xc_next xc" if "map_of (xc_clients xc) s = Some b" for b using assms(1) that by (auto simp: xc_inv_def)
  show "xc_inv xc'" by (cases rule: cases) (use assms(1) i1 in \<open>auto intro: xc_inv_add\<close>)
  show "xc_d xc' = xc_d xc" by (cases rule: cases) (auto simp: f1)
  show "map_of (xc_clients xc') s' = map_of (xc_clients xc) s'" if "s' \<noteq> s" for s'
    by (cases rule: cases) (use that in \<open>auto simp: f1 update_conv'\<close>)
  show "r = Inr a \<Longrightarrow> map_of (xc_clients xc') s = Some a \<and> Client_IsAvailable (xc_heap xc' a)"
    by (cases rule: cases) (auto simp: update_conv')
  show "r = Inl err \<Longrightarrow> map_of (xc_clients xc') s = None" by (cases rule: cases) (auto simp: f1)
  show "map_of (xc_clients xc) s = Some b \<Longrightarrow>
      (if Client_IsAvailable (xc_heap xc b) then r = Inr b \<and> xc' = xc else r \<noteq> Inr b \<and> \<not> Client_IsAvailable (xc_heap xc' b))"
    by (cases rule: cases) (use closed lt f1(2) in fastforce)+
qed

text \<open>Sending does not change what is called.\<close>

definition same_call :: "'v client \<Rightarrow> 'v client \<Rightarrow> bool" where
  "same_call cl cl' \<longleftrightarrow> (\<forall>i. ca_ServiceMethod (cl_heap cl' i) = ca_ServiceMethod (cl_heap cl i) \<and> ca_Args (cl_heap cl' i) = ca_Args (cl_heap cl i))"

lemma same_call_ops:
  "same_call cl (registerCall a cl)" "same_call cl (Call_done a cl)" "same_call cl (snd (removeCall n cl))"
  "same_call cl (cl\<lparr>cl_codec := c\<rparr>)" "same_call cl (upd_call a (\<lambda>c. c\<lparr>ca_Error := e\<rparr>) cl)"
  by (simp_all add: same_call_def registerCall_def Call_done_def removeCall_def upd_call_def Let_def split: option.splits)

lemma same_call_trans: "same_call cl cl' \<Longrightarrow> same_call cl' cl'' \<Longrightarrow> same_call cl cl''"
  by (simp add: same_call_def)

lemma same_call_send: "same_call cl (Client_send cf a cl)"
proof -
  let ?cl1 = "registerCall a cl"
  obtain err c where w: "gob_Write (cc_encodable cf) \<lparr>h_ServiceMethod = ca_ServiceMethod (cl_heap ?cl1 a), h_Seq = ca_Seq (cl_heap ?cl1 a), h_Error = '''', h_Timeout = 0\<rparr>
      (Val (ca_Args (cl_heap ?cl1 a))) (cl_codec ?cl1) = (err, c)" by fastforce
  let ?cl2 = "?cl1\<lparr>cl_codec := c\<rparr>"
  have 2: "same_call cl ?cl2" by (rule same_call_trans [OF same_call_ops(1) same_call_ops(4)])
  show ?thesis
  proof (cases err)
    case None
    then show ?thesis using w 2 by (simp add: Client_send_def Let_def)
  next
    case (Some e)
    obtain x cl3 where r: "removeCall (ca_Seq (cl_heap ?cl1 a)) ?cl2 = (x, cl3)" by fastforce
    have 3: "same_call cl cl3" using same_call_trans [OF 2 same_call_ops(3)] r by (metis snd_conv)
    have "same_call cl (Call_done b (upd_call b (\<lambda>c. c\<lparr>ca_Error := Some e\<rparr>) cl3))" for b
      by (rule same_call_trans [OF same_call_trans [OF 3 same_call_ops(5)] same_call_ops(2)])
    then show ?thesis using w Some r 3 by (cases x) (simp_all add: Client_send_def Let_def)
  qed
qed

lemma Client_send_call [simp]:
  "ca_ServiceMethod (cl_heap (Client_send cf a cl) i) = ca_ServiceMethod (cl_heap cl i)"
  "ca_Args (cl_heap (Client_send cf a cl) i) = ca_Args (cl_heap cl i)"
  using same_call_send [of cl cf a] by (simp_all add: same_call_def)

lemma Client_Go_call:
  assumes "Client_Go cf sm v d cl = Some (i, cl')"
  shows "ca_ServiceMethod (cl_heap cl' i) = sm" "ca_Args (cl_heap cl' i) = v"
  using assms by (auto simp: Client_Go_def Let_def split: if_splits)

text \<open>Whatever the discovery: a call goes to a server that it lists.\<close>

context discovery
begin

lemma Call_listed:
  assumes inv: "xc_inv xc" and call: "XClient_Call get nw cf sm v xc = Some (Inr (a, i), xc')"
  shows "xc_inv xc' \<and> (\<exists>s \<in> set (listed (xc_d xc')). map_of (xc_clients xc') s = Some a \<and>
    ca_ServiceMethod (cl_heap (xc_heap xc' a) i) = sm \<and> ca_Args (cl_heap (xc_heap xc' a) i) = v \<and>
    (\<forall>b. map_of (xc_clients xc) s = Some b \<and> Client_IsAvailable (xc_heap xc b) \<longrightarrow> b = a))"
proof -
  obtain d s where g: "get (xc_d xc) (xc_mode xc) = Some (d, Inr s)"
    and c: "XClient_call nw cf s sm v (xc\<lparr>xc_d := d\<rparr>) = (Inr (a, i), xc')"
    using call by (auto simp: XClient_Call_def split: option.splits sum.splits)
  let ?xc = "xc\<lparr>xc_d := d\<rparr>"
  obtain xc1 cl where x: "XClient_dial nw s ?xc = (Inr a, xc1)" "Client_Go cf sm v (Some 1) (xc_heap xc1 a) = Some (i, cl)"
    "xc' = xc1\<lparr>xc_heap := (xc_heap xc1)(a := cl)\<rparr>"
    using c by (auto simp: XClient_call_def split: prod.splits sum.splits option.splits)
  have "xc_inv ?xc" using inv by (simp add: xc_inv_def)
  note ds = XClient_dial_spec [OF this x(1)]
  have "s \<in> set (listed (xc_d xc'))" using get_listed [OF g] ds(2) x(3) by simp
  moreover have "xc_inv xc'" using ds(1) x(3) by (simp add: xc_inv_def)
  moreover have "b = a" if "map_of (xc_clients xc) s = Some b" "Client_IsAvailable (xc_heap xc b)" for b
    using ds(6) [of b] that by simp
  ultimately show ?thesis using ds(4) [of a] x(3) Client_Go_call [OF x(2)] by auto
qed

end

text \<open>The errors and the values among results.\<close>

definition errs :: "('e + 'a) list \<Rightarrow> 'e list" where
  "errs rs = List.map_filter (\<lambda>r. case r of Inl e \<Rightarrow> Some e | Inr _ \<Rightarrow> None) rs"

definition vals :: "('e + 'a) list \<Rightarrow> 'a list" where
  "vals rs = List.map_filter (\<lambda>r. case r of Inl _ \<Rightarrow> None | Inr v \<Rightarrow> Some v) rs"

lemma errs_vals_simps [simp]:
  "errs [] = []" "errs (Inl e # rs) = e # errs rs" "errs (Inr v # rs) = errs rs"
  "vals [] = []" "vals (Inl e # rs) = vals rs" "vals (Inr v # rs) = v # vals rs"
  by (simp_all add: errs_def vals_def map_filter_simps)

definition first_of :: "'a option \<Rightarrow> 'a list \<Rightarrow> 'a option" where
  "first_of x xs = (case x of Some a \<Rightarrow> Some a | None \<Rightarrow> (case xs of [] \<Rightarrow> None | a # _ \<Rightarrow> Some a))"

lemma Broadcast_finish_simps:
  "bc_e (Broadcast_finish b r) = first_of (bc_e b) (errs [r])"
  "bc_cancelled (Broadcast_finish b r) \<longleftrightarrow> bc_cancelled b \<or> bc_e b = None \<and> errs [r] \<noteq> []"
  "bc_replyDone (Broadcast_finish b r) \<longleftrightarrow> bc_replyDone b \<or> vals [r] \<noteq> []"
  "bc_reply (Broadcast_finish b r) = (if bc_replyDone b then bc_reply b else first_of None (vals [r] @ (case bc_reply b of None \<Rightarrow> [] | Some v \<Rightarrow> [v])))"
  by (cases r; auto simp: Broadcast_finish_def first_of_def Let_def split: option.splits)+

lemma errs_vals_Cons: "errs (r # rs) = errs [r] @ errs rs" "vals (r # rs) = vals [r] @ vals rs"
  by (cases r; simp)+

lemma first_of_append [simp]: "first_of (first_of x ys) zs = first_of x (ys @ zs)"
  by (cases ys) (auto simp: first_of_def split: option.splits)

lemma first_of_None: "first_of x xs = None \<longleftrightarrow> x = None \<and> xs = []"
  by (auto simp: first_of_def split: option.splits list.splits)

lemma Broadcast_e: "bc_e (foldl Broadcast_finish b rs) = first_of (bc_e b) (errs rs)"
proof (induction rs arbitrary: b)
  case (Cons r rs)
  then show ?case by (subst errs_vals_Cons) (simp add: Broadcast_finish_simps)
qed (simp add: first_of_def split: option.splits)

lemma Broadcast_cancelled:
  "bc_cancelled (foldl Broadcast_finish b rs) \<longleftrightarrow> bc_cancelled b \<or> bc_e b = None \<and> errs rs \<noteq> []"
proof (induction rs arbitrary: b)
  case (Cons r rs)
  then show ?case by (subst errs_vals_Cons) (auto simp: Broadcast_finish_simps first_of_None)
qed simp

lemma Broadcast_reply_done: "bc_replyDone b \<Longrightarrow> bc_reply (foldl Broadcast_finish b rs) = bc_reply b"
  by (induction rs arbitrary: b) (simp_all add: Broadcast_finish_simps)

lemma Broadcast_reply:
  "\<not> bc_replyDone b \<Longrightarrow> bc_reply b = None \<Longrightarrow> bc_reply (foldl Broadcast_finish b rs) = first_of None (vals rs)"
proof (induction rs arbitrary: b)
  case (Cons r rs)
  show ?case
  proof (cases r)
    case (Inl e)
    then show ?thesis using Cons.IH [of "Broadcast_finish b r"] Cons.prems by (simp add: Broadcast_finish_simps first_of_def)
  next
    case (Inr v)
    then show ?thesis
      using Broadcast_reply_done [of "Broadcast_finish b r" rs] Cons.prems by (simp add: Broadcast_finish_simps first_of_def)
  qed
qed (simp add: first_of_def)

subsection \<open>Properties\<close>

text \<open>Calls through a registry go to servers that it lists, over one connection per server. When \<^verbatim>\<open>Call\<close> has started a
  call, the call with its method and argument stands in the client that is kept for one of the servers of the
  discovery's list; a connection to that server that still worked is used again, and no two servers
  share a client.\<close>

theorem XClient_Call_listed:
  assumes "xc_inv xc" and "XClient_Call (gd_get intn http now now') nw cf sm v xc = Some (Inr (a, i), xc')"
  shows "xc_inv xc' \<and> (\<exists>s \<in> set (ms_servers (gd_multi (fst (xc_d xc')))). map_of (xc_clients xc') s = Some a \<and>
    ca_ServiceMethod (cl_heap (xc_heap xc' a) i) = sm \<and> ca_Args (cl_heap (xc_heap xc' a) i) = v \<and>
    (\<forall>b. map_of (xc_clients xc) s = Some b \<and> Client_IsAvailable (xc_heap xc b) \<longrightarrow> b = a))"
  using gd.Call_listed [OF assms] by (simp add: case_prod_beta)

text \<open>C34: what \<^verbatim>\<open>Broadcast\<close> returns. In whatever order the calls end, the error is the first one in that order, and there is
  none exactly when all calls succeeded; the context is cancelled exactly when a call failed; the reply, when one
  is wanted, is that of the first call that succeeded, whether or not others failed.\<close>

theorem Broadcast_outcome:
  assumes "mset order = mset results"
  shows "(bc_e (Broadcast_wait want_reply order) = None \<longleftrightarrow> errs results = []) \<and>
    bc_e (Broadcast_wait want_reply order) = first_of None (errs order) \<and>
    (bc_cancelled (Broadcast_wait want_reply order) \<longleftrightarrow> errs results \<noteq> []) \<and>
    bc_reply (Broadcast_wait want_reply order) = (if want_reply then first_of None (vals order) else None)"
proof -
  have "errs rs = [] \<longleftrightarrow> (\<forall>r \<in> set rs. \<exists>v. r = Inr v)" for rs :: "(string + 'a) list"
  proof (induction rs)
    case (Cons r rs)
    then show ?case by (cases r) auto
  qed simp
  then have "errs order = [] \<longleftrightarrow> errs results = []" using mset_eq_setD [OF assms] by simp
  then show ?thesis
    by (simp add: Broadcast_wait_def Broadcast_e Broadcast_cancelled Broadcast_reply Broadcast_reply_done Broadcast_init_def first_of_None)
qed

subsection \<open>Examples\<close>

definition ok_network :: "int network" where
  "ok_network = \<lparr>nw_dial = (\<lambda>n a t. Inr (conn_of [])), nw_status = Inr connected, nw_slow = False, nw_dur = (\<lambda>d. ''0s''), nw_heap = (\<lambda>_. no_call)\<rparr>"

text \<open>A registry that lists one server.\<close>

definition one_server :: "unit header_client" where
  "one_server url w = (Inr [(''X-Rpc-Servers'', ''tcp@a'')], w)"

definition one_server_xclient :: "(unit gee_disc \<times> unit, int) xclient" where
  "one_server_xclient = NewXClient (gd_New (\<lambda>n r. (0, r)) () ''http://r'' 0, ()) RoundRobinSelect None
     (\<lambda>_. new_client (NewGobCodec (conn_of [])) (\<lambda>_. no_call))"

lemma one_server_Get:
  "\<exists>d. gd_get (\<lambda>n r. (0, r)) one_server 1 2 (xc_d one_server_xclient) (xc_mode one_server_xclient) = Some (d, Inr ''tcp@a'')"
  by (simp add: gd_get_def gd_Get_def gd_Refresh_def gd_New_def ms_New_def one_server_def one_server_xclient_def NewXClient_def header_get_def
      strings_TrimSpace_def is_space_def ms_Get_def RandomSelect_def RoundRobinSelect_def go_index_def go_rem_def)

theorem XClient_Call_listed_witness:
  "\<exists>a i xc'. XClient_Call (gd_get (\<lambda>n r. (0, r)) one_server 1 2) ok_network any_cfg ''Foo.Sum'' 7 one_server_xclient = Some (Inr (a, i), xc') \<and>
     ca_Args (cl_heap (xc_heap xc' a) i) = 7"
proof -
  obtain d where g: "gd_get (\<lambda>n r. (0, r)) one_server 1 2 (xc_d one_server_xclient) (xc_mode one_server_xclient) = Some (d, Inr ''tcp@a'')"
    using one_server_Get by blast
  have "fst (XDial ok_network ''tcp@a'' []) = Inr (new_client (NewGobCodec (conn_of [])) (\<lambda>_. no_call), DefaultOption)"
    by (simp add: XDial_def Dial_def dialTimeout_def NewClient_def parseOptions_def DefaultOption_def ok_network_def conn_of_def Let_def)
  then have "\<exists>a i xc'. XClient_Call (gd_get (\<lambda>n r. (0, r)) one_server 1 2) ok_network any_cfg ''Foo.Sum'' 7 one_server_xclient = Some (Inr (a, i), xc')"
    using g by (simp add: XClient_Call_def XClient_call_def XClient_dial_def Client_Go_def one_server_xclient_def NewXClient_def Let_def)
  then obtain a i xc' where c: "XClient_Call (gd_get (\<lambda>n r. (0, r)) one_server 1 2) ok_network any_cfg ''Foo.Sum'' 7 one_server_xclient = Some (Inr (a, i), xc')"
    by blast
  have "xc_inv one_server_xclient" by (simp add: one_server_xclient_def)
  from XClient_Call_listed [OF this c] show ?thesis using c by blast
qed

theorem Broadcast_outcome_witness:
  "bc_e (Broadcast_wait True [Inl ''down'', Inr (1 :: int), Inr 2]) = Some ''down'' \<and>
   bc_reply (Broadcast_wait True [Inl ''down'', Inr (1 :: int), Inr 2]) = Some 1"
  using Broadcast_outcome [of "[Inl ''down'', Inr (1 :: int), Inr 2]" "[Inr 1, Inl ''down'', Inr 2]" True] by (simp add: first_of_def)

end
