(* ===== verification/Rpcx_Registry.thy ===== *)
theory Rpcx_Registry
  imports Registry_Server Http_Lib
begin

section \<open>The registry client of \<^verbatim>\<open>rpcx\<close> (\<^verbatim>\<open>rpcx/registry\<close>)\<close>

text \<open>
  \<^verbatim>\<open>httpRegistry\<close> keeps a copy of the services it has registered or looked up and talks to a registry
  server by HTTP. The HTTP client is a record of functions on a world: each fails or returns a status and,
  for \<^verbatim>\<open>GET\<close>, the result of decoding the JSON body. A pointer to a node is an option, \<^const>\<open>None\<close> being
  \<^verbatim>\<open>nil\<close>. A service is reached through the map of the registry; that callers keep the pointer
  they got is not modelled. An operation that panics has the result \<^const>\<open>None\<close>. The order of
  the map stands for the order in which Go happens to iterate.
\<close>

subsection \<open>Services and options\<close>

record node =
  nd_Metadata :: "(string, string) gomap"
  nd_Id :: string
  nd_Address :: string

record xservice =
  xs_Name :: string
  xs_Version :: string
  xs_Metadata :: "(string, string) gomap"
  xs_Nodes :: "node option list"

definition node_at :: "string \<Rightarrow> node" where
  "node_at addr = \<lparr>nd_Metadata = [], nd_Id = '''', nd_Address = addr\<rparr>"

definition service_of :: "string \<Rightarrow> node option list \<Rightarrow> xservice" where
  "service_of name nodes = \<lparr>xs_Name = name, xs_Version = '''', xs_Metadata = [], xs_Nodes = nodes\<rparr>"

text \<open>\<^verbatim>\<open>context.Context\<close>, with the values that this package puts into it.\<close>

datatype gocontext = Background | WithServices gocontext "(string, xservice list) gomap"

record reg_options =
  ro_Context :: "gocontext option"
  ro_Addrs :: "string list"
  ro_Timeout :: int

record register_options =
  rgo_Context :: "gocontext option"
  rgo_TTL :: int

record deregister_options =
  dro_Context :: "gocontext option"

record get_options =
  gto_Context :: "gocontext option"

record list_options =
  lso_Context :: "gocontext option"

type_synonym reg_option = "reg_options \<Rightarrow> reg_options"
type_synonym register_option = "register_options \<Rightarrow> register_options"
type_synonym deregister_option = "deregister_options \<Rightarrow> deregister_options"
type_synonym get_option = "get_options \<Rightarrow> get_options"
type_synonym list_option = "list_options \<Rightarrow> list_options"

definition apply_options :: "('o \<Rightarrow> 'o) list \<Rightarrow> 'o \<Rightarrow> 'o" where
  "apply_options options opts = foldl (\<lambda>opts o'. o' opts) opts options"

definition NewOptions :: "reg_option list \<Rightarrow> reg_options" where
  "NewOptions opts = apply_options opts \<lparr>ro_Context = Some Background, ro_Addrs = [], ro_Timeout = 0\<rparr>"

definition Addrs :: "string list \<Rightarrow> reg_option" where
  "Addrs addrs = (\<lambda>o'. o'\<lparr>ro_Addrs := addrs\<rparr>)"

definition Timeout :: "int \<Rightarrow> reg_option" where
  "Timeout t = (\<lambda>o'. o'\<lparr>ro_Timeout := t\<rparr>)"

definition RegisterTTL :: "int \<Rightarrow> register_option" where
  "RegisterTTL t = (\<lambda>o'. o'\<lparr>rgo_TTL := t\<rparr>)"

definition RegisterContext :: "gocontext \<Rightarrow> register_option" where
  "RegisterContext ctx = (\<lambda>o'. o'\<lparr>rgo_Context := Some ctx\<rparr>)"

definition DeregisterContext :: "gocontext \<Rightarrow> deregister_option" where
  "DeregisterContext ctx = (\<lambda>o'. o'\<lparr>dro_Context := Some ctx\<rparr>)"

definition GetContext :: "gocontext \<Rightarrow> get_option" where
  "GetContext ctx = (\<lambda>o'. o'\<lparr>gto_Context := Some ctx\<rparr>)"

definition ListContext :: "gocontext \<Rightarrow> list_option" where
  "ListContext ctx = (\<lambda>o'. o'\<lparr>lso_Context := Some ctx\<rparr>)"

definition Services :: "(string, xservice list) gomap \<Rightarrow> reg_option" where
  "Services s = (\<lambda>o'.
     let ctx = (case ro_Context o' of None \<Rightarrow> Background | Some ctx \<Rightarrow> ctx)
     in o'\<lparr>ro_Context := Some (WithServices ctx s)\<rparr>)"

subsection \<open>The registry\<close>

text \<open>\<open>xr_beats\<close> counts the goroutines that were started to run \<^verbatim>\<open>heartbeat\<close>.\<close>

record http_registry =
  xr_opts :: reg_options
  xr_servers :: "(string, xservice) gomap"
  xr_beats :: nat

record 'w registry_http =
  xh_get :: "string \<Rightarrow> 'w \<Rightarrow> (string + nat \<times> (string + string list)) \<times> 'w"
  xh_post :: "string \<Rightarrow> post_server_param \<Rightarrow> 'w \<Rightarrow> (string + nat) \<times> 'w"
  xh_delete :: "string \<Rightarrow> post_server_param \<Rightarrow> 'w \<Rightarrow> (string + nat) \<times> 'w"

definition xr_configure :: "http_registry \<Rightarrow> reg_option list \<Rightarrow> http_registry \<times> string option" where
  "xr_configure r options =
     (let r1 = r\<lparr>xr_opts := apply_options options (xr_opts r)\<rparr>
      in if length (ro_Addrs (xr_opts r1)) = 0 then (r1, Some ''init registry error: addrs is empty'')
         else (r1\<lparr>xr_beats := xr_beats r1 + 1\<rparr>, None))"

text \<open>\<^verbatim>\<open>NewRegistry\<close> drops the error of \<^verbatim>\<open>configure\<close>.\<close>

definition NewRegistry :: "reg_option list \<Rightarrow> http_registry" where
  "NewRegistry options =
     fst (xr_configure \<lparr>xr_opts = \<lparr>ro_Context = Some Background, ro_Addrs = [], ro_Timeout = 0\<rparr>, xr_servers = [], xr_beats = 0\<rparr> options)"

definition xr_String :: string where "xr_String = ''HttpRegistry''"

definition xr_Init :: "http_registry \<Rightarrow> reg_option list \<Rightarrow> http_registry \<times> string option" where
  "xr_Init r options = xr_configure r options"

definition xr_Options :: "http_registry \<Rightarrow> reg_options" where
  "xr_Options r = xr_opts r"

definition xr_getServers :: "'w registry_http \<Rightarrow> string \<Rightarrow> string \<Rightarrow> 'w \<Rightarrow> (string + string list) \<times> 'w" where
  "xr_getServers http serverAddr name w =
     (case xh_get http (serverAddr @ ''?service='' @ name) w of
        (Inl err, w') \<Rightarrow> (Inl err, w')
      | (Inr (code, body), w') \<Rightarrow> (if code \<noteq> 200 then Inl ''get got not 200 response'' else body, w'))"

text \<open>The loop of \<^verbatim>\<open>doHeartbeat\<close> over the services. The slice of nodes is made with the length of the list and
  then appended to.\<close>

fun xr_beat_loop ::
  "'w registry_http \<Rightarrow> string \<Rightarrow> (string, xservice) gomap \<Rightarrow> 'w \<Rightarrow> (string, xservice) gomap \<times> 'w" where
  "xr_beat_loop http serverAddr [] w = ([], w)"
| "xr_beat_loop http serverAddr ((name, service) # servers) w =
     (let (res, w1) = xr_getServers http serverAddr name w;
          service' = (case res of
                        Inl err \<Rightarrow> service
                      | Inr lst \<Rightarrow> service\<lparr>xs_Nodes := replicate (length lst) None @ map (\<lambda>addr. Some (node_at addr)) lst\<rparr>);
          (servers', w2) = xr_beat_loop http serverAddr servers w1
      in ((name, service') # servers', w2))"

definition xr_doHeartbeat :: "'w registry_http \<Rightarrow> http_registry \<Rightarrow> 'w \<Rightarrow> (http_registry \<times> 'w) option" where
  "xr_doHeartbeat http r w =
     (case ro_Addrs (xr_opts r) of
        [] \<Rightarrow> None
      | serverAddr # _ \<Rightarrow>
          let (servers, w') = xr_beat_loop http serverAddr (xr_servers r) w in Some (r\<lparr>xr_servers := servers\<rparr>, w'))"

text \<open>\<^verbatim>\<open>heartbeat\<close> for \<open>n\<close> ticks; \<^verbatim>\<open>NewTicker\<close> panics unless the interval is positive.\<close>

fun xr_ticks :: "'w registry_http \<Rightarrow> nat \<Rightarrow> http_registry \<Rightarrow> 'w \<Rightarrow> (http_registry \<times> 'w) option" where
  "xr_ticks http 0 r w = Some (r, w)"
| "xr_ticks http (Suc n) r w =
     (case xr_doHeartbeat http r w of None \<Rightarrow> None | Some (r', w') \<Rightarrow> xr_ticks http n r' w')"

definition xr_heartbeat :: "'w registry_http \<Rightarrow> nat \<Rightarrow> http_registry \<Rightarrow> 'w \<Rightarrow> (http_registry \<times> 'w) option" where
  "xr_heartbeat http n r w = (if ro_Timeout (xr_opts r) \<le> 0 then None else xr_ticks http n r w)"

definition xr_addServer :: "'w registry_http \<Rightarrow> string \<Rightarrow> string \<Rightarrow> string \<Rightarrow> 'w \<Rightarrow> string option \<times> 'w" where
  "xr_addServer http serverAddr name addr w =
     (case xh_post http serverAddr \<lparr>psp_Service = name, psp_Addr = addr\<rparr> w of
        (Inl err, w') \<Rightarrow> (Some err, w')
      | (Inr code, w') \<Rightarrow> (if code \<noteq> 200 then Some (''add server error status:'' @ strconv_Itoa code) else None, w'))"

definition xr_removeServer :: "'w registry_http \<Rightarrow> string \<Rightarrow> string \<Rightarrow> string \<Rightarrow> 'w \<Rightarrow> string option \<times> 'w" where
  "xr_removeServer http serverAddr name addr w =
     (case xh_delete http serverAddr \<lparr>psp_Service = name, psp_Addr = addr\<rparr> w of
        (Inl err, w') \<Rightarrow> (Some err, w')
      | (Inr code, w') \<Rightarrow> (if code \<noteq> 200 then Some (''remove server error status:'' @ strconv_Itoa code) else None, w'))"

text \<open>Index 0 of an empty list and the address of a \<^verbatim>\<open>nil\<close> node panic. The options are evaluated and dropped.\<close>

definition xr_Register ::
  "'w registry_http \<Rightarrow> http_registry \<Rightarrow> xservice \<Rightarrow> register_option list \<Rightarrow> 'w \<Rightarrow> (http_registry \<times> string option \<times> 'w) option" where
  "xr_Register http r service options w =
     (let opts = apply_options options \<lparr>rgo_Context = None, rgo_TTL = 0\<rparr>;
          r1 = r\<lparr>xr_servers := AList.update (xs_Name service) service (xr_servers r)\<rparr>
      in case xs_Nodes service of
           [] \<Rightarrow> Some (r1, Some ''register service error: nodes is empty'', w)
         | n # _ \<Rightarrow>
             (case (ro_Addrs (xr_opts r), n) of
                (serverAddr # _, Some nd) \<Rightarrow>
                  let (err, w') = xr_addServer http serverAddr (xs_Name service) (nd_Address nd) w in Some (r1, err, w')
              | _ \<Rightarrow> None))"

definition xr_Deregister ::
  "'w registry_http \<Rightarrow> http_registry \<Rightarrow> xservice \<Rightarrow> deregister_option list \<Rightarrow> 'w \<Rightarrow> (http_registry \<times> string option \<times> 'w) option" where
  "xr_Deregister http r service options w =
     (let opts = apply_options options \<lparr>dro_Context = None\<rparr>;
          r1 = r\<lparr>xr_servers := AList.delete (xs_Name service) (xr_servers r)\<rparr>
      in case (ro_Addrs (xr_opts r), xs_Nodes service) of
           (serverAddr # _, Some nd # _) \<Rightarrow>
             let (err, w') = xr_removeServer http serverAddr (xs_Name service) (nd_Address nd) w in Some (r1, err, w')
         | _ \<Rightarrow> None)"

definition xr_GetService ::
  "'w registry_http \<Rightarrow> http_registry \<Rightarrow> string \<Rightarrow> get_option list \<Rightarrow> 'w \<Rightarrow> (http_registry \<times> (string + xservice list) \<times> 'w) option" where
  "xr_GetService http r name options w =
     (let opts = apply_options options \<lparr>gto_Context = None\<rparr>
      in case map_of (xr_servers r) name of
           Some service \<Rightarrow> Some (r, Inr [service], w)
         | None \<Rightarrow>
             (case ro_Addrs (xr_opts r) of
                [] \<Rightarrow> None
              | serverAddr # _ \<Rightarrow>
                  (case xr_getServers http serverAddr name w of
                     (Inl err, w') \<Rightarrow> Some (r, Inl err, w')
                   | (Inr lst, w') \<Rightarrow>
                       let s = service_of name (map (\<lambda>addr. Some (node_at addr)) lst)
                       in Some (r\<lparr>xr_servers := AList.update name s (xr_servers r)\<rparr>, Inr [s], w'))))"

end
