(* ===== verification/Rpcx_Client.thy ===== *)
theory Rpcx_Client
  imports Rpcx_Registry Balancer Rpc_Client
begin

section \<open>The client of \<^verbatim>\<open>rpcx\<close> (\<^verbatim>\<open>rpcx/client.go\<close>) and the announcement of a server\<close>

text \<open>
  A client asks its registry for the nodes of a service, lets a balancer choose one and connects to it. Sending
  and receiving are those of \<^verbatim>\<open>rpc\<close> on the codec of \<^verbatim>\<open>rpcx\<close>, which reports the error of \<^verbatim>\<open>Flush\<close>. \<^verbatim>\<open>net.Dial\<close> is
  an argument; \<^const>\<open>None\<close> as a result is a panic.
\<close>

subsection \<open>Options and connecting\<close>

definition AddressSpliter :: string where "AddressSpliter = ''::''"

record client_options =
  xo_name :: string
  xo_mode :: int
  xo_registry :: "http_registry option"

definition ClientRegistry :: "http_registry \<Rightarrow> client_options \<Rightarrow> client_options" where
  "ClientRegistry r = (\<lambda>o'. o'\<lparr>xo_registry := Some r\<rparr>)"

definition ClientName :: "string \<Rightarrow> client_options \<Rightarrow> client_options" where
  "ClientName name = (\<lambda>o'. o'\<lparr>xo_name := name\<rparr>)"

definition ClientBalancer :: "int \<Rightarrow> client_options \<Rightarrow> client_options" where
  "ClientBalancer mode = (\<lambda>o'. o'\<lparr>xo_mode := mode\<rparr>)"

record ('v, 'r) x_client =
  xc_opts :: client_options
  xc_balancer :: "'r balancer"
  xc_client :: "'v client"

text \<open>Without the separator the slice \<^verbatim>\<open>addr[:-1]\<close> panics.\<close>

definition parseAddress :: "string \<Rightarrow> (string \<times> string) option" where
  "parseAddress addr =
     (let index = strings_Index addr AddressSpliter
      in if index < 0 then None else Some (take (nat index) addr, drop (nat index + length AddressSpliter) addr))"

text \<open>The loop over the nodes reads a field of each; a \<^verbatim>\<open>nil\<close> node panics.\<close>

fun node_addresses :: "node option list \<Rightarrow> string list \<Rightarrow> string list option" where
  "node_addresses [] servers = Some servers"
| "node_addresses (None # nodes) servers = None"
| "node_addresses (Some n # nodes) servers = node_addresses nodes (servers @ [nd_Address n])"

definition getServerAddress ::
  "(int \<Rightarrow> 'r \<Rightarrow> int \<times> 'r) \<Rightarrow> 'r balancer \<Rightarrow> xservice \<Rightarrow> ('r balancer \<times> (string + string \<times> string)) option" where
  "getServerAddress intn balancer service =
     (if length (xs_Nodes service) = 0 then Some (balancer, Inl ''server do not have nodes'')
      else case node_addresses (xs_Nodes service) [] of
             None \<Rightarrow> None
           | Some servers \<Rightarrow>
               (case bal_Get intn (bal_Reset balancer servers) of
                  None \<Rightarrow> None
                | Some (b, addr) \<Rightarrow> map_option (\<lambda>na. (b, Inr na)) (parseAddress addr)))"

text \<open>\<^verbatim>\<open>NewClient\<close>: the client or an error, the registry afterwards, and the world. \<open>seed\<close> is the state of the random
  number generator and \<open>heap\<close> the memory for the client's calls.\<close>

definition x_NewClient ::
  "'w registry_http \<Rightarrow> (int \<Rightarrow> 'r \<Rightarrow> int \<times> 'r) \<Rightarrow> 'r \<Rightarrow> (string \<Rightarrow> string \<Rightarrow> string + 'v conn) \<Rightarrow> (nat \<Rightarrow> 'v rpc_call) \<Rightarrow>
   (client_options \<Rightarrow> client_options) list \<Rightarrow> 'w \<Rightarrow> ((string + ('v, 'r) x_client) \<times> http_registry option \<times> 'w) option" where
  "x_NewClient http intn seed dial heap options w =
     (let opts = apply_options options \<lparr>xo_name = '''', xo_mode = 0, xo_registry = None\<rparr>
      in case xo_registry opts of
           None \<Rightarrow> Some (Inl ''should set registry'', None, w)
         | Some r \<Rightarrow>
             (case xr_GetService http r (xo_name opts) [] w of
                None \<Rightarrow> None
              | Some (r', Inl err, w') \<Rightarrow> Some (Inl err, Some r', w')
              | Some (r', Inr [], w') \<Rightarrow> Some (Inl ''server service is missing'', Some r', w')
              | Some (r', Inr (service # _), w') \<Rightarrow>
                  (case NewBalancer seed (xo_mode opts) of
                     None \<Rightarrow> None
                   | Some balancer \<Rightarrow>
                       (case getServerAddress intn balancer service of
                          None \<Rightarrow> None
                        | Some (b, Inl err) \<Rightarrow> Some (Inl err, Some r', w')
                        | Some (b, Inr (network, address)) \<Rightarrow>
                            (case dial network address of
                               Inl err \<Rightarrow> Some (Inl err, Some r', w')
                             | Inr conn \<Rightarrow>
                                 Some (Inr \<lparr>xc_opts = opts\<lparr>xo_registry := Some r'\<rparr>, xc_balancer = b,
                                            xc_client = new_client (NewGobCodec conn) heap\<rparr>, Some r', w'))))))"

subsection \<open>Calls\<close>

definition x_registerCall :: "nat \<Rightarrow> 'v client \<Rightarrow> 'v client" where
  "x_registerCall = registerCall"

definition x_removeCall :: "uint64 \<Rightarrow> 'v client \<Rightarrow> nat option \<times> 'v client" where
  "x_removeCall = removeCall"

definition x_terminateCalls :: "string option \<Rightarrow> 'v client \<Rightarrow> 'v client" where
  "x_terminateCalls = terminateCalls"

definition x_IsAvailable :: "'v client \<Rightarrow> bool" where
  "x_IsAvailable = Client_IsAvailable"

definition x_Close :: "'v client \<Rightarrow> string option \<times> 'v client" where
  "x_Close cl =
     (if cl_closing cl then (Some ErrShutdown, cl)
      else (None, cl\<lparr>cl_closing := True, cl_codec := codec_Close (cl_codec cl)\<rparr>))"

definition x_send :: "'v client_cfg \<Rightarrow> nat \<Rightarrow> 'v client \<Rightarrow> 'v client \<times> string option" where
  "x_send cf a cl =
     (let cl1 = x_registerCall a cl;
          seq = ca_Seq (cl_heap cl1 a);
          req = \<lparr>h_ServiceMethod = ca_ServiceMethod (cl_heap cl1 a), h_Seq = seq, h_Error = '''', h_Timeout = 0\<rparr>;
          (err, c) = x_WriteRequest (cc_encodable cf) req (Val (ca_Args (cl_heap cl1 a))) (cl_codec cl1);
          cl2 = cl1\<lparr>cl_codec := c\<rparr>
      in case err of
           None \<Rightarrow> (cl2, None)
         | Some e \<Rightarrow>
             (case x_removeCall seq cl2 of
                (None, cl3) \<Rightarrow> (cl3, Some e)
              | (Some a', cl3) \<Rightarrow> (Call_done a' (upd_call a' (\<lambda>c. c\<lparr>ca_Error := Some e\<rparr>) cl3), Some e)))"

definition x_Go :: "'v client_cfg \<Rightarrow> string \<Rightarrow> 'v \<Rightarrow> nat option \<Rightarrow> 'v client \<Rightarrow> (nat \<times> 'v client) option" where
  "x_Go cf serviceMethod args done cl =
     (let cap = (case done of None \<Rightarrow> 1 | Some n \<Rightarrow> n)
      in if cap = 0 then None
         else
           let a = cl_next cl;
               call = \<lparr>ca_Seq = 0, ca_ServiceMethod = serviceMethod, ca_Args = args, ca_Reply = None, ca_Error = None,
                       ca_chan = 0, ca_cap = cap\<rparr>
           in Some (a, fst (x_send cf a (cl\<lparr>cl_next := Suc a, cl_heap := (cl_heap cl)(a := call)\<rparr>))))"

text \<open>The two branches of the \<^verbatim>\<open>select\<close> of \<^verbatim>\<open>Call\<close>.\<close>

definition x_Call_ctx_done :: "string \<Rightarrow> nat \<Rightarrow> 'v client \<Rightarrow> string \<times> 'v client" where
  "x_Call_ctx_done ctx_err a cl = (''rpc client: call failed: '' @ ctx_err, snd (x_removeCall (ca_Seq (cl_heap cl a)) cl))"

definition x_Call_completed :: "nat \<Rightarrow> 'v client \<Rightarrow> (string option \<times> 'v client) option" where
  "x_Call_completed a cl = Call_completed a cl"

definition x_receive_round :: "'v client_cfg \<Rightarrow> 'v client \<Rightarrow> loop_ctl \<times> 'v client" where
  "x_receive_round cf cl =
     (case x_ReadResponseHeader (cl_codec cl) of
        (Inl err, c) \<Rightarrow> (Break (Some err), cl\<lparr>cl_codec := c\<rparr>)
      | (Inr resp, c) \<Rightarrow>
          (case x_removeCall (h_Seq resp) (cl\<lparr>cl_codec := c\<rparr>) of
             (None, cl1) \<Rightarrow> (let (err, c1) = dec_nil (cl_codec cl1) in (Break err, cl1\<lparr>cl_codec := c1\<rparr>))
           | (Some a, cl1) \<Rightarrow>
               if h_Error resp \<noteq> '''' then
                 (let cl2 = upd_call a (\<lambda>c. c\<lparr>ca_Error := Some (h_Error resp)\<rparr>) cl1;
                      (err, c1) = dec_nil (cl_codec cl2)
                  in (Break err, Call_done a (cl2\<lparr>cl_codec := c1\<rparr>)))
               else
                 (case x_ReadResponseBody (cc_fits cf) (cl_codec cl1) of
                    (Inl err, c1) \<Rightarrow>
                      (Break (Some err),
                       Call_done a (upd_call a (\<lambda>c. c\<lparr>ca_Error := Some (''read body error '' @ err)\<rparr>) (cl1\<lparr>cl_codec := c1\<rparr>)))
                  | (Inr v, c1) \<Rightarrow>
                      (Continue, Call_done a (upd_call a (\<lambda>c. c\<lparr>ca_Reply := Some v\<rparr>) (cl1\<lparr>cl_codec := c1\<rparr>))))))"

lemma x_receive_round_eq: "x_receive_round = receive_round"
  unfolding fun_eq_iff x_receive_round_def receive_round_def x_ReadResponseHeader_def gob_ReadHeader_def x_ReadResponseBody_def
    gob_ReadBody_def x_removeCall_def by simp

function x_receive :: "'v client_cfg \<Rightarrow> 'v client \<Rightarrow> 'v client" where
  "x_receive cf cl =
     (case x_receive_round cf cl of
        (Continue, cl') \<Rightarrow> if cl_blocked cl' then cl' else x_receive cf cl'
      | (Break err, cl') \<Rightarrow> if cl_blocked cl' then cl' else x_terminateCalls err cl')"
  by pat_completeness auto
termination
  by (relation "measure (\<lambda>(cf, cl). length (cn_in (cd_conn (cl_codec cl))))") (auto simp: x_receive_round_eq receive_round_shorter)

declare x_receive.simps [simp del]

lemma x_receive_eq: "x_receive cf cl = receive cf cl"
  by (induction cf cl rule: receive.induct)
    (subst x_receive.simps, subst receive.simps, auto simp: x_receive_round_eq x_terminateCalls_def split: prod.splits loop_ctl.splits)

subsection \<open>The announcement of a server (\<^verbatim>\<open>rpcx/server.go\<close>)\<close>

record server_options =
  so_name :: string
  so_registry :: "http_registry option"

definition ServerRegistry :: "http_registry \<Rightarrow> server_options \<Rightarrow> server_options" where
  "ServerRegistry r = (\<lambda>o'. o'\<lparr>so_registry := Some r\<rparr>)"

definition ServerName :: "string \<Rightarrow> server_options \<Rightarrow> server_options" where
  "ServerName name = (\<lambda>o'. o'\<lparr>so_name := name\<rparr>)"

text \<open>The options of \<^verbatim>\<open>NewServer\<close>; the table of services is modelled with the request loop.\<close>

definition x_NewServer :: "(server_options \<Rightarrow> server_options) list \<Rightarrow> server_options" where
  "x_NewServer options = apply_options options \<lparr>so_name = '''', so_registry = None\<rparr>"

text \<open>The first part of \<^verbatim>\<open>Accept\<close>, for a listener with this network and address; an error is only logged.\<close>

definition x_announce :: "'w registry_http \<Rightarrow> server_options \<Rightarrow> string \<Rightarrow> string \<Rightarrow> 'w \<Rightarrow> (server_options \<times> 'w) option" where
  "x_announce http opts network addr w =
     (case so_registry opts of
        None \<Rightarrow> Some (opts, w)
      | Some r \<Rightarrow>
          map_option (\<lambda>(r', err, w'). (opts\<lparr>so_registry := Some r'\<rparr>, w'))
            (xr_Register http r (service_of (so_name opts) [Some (node_at (network @ AddressSpliter @ addr))]) [] w))"

end
