(* ===== verification/Rpcx_System.thy ===== *)
theory Rpcx_System
  imports Rpcx_Client Rpcx_Server Rpc_System Rpc_Dial
begin

section \<open>The parts of \<^verbatim>\<open>rpcx\<close> together\<close>

text \<open>
  Servers announce themselves to the registry server, clients find them there, connect and call. The HTTP
  client that the registry uses reaches the registry server of \<open>Registry_Server\<close>.
\<close>

subsection \<open>Accepting connections (\<^verbatim>\<open>rpcx/server.go\<close>)\<close>

definition x_ServeConn :: "'v server \<Rightarrow> 'v conn \<Rightarrow> 'v serving" where
  "x_ServeConn srv conn = serve_init srv (NewGobCodec conn)"

text \<open>\<^verbatim>\<open>Accept\<close>: the announcement, then the connections up to the first error of the listener.\<close>

definition x_Accept ::
  "'w registry_http \<Rightarrow> server_options \<Rightarrow> 'v server \<Rightarrow> string \<Rightarrow> string \<Rightarrow> (string + 'v conn) list \<Rightarrow> 'w \<Rightarrow> (server_options \<times> 'v serving list \<times> 'w) option" where
  "x_Accept http opts srv network addr accepted w =
     map_option (\<lambda>(opts', w'). (opts', map (x_ServeConn srv) (Server_Accept accepted), w')) (x_announce http opts network addr w)"

text \<open>The request \<^verbatim>\<open>CONNECT\<close>; there are no options on the connection, so no timeout.\<close>

definition x_ServeHTTP :: "'v server \<Rightarrow> string \<Rightarrow> string + 'v conn \<Rightarrow> 'v http_served" where
  "x_ServeHTTP srv meth hijacked =
     (if meth \<noteq> ''CONNECT'' then
        Refused 405 [(''Content-Type'', ''text/plain; charset=utf-8'')] (''405 must CONNECT'' @ [CHR 0x0A])
      else case hijacked of
             Inl err \<Rightarrow> Dropped
           | Inr conn \<Rightarrow> Hijacked (''HTTP/1.0 200 Connected to RPC'' @ [CHR 0x0A, CHR 0x0A]) (Some (x_ServeConn srv conn, 0)))"

subsection \<open>Facts about connecting\<close>

lemma parseAddress_join: "CHR '':'' \<notin> set network \<Longrightarrow> parseAddress (network @ AddressSpliter @ addr) = Some (network, addr)"
  using Index_append [of "CHR '':''" network "'':''" addr] by (simp add: parseAddress_def AddressSpliter_def)

lemma node_addresses_at: "node_addresses (map (\<lambda>a. Some (node_at a)) lst) servers = Some (servers @ lst)"
  by (induction lst arbitrary: servers) (auto simp: node_at_def)

lemma node_addresses_nil: "None \<in> set nodes \<Longrightarrow> node_addresses nodes servers = None"
  by (induction nodes servers rule: node_addresses.induct) auto

text \<open>A heartbeat gives every service a new list of nodes, or leaves it when the request fails.\<close>

definition beat_service :: "string + string list \<Rightarrow> xservice \<Rightarrow> xservice" where
  "beat_service res service =
     (case res of
        Inl err \<Rightarrow> service
      | Inr lst \<Rightarrow> service\<lparr>xs_Nodes := replicate (length lst) None @ map (\<lambda>addr. Some (node_at addr)) lst\<rparr>)"

lemma beat_loop_lookup:
  "map_of servers name = Some s \<Longrightarrow>
   \<exists>w1. map_of (fst (xr_beat_loop http base servers w)) name = Some (beat_service (fst (xr_getServers http base name w1)) s)"
proof (induction http base servers w rule: xr_beat_loop.induct)
  case (2 http base name' service servers w)
  obtain res w1 where g: "xr_getServers http base name' w = (res, w1)" by (cases "xr_getServers http base name' w")
  obtain servers' w2 where b: "xr_beat_loop http base servers w1 = (servers', w2)" by (cases "xr_beat_loop http base servers w1")
  have eq: "fst (xr_beat_loop http base ((name', service) # servers) w) = (name', beat_service res service) # servers'"
    by (simp add: g b beat_service_def)
  show ?case
  proof (cases "name' = name")
    case True
    then show ?thesis using "2.prems" g unfolding eq by (intro exI [of _ w]) simp
  next
    case False
    then show ?thesis using "2.prems" "2.IH" [OF g [symmetric] refl] b unfolding eq by simp
  qed
qed simp

lemma getServerAddress_nil: "None \<in> set (xs_Nodes s) \<Longrightarrow> getServerAddress intn b s = None"
  by (auto simp: getServerAddress_def node_addresses_nil)

text \<open>A balancer of either kind, just made, chooses one of the servers it is given.\<close>

lemma NewBalancer_chooses:
  assumes "\<And>n r. 0 < n \<Longrightarrow> 0 \<le> fst (intn n r) \<and> fst (intn n r) < n" and "servers \<noteq> []"
    and "mode \<in> {bal_RandomSelect, bal_RoundRobinSelect}"
  shows "\<exists>b b' a. NewBalancer seed mode = Some b \<and> bal_Get intn (bal_Reset b servers) = Some (b', a) \<and> a \<in> set servers"
proof (cases "mode = bal_RandomSelect")
  case True
  have "\<exists>b' a. bal_Get intn (RandomB ((NewRandomBalancer seed)\<lparr>rb_servers := servers\<rparr>)) = Some (b', a) \<and> a \<in> set servers"
    by (rule bal_Get_servers [OF _ assms(2)]) (rule assms(1))
  then show ?thesis using True by (simp add: NewBalancer_def)
next
  case False
  have "go_index servers 0 = Some (hd servers)" using assms(2) by (simp add: go_index_def hd_conv_nth)
  then show ?thesis using False assms(2,3)
    by (auto simp: NewBalancer_def NewRoundRobinBalancer_def rr_Get_def go_rem_def)
qed

subsection \<open>The registry server as the registry's HTTP client sees it\<close>

text \<open>What \<^verbatim>\<open>URL.Query().Get\<close> makes of a query value: up to the next parameter or the fragment, \<^verbatim>\<open>+\<close> as a space and
  escapes decoded; a malformed value is dropped.\<close>

definition query_value :: "string \<Rightarrow> string" where
  "query_value s =
     (case path_unescape (map (\<lambda>c. if c = CHR ''+'' then CHR '' '' else c) (takeWhile (\<lambda>c. c \<noteq> CHR ''&'' \<and> c \<noteq> CHR ''#'') s)) of
        None \<Rightarrow> '''' | Some v \<Rightarrow> v)"

lemma query_value_plain:
  assumes "list_all unreserved s"
  shows "query_value s = s"
proof -
  have u: "c \<noteq> CHR ''&'' \<and> c \<noteq> CHR ''#'' \<and> c \<noteq> CHR ''+'' \<and> c \<noteq> CHR ''%''" if "c \<in> set s" for c
    using assms that by (auto simp: list_all_iff unreserved_def Let_def)
  then have t: "takeWhile (\<lambda>c. c \<noteq> CHR ''&'' \<and> c \<noteq> CHR ''#'') s = s" by (auto simp: takeWhile_eq_all_conv)
  have m: "map (\<lambda>c. if c = CHR ''+'' then CHR '' '' else c) s = s" using u by (simp add: map_idI)
  have "path_unescape s = Some s" using u unescape_plain [of s "[]"] by auto
  then show ?thesis unfolding query_value_def t m by simp
qed

definition hs_http :: "string \<Rightarrow> int \<Rightarrow> http_registry_server registry_http" where
  "hs_http base now =
     \<lparr>xh_get = (\<lambda>url r. let (r', rs) = hs_ServeHTTP r now ''GET'' (query_value (drop (length (base @ ''?service='')) url)) ReadError
                       in (Inr (hr_code rs, case hr_json rs of None \<Rightarrow> Inl ''EOF'' | Some l \<Rightarrow> Inr l), r')),
      xh_post = (\<lambda>url p r. let (r', rs) = hs_ServeHTTP r now ''POST'' '''' (Param p) in (Inr (hr_code rs), r')),
      xh_delete = (\<lambda>url p r. let (r', rs) = hs_ServeHTTP r now ''DELETE'' '''' (Param p) in (Inr (hr_code rs), r'))\<rparr>"

definition registry_client :: "string \<Rightarrow> int \<Rightarrow> http_registry" where
  "registry_client base timeout = NewRegistry [Addrs [base], Timeout timeout]"

lemma registry_client_fields: "ro_Addrs (xr_opts (registry_client base t)) = [base]" "xr_servers (registry_client base t) = []"
  by (simp_all add: registry_client_def NewRegistry_def xr_configure_def apply_options_def Addrs_def Timeout_def Let_def)

text \<open>Looking up a service that the registry has no copy of.\<close>

lemma GetService_live:
  assumes "sorted (map fst reqs @ [now])" and "list_all unreserved name"
  shows "\<exists>lst r' w'. xr_GetService (hs_http base now) (registry_client base t) name [] (hs_run (NewHttpRegistryServer timeout) reqs) =
      Some (r', Inr [service_of name (map (\<lambda>a. Some (node_at a)) lst)], w') \<and> sorted_wrt (<) lst \<and>
    set lst = {a. \<exists>t. hs_added Map.empty reqs (name, a) = Some t \<and> lease_alive timeout now t} \<and>
    w' = hs_run (NewHttpRegistryServer timeout) (reqs @ [(now, ''GET'', name, ReadError)])"
proof -
  let ?w = "hs_run (NewHttpRegistryServer timeout) reqs"
  obtain lst where l: "snd (hs_ServeHTTP ?w now ''GET'' name ReadError) =
      \<lparr>hr_code = 200, hr_header = [(''Content-Type'', ''application/json'')], hr_json = Some lst\<rparr>" "sorted_wrt (<) lst"
    "set lst = {a. \<exists>t. hs_added Map.empty reqs (name, a) = Some t \<and> lease_alive timeout now t}"
    using registry_server_live [OF assms(1)] by blast
  then have "xr_getServers (hs_http base now) base name ?w = (Inr lst, fst (hs_ServeHTTP ?w now ''GET'' name ReadError))"
    by (cases "hs_ServeHTTP ?w now ''GET'' name ReadError") (simp add: xr_getServers_def hs_http_def query_value_plain [OF assms(2)])
  moreover have "fst (hs_ServeHTTP ?w now ''GET'' name ReadError) = hs_run (NewHttpRegistryServer timeout) (reqs @ [(now, ''GET'', name, ReadError)])"
    by (simp add: hs_run_def)
  ultimately show ?thesis using l(2,3) by (simp add: xr_GetService_def registry_client_fields Let_def) blast
qed

text \<open>Announcing a server is one registration at the registry server.\<close>

lemma announce_posts:
  "\<exists>opts. x_announce (hs_http base t) (x_NewServer [ServerName name, ServerRegistry (registry_client base t0)]) network addr (hs_run w reqs) =
     Some (opts, hs_run w (reqs @ [(t, ''POST'', '''', Param \<lparr>psp_Service = name, psp_Addr = network @ AddressSpliter @ addr\<rparr>)]))"
  by (simp add: x_announce_def x_NewServer_def apply_options_def ServerName_def ServerRegistry_def xr_Register_def service_of_def
      registry_client_fields node_at_def xr_addServer_def hs_http_def hs_ServeHTTP_def hs_run_def Let_def)

lemma getServerAddress_chosen:
  assumes "\<And>n r. 0 < n \<Longrightarrow> 0 \<le> fst (intn n r) \<and> fst (intn n r) < n" and "mode \<in> {bal_RandomSelect, bal_RoundRobinSelect}"
    and "lst \<noteq> []" and "\<And>a. a \<in> set lst \<Longrightarrow> \<exists>n d. CHR '':'' \<notin> set n \<and> a = n @ AddressSpliter @ d"
  shows "\<exists>b b' n d. NewBalancer seed mode = Some b \<and> CHR '':'' \<notin> set n \<and> n @ AddressSpliter @ d \<in> set lst \<and>
    getServerAddress intn b (service_of name (map (\<lambda>a. Some (node_at a)) lst)) = Some (b', Inr (n, d))"
proof -
  obtain b b' a where b: "NewBalancer seed mode = Some b" "bal_Get intn (bal_Reset b lst) = Some (b', a)" "a \<in> set lst"
    using NewBalancer_chooses [where intn = intn, OF _ assms(3,2)] assms(1) by blast
  obtain n d where n: "CHR '':'' \<notin> set n" "a = n @ AddressSpliter @ d" using assms(4) [OF b(3)] by blast
  show ?thesis
    using b n(1) assms(3) parseAddress_join [OF n(1), of d]
    by (auto simp: getServerAddress_def service_of_def node_addresses_at n(2) [symmetric] intro!: exI [of _ n] exI [of _ d])
qed

subsection \<open>Properties\<close>

text \<open>C27: a client finds the servers that have announced themselves. Whatever the registry server has handled before,
  a server announces itself at time \<open>t\<close>, and later a client with an empty registry of its own asks for the service (a
  name that needs no escaping, addresses of the form that announcing gives them). If nodes of the service
  are alive then, the client dials one of them, with network and address as they were announced, and returns
  the client on that connection or the error of \<^verbatim>\<open>Dial\<close>; otherwise it returns the error that there are no nodes.\<close>

theorem announced_server_found:
  assumes "\<forall>n r. 0 < n \<longrightarrow> 0 \<le> fst (intn n r) \<and> fst (intn n r) < n" and "mode \<in> {bal_RandomSelect, bal_RoundRobinSelect}"
    and "list_all unreserved name" and "sorted (map fst reqs @ [t, now])"
    and reqs': "reqs' = reqs @ [(t, ''POST'', '''', Param \<lparr>psp_Service = name, psp_Addr = network @ AddressSpliter @ addr\<rparr>)]"
    and live: "live = {a. \<exists>t. hs_added Map.empty reqs' (name, a) = Some t \<and> lease_alive timeout now t}"
    and "\<forall>a \<in> live. \<exists>n d. CHR '':'' \<notin> set n \<and> a = n @ AddressSpliter @ d"
  shows "\<exists>opts w res r' w'.
    x_announce (hs_http base t) (x_NewServer [ServerName name, ServerRegistry (registry_client base ta)]) network addr
      (hs_run (NewHttpRegistryServer timeout) reqs) = Some (opts, w) \<and>
    x_NewClient (hs_http base now) intn seed dial heap
      [ClientName name, ClientRegistry (registry_client base tb), ClientBalancer mode] w = Some (res, r', w') \<and>
    (if live = {} then res = Inl ''server do not have nodes''
     else \<exists>n d. CHR '':'' \<notin> set n \<and> n @ AddressSpliter @ d \<in> live \<and>
       (case dial n d of Inl err \<Rightarrow> res = Inl err
        | Inr conn \<Rightarrow> \<exists>x. res = Inr x \<and> xc_client x = new_client (NewGobCodec conn) heap))"
proof -
  obtain opts where an: "x_announce (hs_http base t) (x_NewServer [ServerName name, ServerRegistry (registry_client base ta)]) network addr
      (hs_run (NewHttpRegistryServer timeout) reqs) = Some (opts, hs_run (NewHttpRegistryServer timeout) reqs')"
    using announce_posts reqs' by blast
  have "sorted (map fst reqs' @ [now])" using assms(4) by (simp add: reqs')
  from GetService_live [OF this assms(3)] obtain lst r' w' where g:
    "xr_GetService (hs_http base now) (registry_client base tb) name [] (hs_run (NewHttpRegistryServer timeout) reqs') =
      Some (r', Inr [service_of name (map (\<lambda>a. Some (node_at a)) lst)], w')" "set lst = live"
    unfolding live by blast
  note opt = x_NewClient_def apply_options_def ClientName_def ClientRegistry_def ClientBalancer_def Let_def
  show ?thesis
  proof (cases "lst = []")
    case True
    have "\<exists>b. NewBalancer seed mode = Some b"
      using assms(2) by (cases "mode = bal_RandomSelect") (auto simp: NewBalancer_def)
    then obtain b where "NewBalancer seed mode = Some b" by blast
    then show ?thesis
      using an g True by (simp add: opt getServerAddress_def service_of_def)
  next
    case False
    obtain b b' n d where c: "NewBalancer seed mode = Some b" "CHR '':'' \<notin> set n" "n @ AddressSpliter @ d \<in> live"
      "getServerAddress intn b (service_of name (map (\<lambda>a. Some (node_at a)) lst)) = Some (b', Inr (n, d))"
      using getServerAddress_chosen [where intn = intn, OF _ assms(2) False] assms(1,7) g(2) by metis
    let ?opts = "\<lparr>xo_name = name, xo_mode = mode, xo_registry = Some r'\<rparr>"
    let ?res = "case dial n d of Inl err \<Rightarrow> Inl err
      | Inr conn \<Rightarrow> Inr \<lparr>xc_opts = ?opts, xc_balancer = b', xc_client = new_client (NewGobCodec conn) heap\<rparr>"
    have nc: "x_NewClient (hs_http base now) intn seed dial heap
        [ClientName name, ClientRegistry (registry_client base tb), ClientBalancer mode] (hs_run (NewHttpRegistryServer timeout) reqs') =
        Some (?res, Some r', w')"
      by (cases "dial n d") (simp_all add: opt g(1) c(1,4))
    moreover have "case dial n d of Inl err \<Rightarrow> ?res = Inl err
        | Inr conn \<Rightarrow> \<exists>x. ?res = Inr x \<and> xc_client x = new_client (NewGobCodec conn) heap" by (cases "dial n d") simp_all
    moreover have "live \<noteq> {}" using c(3) by blast
    ultimately show ?thesis using an c(2,3) by (simp only: if_False) blast
  qed
qed

text \<open>C35: the registry's heartbeat breaks the services it refreshes. When the server answers with a list that is not
  empty, the service's new list of nodes starts with that many \<^verbatim>\<open>nil\<close> pointers: from the first heartbeat on,
  making a client for the service panics, whatever the balancer.\<close>

theorem heartbeat_breaks_clients:
  assumes "ro_Addrs (xr_opts r) = base # rest" and "map_of (xr_servers r) name = Some s"
    and "\<And>w. fst (xh_get http (base @ ''?service='' @ name) w) = Inr (200, Inr lst)" and "lst \<noteq> []"
  shows "\<exists>r' w' s'. xr_doHeartbeat http r w = Some (r', w') \<and> map_of (xr_servers r') name = Some s' \<and>
    xs_Nodes s' = replicate (length lst) None @ map (\<lambda>a. Some (node_at a)) lst \<and>
    x_NewClient http intn seed dial heap [ClientName name, ClientRegistry r', ClientBalancer mode] w' = None"
proof -
  obtain servers w' where b: "xr_beat_loop http base (xr_servers r) w = (servers, w')"
    by (cases "xr_beat_loop http base (xr_servers r) w")
  have get: "fst (xr_getServers http base name w1) = Inr lst" for w1
    using assms(3) [of w1] by (cases "xh_get http (base @ ''?service='' @ name) w1") (auto simp: xr_getServers_def)
  let ?s = "beat_service (Inr lst) s"
  have s': "map_of servers name = Some ?s"
    using beat_loop_lookup [OF assms(2), of http base w] b get by auto
  have "None \<in> set (xs_Nodes ?s)" using assms(4) by (simp add: beat_service_def)
  then have "getServerAddress intn b ?s = None" for b :: "'c balancer" by (rule getServerAddress_nil)
  then show ?thesis
    using assms(1) b s'
    by (simp add: xr_doHeartbeat_def x_NewClient_def apply_options_def ClientName_def ClientRegistry_def ClientBalancer_def
        xr_GetService_def Let_def beat_service_def split: option.splits)
qed

theorem announced_server_found_witness:
  "\<exists>opts w x r' w'.
    x_announce (hs_http ''http://r'' 1) (x_NewServer [ServerName ''Foo'', ServerRegistry (registry_client ''http://r'' 60)]) ''tcp'' ''[::]:9999''
      (hs_run (NewHttpRegistryServer 300) []) = Some (opts, w) \<and>
    x_NewClient (hs_http ''http://r'' 2) (\<lambda>n r. (0, r)) () (\<lambda>n d. if (n, d) = (''tcp'', ''[::]:9999'') then Inr (conn_of []) else Inl ''refused'') (\<lambda>_. no_call)
      [ClientName ''Foo'', ClientRegistry (registry_client ''http://r'' 60), ClientBalancer bal_RandomSelect] w = Some (Inr x, r', w')"
proof -
  let ?a = "''tcp'' @ AddressSpliter @ ''[::]:9999''" and ?intn = "\<lambda>n r :: unit. (0 :: int, r)"
  let ?dial = "\<lambda>n d. if (n, d) = (''tcp'', ''[::]:9999'') then Inr (conn_of []) else Inl ''refused'' :: string + int conn"
  let ?reqs' = "[] @ [(1, ''POST'', '''', Param \<lparr>psp_Service = ''Foo'', psp_Addr = ?a\<rparr>)]"
  have i: "\<forall>n r. 0 < n \<longrightarrow> 0 \<le> fst (?intn n r) \<and> fst (?intn n r) < n" by simp
  have u: "list_all unreserved ''Foo''" by (simp add: unreserved_def Let_def)
  have m: "bal_RandomSelect \<in> {bal_RandomSelect, bal_RoundRobinSelect}" and so: "sorted (map fst [] @ [1, 2 :: int])" by simp_all
  have live: "{?a} = {a. \<exists>t. hs_added Map.empty ?reqs' (''Foo'', a) = Some t \<and> lease_alive 300 2 t}"
    by (auto simp: hs_added_def lease_alive_def)
  have f: "\<forall>a \<in> {?a}. \<exists>n d. CHR '':'' \<notin> set n \<and> a = n @ AddressSpliter @ d"
    by (rule ballI, rule exI [of _ "''tcp''"], rule exI [of _ "''[::]:9999''"]) simp
  have nd: "n = ''tcp'' \<and> d = ''[::]:9999''" if "n @ AddressSpliter @ d \<in> {?a}" "CHR '':'' \<notin> set n" for n d
    using parseAddress_join [OF that(2), of d] parseAddress_join [of "''tcp''" "''[::]:9999''"] that(1) by simp
  note r = announced_server_found [where intn = ?intn and dial = ?dial and heap = "\<lambda>_. no_call" and seed = "()" and base = "''http://r''"
      and ta = 60 and tb = 60, OF i m u so refl live f]
  obtain opts w res r' w' n d where
    an: "x_announce (hs_http ''http://r'' 1) (x_NewServer [ServerName ''Foo'', ServerRegistry (registry_client ''http://r'' 60)]) ''tcp'' ''[::]:9999''
      (hs_run (NewHttpRegistryServer 300) []) = Some (opts, w)"
    and nc: "x_NewClient (hs_http ''http://r'' 2) ?intn () ?dial (\<lambda>_. no_call)
      [ClientName ''Foo'', ClientRegistry (registry_client ''http://r'' 60), ClientBalancer bal_RandomSelect] w = Some (res, r', w')"
    and c: "CHR '':'' \<notin> set n" "n @ AddressSpliter @ d \<in> {?a}" "case ?dial n d of Inl err \<Rightarrow> res = Inl err
      | Inr conn \<Rightarrow> \<exists>x. res = Inr x \<and> xc_client x = new_client (NewGobCodec conn) (\<lambda>_. no_call)"
    using r unfolding if_not_P [OF insert_not_empty] by (elim exE conjE) (rule that, assumption+)
  have "?dial n d = Inr (conn_of [])" using nd [OF c(2,1)] by simp
  then have "\<exists>x. res = Inr x" using c(3) by (simp only: sum.case) blast
  then show ?thesis using an nc by blast
qed

text \<open>A registry server that always knows one node.\<close>

definition one_node_http :: "unit registry_http" where
  "one_node_http = \<lparr>xh_get = (\<lambda>url w. (Inr (200, Inr [''tcp::a'']), w)), xh_post = (\<lambda>url p w. (Inr 200, w)), xh_delete = (\<lambda>url p w. (Inr 200, w))\<rparr>"

theorem heartbeat_breaks_clients_witness:
  "\<exists>r'. xr_doHeartbeat one_node_http ((registry_client ''http://r'' 60)\<lparr>xr_servers := [(''Foo'', service_of ''Foo'' [Some (node_at ''tcp::a'')])]\<rparr>) () =
       Some (r', ()) \<and>
     x_NewClient one_node_http (\<lambda>n r. (0, r)) () (\<lambda>n d. Inr (conn_of [])) (\<lambda>_. no_call)
       [ClientName ''Foo'', ClientRegistry r', ClientBalancer bal_RandomSelect] () = None"
proof -
  let ?r = "(registry_client ''http://r'' 60)\<lparr>xr_servers := [(''Foo'', service_of ''Foo'' [Some (node_at ''tcp::a'')])]\<rparr>"
  have "ro_Addrs (xr_opts ?r) = ''http://r'' # []" "map_of (xr_servers ?r) ''Foo'' = Some (service_of ''Foo'' [Some (node_at ''tcp::a'')])"
    by (simp_all add: registry_client_fields)
  moreover have "fst (xh_get one_node_http (''http://r'' @ ''?service='' @ ''Foo'') w) = Inr (200, Inr [''tcp::a''])" for w
    by (simp add: one_node_http_def)
  ultimately show ?thesis
    using heartbeat_breaks_clients [of ?r "''http://r''" "[]" "''Foo''" _ one_node_http "[''tcp::a'']" "()" "\<lambda>n r. (0, r)" "()"
        "\<lambda>n d. Inr (conn_of [])" "\<lambda>_. no_call" bal_RandomSelect] by simp blast
qed

subsection \<open>Calls of \<^verbatim>\<open>rpcx\<close> end to end\<close>

fun x_go_all :: "'v client_cfg \<Rightarrow> (string \<times> 'v) list \<Rightarrow> 'v client \<Rightarrow> 'v client option" where
  "x_go_all cf [] cl = Some cl"
| "x_go_all cf ((sm, v) # calls) cl =
     (case x_Go cf sm v None cl of None \<Rightarrow> None | Some (_, cl') \<Rightarrow> x_go_all cf calls cl')"

lemma x_Go_eq:
  assumes "wire_ok (cl_codec cl)" "cc_encodable cf v"
  shows "x_Go cf sm v d cl = Client_Go cf sm v d cl"
    "Client_Go cf sm v d cl = Some (a, cl') \<Longrightarrow> wire_ok (cl_codec cl')"
proof -
  have e: "can_encode (cc_encodable cf) (Val v)" using assms(2) by (simp add: can_encode_def)
  show "x_Go cf sm v d cl = Client_Go cf sm v d cl"
    by (simp add: x_Go_def Client_Go_def x_send_def Client_send_def x_registerCall_def registerCall_def upd_call_def
        x_Write_ok [OF assms(1) e] gob_Write_ok [OF assms(1) e] Let_def)
  show "Client_Go cf sm v d cl = Some (a, cl') \<Longrightarrow> wire_ok (cl_codec cl')"
    using assms(1)
    by (auto simp: Client_Go_def Client_send_def registerCall_def upd_call_def gob_Write_ok [OF assms(1) e] Let_def split: if_splits)
qed

lemma x_go_all_eq:
  assumes "wire_ok (cl_codec cl)" "\<And>sm v. (sm, v) \<in> set calls \<Longrightarrow> cc_encodable cf v"
  shows "x_go_all cf calls cl = go_all cf calls cl"
  using assms
proof (induction cf calls cl rule: go_all.induct)
  case (2 cf sm v calls cl)
  have enc: "cc_encodable cf v" by (rule "2.prems"(2) [of sm]) simp
  show ?case
  proof (cases "Client_Go cf sm v None cl")
    case (Some acl)
    obtain a cl' where acl: "acl = (a, cl')" by (cases acl)
    have "wire_ok (cl_codec cl')" using x_Go_eq(2) [OF "2.prems"(1) enc] Some acl by blast
    then have "x_go_all cf calls cl' = go_all cf calls cl'"
      using "2.prems"(2) Some acl by (intro "2.IH") auto
    then show ?thesis using Some acl x_Go_eq(1) [OF "2.prems"(1) enc, of sm None] by simp
  qed (simp add: x_Go_eq(1) [OF "2.prems"(1) enc])
qed simp

definition x_serves_to :: "'v server_cfg \<Rightarrow> 'v server \<Rightarrow> 'v client \<Rightarrow> 'v serving \<Rightarrow> bool" where
  "x_serves_to cf srv cl s \<longleftrightarrow>
     (x_serve_step cf)\<^sup>*\<^sup>* (serve_init srv (NewGobCodec (conn_of (cn_out (cd_conn (cl_codec cl)))))) s \<and>
     (\<forall>s'. \<not> x_serve_step cf s s')"

lemma x_serves_to_eq:
  assumes t: "cf_timeout cf = 0" and ok: "\<And>c. c \<in> set calls \<Longrightarrow> callable ccf cf srv c"
    and out: "cn_out (cd_conn (cl_codec cl)) = calls_stream (requests_from q calls)"
  shows "x_serves_to cf srv cl s = serves_to cf srv cl s"
proof -
  let ?c = "NewGobCodec (conn_of (cn_out (cd_conn (cl_codec cl))))"
  have inv: "serve_inv cf srv (requests_from q calls) (serve_init srv ?c)"
    unfolding out by (rule serve_inv_init) (simp_all add: requests_good(1) [OF ok])
  have "plain_header h" if hv: "(h, v) \<in> set (requests_from q calls)" for h v
  proof -
    obtain i where "i < length calls" "(h, v) = requests_from q calls ! i"
      using hv by (metis in_set_conv_nth length_requests_from)
    then show ?thesis by (auto simp: requests_from_nth plain_header_def call_header_def)
  qed
  then have p: "plain_inv (serve_init srv ?c)"
    by (intro plain_inv_init [of _ "requests_from q calls"]) (simp_all add: out NewGobCodec_def conn_of_def)
  have steps: "(x_serve_step cf)\<^sup>*\<^sup>* (serve_init srv ?c) s = (serve_step cf)\<^sup>*\<^sup>* (serve_init srv ?c) s"
    by (rule x_steps_eq [OF t inv p])
  have "x_serve_step cf s s' = serve_step cf s s'" if r: "(serve_step cf)\<^sup>*\<^sup>* (serve_init srv ?c) s" for s'
    using x_step_eq(1) [OF t serve_inv_steps [OF t inv r] x_steps_plain [OF t inv p r]] .
  then show ?thesis using steps by (auto simp: x_serves_to_def serves_to_def)
qed

text \<open>C26: the same for \<^verbatim>\<open>rpcx\<close>: calls that a client of \<^verbatim>\<open>rpcx\<close> starts on a new connection, to methods that a server
  of \<^verbatim>\<open>rpcx\<close> has, are served to an end in every interleaving, and afterwards every call holds what its
  own method returns for its own argument.\<close>

theorem rpcx_end_to_end:
  assumes "cf_timeout cf = 0" and "length calls < 2 ^ 63" and "\<And>c. c \<in> set calls \<Longrightarrow> callable ccf cf srv c"
  shows "\<exists>cl. x_go_all ccf calls (new_client (NewGobCodec (conn_of [])) heap) = Some cl \<and> (\<exists>s. x_serves_to cf srv cl s) \<and>
    (\<forall>s. x_serves_to cf srv cl s \<longrightarrow>
       (let cl' = x_receive ccf (arrive cl (cn_out (cd_conn (sg_codec s))))
        in cl_pending cl' = [] \<and>
           (\<forall>i < length calls. \<exists>c. cl_heap cl' i = c \<and> ca_chan c = 1 \<and> ca_Error c = None \<and>
              ca_Reply c = rpc_result srv (fst (calls ! i)) (snd (calls ! i)))))"
proof -
  let ?cl = "new_client (NewGobCodec (conn_of [])) heap"
  have "x_go_all ccf calls ?cl = go_all ccf calls ?cl"
    by (rule x_go_all_eq) (use assms(3) in \<open>auto simp: new_client_def callable_def\<close>)
  moreover obtain cl where cl: "go_all ccf calls ?cl = Some cl" "cn_out (cd_conn (cl_codec cl)) = calls_stream (requests_from 1 calls)"
    "\<exists>s. serves_to cf srv cl s"
    "\<forall>s. serves_to cf srv cl s \<longrightarrow>
       (let cl' = receive ccf (arrive cl (cn_out (cd_conn (sg_codec s))))
        in cl_pending cl' = [] \<and>
           (\<forall>i < length calls. \<exists>c. cl_heap cl' i = c \<and> ca_chan c = 1 \<and> ca_Error c = None \<and>
              ca_Reply c = rpc_result srv (fst (calls ! i)) (snd (calls ! i))))"
    using calls_complete [OF assms(1,2), of ccf srv heap] assms(3) by blast
  moreover have "x_serves_to cf srv cl = serves_to cf srv cl"
    by (rule ext, rule x_serves_to_eq [OF assms(1) _ cl(2)]) (rule assms(3))
  ultimately show ?thesis by (simp add: x_receive_eq)
qed

theorem rpcx_end_to_end_witness:
  "\<exists>cl s. x_go_all any_cfg [(''Foo.Sum'', 3), (''Foo.Sum'', 5)] (new_client (NewGobCodec (conn_of [])) (\<lambda>_. no_call)) = Some cl \<and>
     x_serves_to foo_cfg [''Foo'' \<mapsto> foo_service] cl s \<and>
     (let cl' = x_receive any_cfg (arrive cl (cn_out (cd_conn (sg_codec s))))
      in ca_Reply (cl_heap cl' 0) = Some 6 \<and> ca_Reply (cl_heap cl' 1) = Some 10)"
proof -
  let ?srv = "[''Foo'' \<mapsto> foo_service]" and ?calls = "[(''Foo.Sum'', 3), (''Foo.Sum'', 5 :: int)]"
  have r: "rpc_result ?srv ''Foo.Sum'' v = Some (v + v)" for v by (simp add: rpc_result_def foo_found)
  have ok: "callable any_cfg foo_cfg ?srv c" if "c \<in> set ?calls" for c
    using that by (auto simp: callable_def any_cfg_def foo_good r)
  have "cf_timeout foo_cfg = 0" "length ?calls < 2 ^ 63" by (simp_all add: foo_cfg_def)
  from rpcx_end_to_end [OF this ok, of "\<lambda>_. no_call"] obtain cl s
    where cl: "x_go_all any_cfg ?calls (new_client (NewGobCodec (conn_of [])) (\<lambda>_. no_call)) = Some cl" "x_serves_to foo_cfg ?srv cl s"
      "\<And>i. i < length ?calls \<Longrightarrow> ca_Reply (cl_heap (x_receive any_cfg (arrive cl (cn_out (cd_conn (sg_codec s))))) i) =
         rpc_result ?srv (fst (?calls ! i)) (snd (?calls ! i))"
    unfolding Let_def by blast
  show ?thesis using cl(1,2) cl(3) [of 0] cl(3) [of 1] by (auto simp: r Let_def)
qed

subsection \<open>Calls on a broken connection\<close>

text \<open>A call whose request cannot be sent. The connection takes no more bytes, which only \<^verbatim>\<open>Flush\<close> notices. The
  client of \<^verbatim>\<open>rpcx\<close> completes the call with the error and forgets it. The client of \<^verbatim>\<open>rpc\<close> drops the error: the call
  stays pending, without a signal, until the goroutine that receives ends.\<close>

theorem broken_connection_calls:
  assumes "cc_encodable cf v" and "\<not> cn_closed (cd_conn (cl_codec cl))"
    and "cn_broken (cd_conn (cl_codec cl))" and "cd_buf (cl_codec cl) = []"
  shows "(\<exists>cl'. x_Go cf sm v None cl = Some (cl_next cl, cl') \<and> ca_Error (cl_heap cl' (cl_next cl)) = Some ''broken pipe'' \<and>
      ca_chan (cl_heap cl' (cl_next cl)) = 1 \<and> map_of (cl_pending cl') (cl_seq cl) = None) \<and>
    (\<exists>cl'. Client_Go cf sm v None cl = Some (cl_next cl, cl') \<and> ca_Error (cl_heap cl' (cl_next cl)) = None \<and>
      ca_chan (cl_heap cl' (cl_next cl)) = 0 \<and> map_of (cl_pending cl') (cl_seq cl) = Some (cl_next cl))"
  using assms
  by (simp add: x_Go_def Client_Go_def x_send_def Client_send_def x_registerCall_def registerCall_def upd_call_def x_WriteRequest_def
      gob_Write_def enc_item_def buf_Flush_def x_removeCall_def removeCall_def update_conv Call_done_def map_of_delete Let_def)

theorem broken_connection_calls_witness:
  "let cl = new_client (NewGobCodec ((conn_of [])\<lparr>cn_broken := True\<rparr>)) (\<lambda>_. no_call)
   in (\<exists>cl'. x_Go any_cfg ''Foo.Sum'' 1 None cl = Some (0, cl') \<and> ca_Error (cl_heap cl' 0) = Some ''broken pipe'')"
proof -
  let ?cl = "new_client (NewGobCodec ((conn_of [])\<lparr>cn_broken := True\<rparr>)) (\<lambda>_. no_call)"
  have "cc_encodable any_cfg 1" "\<not> cn_closed (cd_conn (cl_codec ?cl))"
    "cn_broken (cd_conn (cl_codec ?cl))" "cd_buf (cl_codec ?cl) = []" and n: "cl_next ?cl = 0"
    by (simp_all add: new_client_def any_cfg_def NewGobCodec_def conn_of_def)
  from broken_connection_calls [OF this(1-4), of "''Foo.Sum''"] show ?thesis unfolding n Let_def by blast
qed

end
