(* ===== verification/Rpc_Link.thy ===== *)
theory Rpc_Link
  imports Rpc_System
begin

section \<open>A connection with both its ends at work\<close>

text \<open>
  The client of \<^verbatim>\<open>rpc/client.go\<close> and the server of \<^verbatim>\<open>rpc/server.go\<close> on one connection, running at the same time: calls
  are started while others are being served and while responses arrive. What one end writes is at once in the input of
  the other; the reader may be as late as it likes, which is all that a network with delays could add. A
  read waits until a whole message is there (where headers and bodies have been mixed up or lost, a single value can be left over, on which the code
  fails at once; here it is left unread). The steps are the critical sections of the two components, among them the timeouts
  of handlers; the runs in which none fires are those of the server \<^const>\<open>untimed\<close>. The goroutines that send calls go through the pieces
  of \<^const>\<open>send_piece\<close>; \<open>link_Go\<close> puts the pieces together for a goroutine that is alone in \<^verbatim>\<open>send\<close>, and the facts
  about it are carried over to the pieces in \<open>Rpc_Sends\<close>. The server has read the options here; what it may lose while it does is in
  \<open>Rpc_Calls\<close>.
\<close>

subsection \<open>Steps\<close>

record 'v link =
  lk_client :: "'v client"
  lk_serving :: "'v serving"

abbreviation cl_out :: "'v client \<Rightarrow> 'v item list" where "cl_out cl \<equiv> cn_out (cd_conn (cl_codec cl))"
abbreviation cl_in :: "'v client \<Rightarrow> 'v item list" where "cl_in cl \<equiv> cn_in (cd_conn (cl_codec cl))"
abbreviation sg_out :: "'v serving \<Rightarrow> 'v item list" where "sg_out s \<equiv> cn_out (cd_conn (sg_codec s))"
abbreviation sg_in :: "'v serving \<Rightarrow> 'v item list" where "sg_in s \<equiv> cn_in (cd_conn (sg_codec s))"

text \<open>An end has moved on; what it has written arrives at the other.\<close>

definition client_moves :: "'v link \<Rightarrow> 'v client \<Rightarrow> 'v link" where
  "client_moves lk cl =
     (let s = lk_serving lk; its = drop (length (cl_out (lk_client lk))) (cl_out cl)
      in \<lparr>lk_client = cl, lk_serving = s\<lparr>sg_codec := popped (sg_codec s) (sg_in s @ its)\<rparr>\<rparr>)"

definition server_moves :: "'v link \<Rightarrow> 'v serving \<Rightarrow> 'v link" where
  "server_moves lk s =
     (let cl = lk_client lk; its = drop (length (sg_out (lk_serving lk))) (sg_out s)
      in \<lparr>lk_client = cl\<lparr>cl_codec := popped (cl_codec cl) (cl_in cl @ its)\<rparr>, lk_serving = s\<rparr>)"

text \<open>The first half of \<^verbatim>\<open>Client.Call\<close>, which starts the call: the registration and the pieces of \<^verbatim>\<open>send\<close>; what all of them
  do together when nobody else sends; and the second half, when the call has been completed.\<close>

definition link_register :: "string \<Rightarrow> 'v \<Rightarrow> 'v link \<Rightarrow> (nat \<times> 'v link) option" where
  "link_register sm v lk = map_option (\<lambda>(i, cl). (i, client_moves lk cl)) (Go_register sm v (Some 1) (lk_client lk))"

definition link_send :: "'v client_cfg \<Rightarrow> nat \<Rightarrow> sending \<Rightarrow> 'v link \<Rightarrow> sending option \<times> 'v link" where
  "link_send ccf i p lk = (let (p', cl) = send_piece ccf i p (lk_client lk) in (p', client_moves lk cl))"

definition link_Go :: "'v client_cfg \<Rightarrow> string \<Rightarrow> 'v \<Rightarrow> 'v link \<Rightarrow> (nat \<times> 'v link) option" where
  "link_Go ccf sm v lk = map_option (\<lambda>(i, cl). (i, client_moves lk cl)) (Client_Go ccf sm v (Some 1) (lk_client lk))"

definition link_completed :: "nat \<Rightarrow> 'v link \<Rightarrow> ((string + 'v option) \<times> 'v link) option" where
  "link_completed i lk =
     map_option (\<lambda>(err, cl). (case err of None \<Rightarrow> Inr (ca_Reply (cl_heap cl i)) | Some e \<Rightarrow> Inl e, client_moves lk cl))
       (Call_completed i (lk_client lk))"

text \<open>A round of the client's loop, with what \<^verbatim>\<open>receive\<close> does when the loop ends.\<close>

definition client_round :: "'v client_cfg \<Rightarrow> 'v client \<Rightarrow> 'v client" where
  "client_round ccf cl =
     (case receive_round ccf cl of (Continue, cl') \<Rightarrow> cl' | (Break err, cl') \<Rightarrow> terminateCalls err cl')"

text \<open>The timeout of the \<open>i\<close>-th request that is being handled.\<close>

definition link_timeout :: "'v server_cfg \<Rightarrow> nat \<Rightarrow> 'v link \<Rightarrow> 'v link" where
  "link_timeout cf i lk = server_moves lk (handleRequest cf (lk_serving lk) i (Inl (timeout_error cf)))"

inductive link_step :: "'v client_cfg \<Rightarrow> 'v server_cfg \<Rightarrow> 'v link \<Rightarrow> 'v link \<Rightarrow> bool" for ccf cf where
  serve: "sg_loop (lk_serving lk) \<Longrightarrow> \<not> sg_panic (lk_serving lk) \<Longrightarrow> 2 \<le> length (sg_in (lk_serving lk)) \<Longrightarrow>
    link_step ccf cf lk (server_moves lk (serve_read cf (lk_serving lk)))"
| finish: "\<not> sg_panic (lk_serving lk) \<Longrightarrow> i < length (sg_running (lk_serving lk)) \<Longrightarrow>
    rm_Func (mt_method (rq_mtype (sg_running (lk_serving lk) ! i))) (rq_argv (sg_running (lk_serving lk) ! i)) = Some r \<Longrightarrow>
    link_step ccf cf lk (server_moves lk (handleRequest cf (lk_serving lk) i r))"
| timeout: "\<not> sg_panic (lk_serving lk) \<Longrightarrow> i < length (sg_running (lk_serving lk)) \<Longrightarrow> cf_timeout cf \<noteq> 0 \<Longrightarrow>
    link_step ccf cf lk (link_timeout cf i lk)"
| receive: "\<not> cl_shutdown (lk_client lk) \<Longrightarrow> \<not> cl_blocked (lk_client lk) \<Longrightarrow> 2 \<le> length (cl_in (lk_client lk)) \<Longrightarrow>
    link_step ccf cf lk (client_moves lk (client_round ccf (lk_client lk)))"

inductive_cases link_stepE: "link_step ccf cf lk lk'"

text \<open>The steps of the server are those of \<^const>\<open>serve_step\<close>.\<close>

lemma link_step_serves:
  assumes "link_step ccf cf lk lk'"
  shows "lk_serving lk' = lk_serving lk \<or> serve_step cf (lk_serving lk) (lk_serving lk') \<or>
    (\<exists>its. lk_serving lk' = (lk_serving lk)\<lparr>sg_codec := popped (sg_codec (lk_serving lk)) (sg_in (lk_serving lk) @ its)\<rparr>)"
  using assms
  by (cases rule: link_step.cases)
    (auto simp: server_moves_def client_moves_def link_timeout_def Let_def intro: serve_step.read serve_step.finish serve_step.timeout)

subsection \<open>The invariant\<close>

lemma stream_inj: "stream ps = stream qs \<longleftrightarrow> ps = qs"
proof (induction ps arbitrary: qs)
  case Nil
  then show ?case by (cases qs) (auto simp: stream_def pair_items_def)
next
  case (Cons p ps)
  obtain h b where p: "p = (h, b)" by (cases p)
  show ?case
  proof (cases qs)
    case (Cons q qs')
    then show ?thesis using Cons.IH [of qs'] by (cases q) (auto simp: p)
  qed (simp add: p)
qed

lemma calls_stream_append [simp]: "calls_stream (ps @ qs) = calls_stream ps @ calls_stream qs"
  by (simp add: calls_stream_def)

text \<open>The calls \<open>log\<close> have been started on the connection, in this order. The responses \<open>dn\<close> have been read by the client and
  \<open>qs\<close> have not; the callers of \<open>taken\<close> have been told.\<close>

definition call_state :: "'v server \<Rightarrow> (string \<times> 'v) list \<Rightarrow> nat set \<Rightarrow> uint64 set \<Rightarrow> 'v client \<Rightarrow> nat \<Rightarrow> bool" where
  "call_state srv log taken dn cl i \<longleftrightarrow> ca_Error (cl_heap cl i) = None \<and>
     (if 1 + of_nat i \<in> dn
      then map_of (cl_pending cl) (1 + of_nat i) = None \<and> ca_chan (cl_heap cl i) = (if i \<in> taken then 0 else 1) \<and>
        ca_Reply (cl_heap cl i) = rpc_result srv (fst (log ! i)) (snd (log ! i))
      else map_of (cl_pending cl) (1 + of_nat i) = Some i \<and> i \<notin> taken)"

definition client_side :: "'v server \<Rightarrow> (string \<times> 'v) list \<Rightarrow> nat set \<Rightarrow> uint64 set \<Rightarrow> 'v client \<Rightarrow> bool" where
  "client_side srv log taken dn cl \<longleftrightarrow> client_inv cl \<and> numbered cl \<and> wire_ok (cl_codec cl) \<and> Client_IsAvailable cl \<and>
     cl_seq cl = 1 + of_nat (length log) \<and> cl_next cl = length log \<and>
     (\<forall>i < length log. call_state srv log taken dn cl i)"

definition link_inv :: "'v client_cfg \<Rightarrow> 'v server_cfg \<Rightarrow> 'v server \<Rightarrow> (string \<times> 'v) list \<Rightarrow> nat set \<Rightarrow> 'v link \<Rightarrow> bool" where
  "link_inv ccf cf srv log taken lk \<longleftrightarrow>
     length log < 2 ^ 63 \<and> taken \<subseteq> {0..<length log} \<and> (\<forall>c \<in> set log. callable ccf cf srv c) \<and>
     serve_inv cf srv (requests_from 1 log) (lk_serving lk) \<and> sg_loop (lk_serving lk) \<and>
     (\<exists>dn qs. sg_out (lk_serving lk) = calls_stream (dn @ qs) \<and> cl_in (lk_client lk) = calls_stream qs \<and>
        client_side srv log taken (h_Seq ` fst ` set dn) (lk_client lk))"

lemma link_invI:
  assumes "length log < 2 ^ 63" "taken \<subseteq> {0..<length log}" "\<forall>c \<in> set log. callable ccf cf srv c"
    "serve_inv cf srv (requests_from 1 log) (lk_serving lk)" "sg_loop (lk_serving lk)"
    "sg_out (lk_serving lk) = calls_stream (dn @ qs)" "cl_in (lk_client lk) = calls_stream qs"
    "client_side srv log taken (h_Seq ` fst ` set dn) (lk_client lk)"
  shows "link_inv ccf cf srv log taken lk"
  unfolding link_inv_def using assms by blast

lemma link_invE:
  assumes "link_inv ccf cf srv log taken lk"
  obtains dn qs where "length log < 2 ^ 63" "taken \<subseteq> {0..<length log}" "\<forall>c \<in> set log. callable ccf cf srv c"
    "serve_inv cf srv (requests_from 1 log) (lk_serving lk)" "sg_loop (lk_serving lk)"
    "sg_out (lk_serving lk) = calls_stream (dn @ qs)" "cl_in (lk_client lk) = calls_stream qs"
    "client_side srv log taken (h_Seq ` fst ` set dn) (lk_client lk)"
  using assms unfolding link_inv_def by blast

lemma distinct_subset: "mset xs \<subseteq># mset ys \<Longrightarrow> distinct ys \<Longrightarrow> distinct xs"
  by (metis distinct_append mset_append mset_eq_imp_distinct_iff mset_subset_eq_exists_conv ex_mset)

text \<open>What is on its way back are replies to the calls, each at most once.\<close>

lemma link_replies:
  assumes len: "length log < 2 ^ 63" and ok: "\<forall>c \<in> set log. callable ccf cf srv c"
    and inv: "serve_inv cf srv (requests_from 1 log) s" and out: "sg_out s = calls_stream ps"
  shows "distinct (map (h_Seq \<circ> fst) ps)"
    "(h, v) \<in> set ps \<Longrightarrow> \<exists>i < length log. h_Seq h = 1 + of_nat i \<and> h_Error h = '''' \<and>
       rpc_result srv (fst (log ! i)) (snd (log ! i)) = Some v \<and> cc_fits ccf v"
    "sg_running s = [] \<Longrightarrow> sg_in s = [] \<Longrightarrow> h_Seq ` fst ` set ps = (\<lambda>i. 1 + of_nat i) ` {0..<length log}"
proof -
  let ?reqs = "requests_from 1 log"
  have good: "x \<in> set ?reqs \<Longrightarrow> deserved srv x = map_prod id Val (reply_of srv x)" for x
    using requests_good(2) [of log ccf cf srv x 1] ok by blast
  obtain ps' rest where p: "sg_out s = stream ps'" "sg_in s = calls_stream rest"
    "mset ps' + mset (map deserved_req (sg_running s)) + mset (map (deserved srv) rest) = mset (map (deserved srv) ?reqs)"
    using inv by (auto simp: serve_inv_def)
  have ps': "ps' = map (map_prod id Val) ps"
    using out p(1) unfolding calls_stream_def map_prod_def id_apply by (simp only: stream_inj)
  have sub: "mset ps' \<subseteq># mset (map (deserved srv) ?reqs)"     unfolding p(3) [symmetric] add.assoc by (rule mset_subset_eq_add_left)
  have seqs: "map (h_Seq \<circ> fst) (map (deserved srv) ?reqs) = map (h_Seq \<circ> fst) ?reqs"
    unfolding map_map by (rule map_cong) (auto simp: good)
  have own: "map (h_Seq \<circ> fst) ps' = map (h_Seq \<circ> fst) ps" by (auto simp: ps')
  have "mset (map (h_Seq \<circ> fst) ps') \<subseteq># mset (map (h_Seq \<circ> fst) (map (deserved srv) ?reqs))"
    unfolding mset_map [of "h_Seq \<circ> fst"] by (rule image_mset_subseteq_mono [OF sub])
  then have "mset (map (h_Seq \<circ> fst) ps) \<subseteq># mset (map (h_Seq \<circ> fst) ?reqs)" unfolding own seqs .
  then show "distinct (map (h_Seq \<circ> fst) ps)" by (rule distinct_subset) (rule requests_from_distinct [OF len])
  show "\<exists>i < length log. h_Seq h = 1 + of_nat i \<and> h_Error h = '''' \<and>
       rpc_result srv (fst (log ! i)) (snd (log ! i)) = Some v \<and> cc_fits ccf v" if "(h, v) \<in> set ps"
  proof -
    have "(h, Val v) \<in># mset ps'" using that by (force simp: ps')
    then have "(h, Val v) \<in># mset (map (deserved srv) ?reqs)" using sub by (rule mset_subset_eqD [rotated])
    then obtain x where x: "x \<in> set ?reqs" "deserved srv x = (h, Val v)" by auto
    then have r: "reply_of srv x = (h, v)" using good by (cases "reply_of srv x") auto
    obtain i where i: "i < length log" "x = ?reqs ! i" using x(1) by (metis in_set_conv_nth length_requests_from)
    then have xi: "x = (call_header (fst (log ! i)) (1 + of_nat i), snd (log ! i))" by (simp add: requests_from_nth)
    have "callable ccf cf srv (fst (log ! i), snd (log ! i))" using ok i(1) by simp
    then show ?thesis using r i(1) by (auto simp: xi reply_of_def callable_def)
  qed
  show "h_Seq ` fst ` set ps = (\<lambda>i. 1 + of_nat i) ` {0..<length log}" if "sg_running s = []" "sg_in s = []"
  proof -
    have "rest = []" using p(2) that(2) by (cases rest) auto
    then have "mset ps' = mset (map (deserved srv) ?reqs)" using p(3) that(1) by simp
    then have "mset (map (h_Seq \<circ> fst) ps') = mset (map (h_Seq \<circ> fst) (map (deserved srv) ?reqs))" by (metis mset_map)
    then have "set (map (h_Seq \<circ> fst) ps) = set (map (h_Seq \<circ> fst) ?reqs)" unfolding own seqs by (rule mset_eq_setD)
    then show ?thesis unfolding requests_from_Seq by (simp add: image_image)
  qed
qed

subsection \<open>Starting calls\<close>

lemma requests_from_snoc:
  "requests_from q (log @ [(sm, v)]) = requests_from q log @ [(call_header sm (q + of_nat (length log)), v)]"
  by (induction q log rule: requests_from.induct) (auto simp: algebra_simps)

lemma serve_inv_more:
  assumes inv: "serve_inv cf srv reqs s" and on: "sg_loop s" and q: "good_call cf srv (h, v)"
  shows "serve_inv cf srv (reqs @ [(h, v)]) (s\<lparr>sg_codec := popped (sg_codec s) (sg_in s @ [Hdr h, Val v])\<rparr>)"
proof -
  obtain ps rest where i: "\<not> sg_panic s" "found (sg_server s) = found srv" "wire_ok (sg_codec s)"
    "\<forall>req \<in> set (sg_running s). \<exists>r. answers cf (rq_mtype req) (rq_argv req) r"
    "sg_out s = stream ps" "sg_in s = calls_stream rest" "\<forall>q \<in> set rest. good_call cf srv q"
    "mset ps + mset (map deserved_req (sg_running s)) + mset (map (deserved srv) rest) = mset (map (deserved srv) reqs)"
    using inv on by (auto simp: serve_inv_def)
  have ms: "mset ps + mset (map deserved_req (sg_running s)) + mset (map (deserved srv) (rest @ [(h, v)])) =
      mset (map (deserved srv) (reqs @ [(h, v)]))"
    using i(8) by (simp add: add.assoc [symmetric])
  show ?thesis
    by (rule serve_invI [where ps = ps and rest = "rest @ [(h, v)]"]) (use i on q ms in auto)
qed

lemma link_init:
  "link_inv ccf cf srv [] {} \<lparr>lk_client = new_client (NewGobCodec (conn_of [])) heap, lk_serving = serve_init srv (NewGobCodec (conn_of []))\<rparr>"
proof -
  let ?cl = "new_client (NewGobCodec (conn_of [])) heap" and ?s = "serve_init srv (NewGobCodec (conn_of []))"
  have "serve_inv cf srv [] ?s" by (rule serve_inv_init) simp_all
  moreover have "client_side srv [] {} {} ?cl"
    by (simp add: client_side_def new_client_def client_inv_def numbered_def Client_IsAvailable_def)
  ultimately show ?thesis
    by (auto simp: link_inv_def serve_init_def new_client_def intro!: exI [of _ "[]"])
qed

lemma Client_Go_Some1: "Client_Go cf sm v (Some 1) cl = Client_Go cf sm v None cl"
  by (simp add: Client_Go_def)

lemma of_nat_Suc_inj: "i < 2 ^ 63 \<Longrightarrow> j < 2 ^ 63 \<Longrightarrow> (1 :: uint64) + of_nat i = 1 + of_nat j \<Longrightarrow> i = j"
  by (rule of_nat_uint64_inj) simp_all

lemma client_side_Go:
  assumes cs: "client_side srv log taken dn cl" and len: "length log + 1 < 2 ^ 63" and enc: "cc_encodable ccf v"
    and t: "taken \<subseteq> {0..<length log}" and dn: "dn \<subseteq> (\<lambda>i. 1 + of_nat i) ` {0..<length log}"
  shows "\<exists>cl'. Client_Go ccf sm v (Some 1) cl = Some (length log, cl') \<and> client_side srv (log @ [(sm, v)]) taken dn cl' \<and>
    cl_codec cl' = sent (cl_codec cl) [Hdr (call_header sm (1 + of_nat (length log))), Val v]"
proof -
  have b: "2 + length log < 2 ^ 64" using len by simp
  then have un: "unat (cl_seq cl) = 1 + length log"
    using cs by (simp add: client_side_def unat_word_ariths(1) unat_of_nat del: power_numeral)
  then have pos: "0 < cl_seq cl" "unat (cl_seq cl) + 1 < 2 ^ 64" using b by (simp_all add: word_less_nat_alt)
  have q: "cl_seq cl = 1 + of_nat (length log)" "cl_next cl = length log" using cs by (simp_all add: client_side_def)
  obtain cl' where g: "Client_Go ccf sm v None cl = Some (cl_next cl, cl')" "client_inv cl'" "numbered cl'"
    "cl_next cl' = Suc (cl_next cl)" "cl_seq cl' = cl_seq cl + 1"
    "cl_codec cl' = sent (cl_codec cl) [Hdr (call_header sm (cl_seq cl)), Val v]"
    "map_of (cl_pending cl') = (map_of (cl_pending cl))(cl_seq cl \<mapsto> cl_next cl)"
    "ca_Error (cl_heap cl' (cl_next cl)) = None" "cl_closing cl' = cl_closing cl" "cl_shutdown cl' = cl_shutdown cl"
    "\<forall>a. a \<noteq> cl_next cl \<longrightarrow> cl_heap cl' a = cl_heap cl a"
    using Client_Go_ok [of cl ccf v sm] pos enc cs by (auto simp: client_side_def call_header_def)
  have seq: "1 + of_nat i \<noteq> (1 :: uint64) + of_nat (length log)" if "i < length log" for i
    using of_nat_Suc_inj [of i "length log"] that len by auto
  have "call_state srv (log @ [(sm, v)]) taken dn cl' i" if i: "i < length log + 1" for i
  proof (cases "i = length log")
    case True
    have "1 + of_nat i \<notin> dn" using dn seq True by fastforce
    then show ?thesis using g(7,8) t True by (auto simp: call_state_def q)
  next
    case False
    then have "i < length log" using i by simp
    then show ?thesis using cs seq [of i] g(7,11) False
      by (auto simp: client_side_def call_state_def q nth_append)
  qed
  then have "client_side srv (log @ [(sm, v)]) taken dn cl'"
    using cs g by (simp add: client_side_def q Client_IsAvailable_def)
  then show ?thesis using g(1,6) unfolding Client_Go_Some1 q by blast
qed

lemma link_Go_inv:
  assumes inv: "link_inv ccf cf srv log taken lk" and len: "length log + 1 < 2 ^ 63" and ok: "callable ccf cf srv (sm, v)"
  shows "\<exists>lk'. link_Go ccf sm v lk = Some (length log, lk') \<and> link_inv ccf cf srv (log @ [(sm, v)]) taken lk' \<and>
    length (sg_in (lk_serving lk')) = length (sg_in (lk_serving lk)) + 2 \<and> cl_in (lk_client lk') = cl_in (lk_client lk) \<and>
    sg_running (lk_serving lk') = sg_running (lk_serving lk) \<and>
    lk_serving lk' = (lk_serving lk)\<lparr>sg_codec := popped (sg_codec (lk_serving lk))
      (sg_in (lk_serving lk) @ [Hdr (call_header sm (1 + of_nat (length log))), Val v])\<rparr>"
proof -
  let ?s = "lk_serving lk" and ?cl = "lk_client lk"
  obtain dn qs where i: "length log < 2 ^ 63" "taken \<subseteq> {0..<length log}" "\<forall>c \<in> set log. callable ccf cf srv c"
    "serve_inv cf srv (requests_from 1 log) ?s" "sg_loop ?s" "sg_out ?s = calls_stream (dn @ qs)" "cl_in ?cl = calls_stream qs"
    "client_side srv log taken (h_Seq ` fst ` set dn) ?cl"
    using inv by (rule link_invE)
  have "h_Seq ` fst ` set dn \<subseteq> (\<lambda>i. 1 + of_nat i) ` {0..<length log}"
    using link_replies(2) [OF i(1,3,4,6)] by fastforce
  moreover have "cc_encodable ccf v" using ok by (simp add: callable_def)
  ultimately obtain cl where cl: "Client_Go ccf sm v (Some 1) ?cl = Some (length log, cl)"
    "client_side srv (log @ [(sm, v)]) taken (h_Seq ` fst ` set dn) cl"
    "cl_codec cl = sent (cl_codec ?cl) [Hdr (call_header sm (1 + of_nat (length log))), Val v]"
    using client_side_Go [OF i(8) len _ i(2)] by blast
  let ?s' = "?s\<lparr>sg_codec := popped (sg_codec ?s) (sg_in ?s @ [Hdr (call_header sm (1 + of_nat (length log))), Val v])\<rparr>"
  let ?lk = "\<lparr>lk_client = cl, lk_serving = ?s'\<rparr>"
  have "client_moves lk cl = ?lk" by (simp add: client_moves_def cl(3) Let_def)
  then have "link_Go ccf sm v lk = Some (length log, ?lk)" unfolding link_Go_def cl(1) by simp
  moreover have "serve_inv cf srv (requests_from 1 (log @ [(sm, v)])) ?s'"
    unfolding requests_from_snoc by (rule serve_inv_more [OF i(4,5)]) (rule callable_deserved(2) [OF ok])
  then have "link_inv ccf cf srv (log @ [(sm, v)]) taken ?lk"
    by (intro link_invI [where dn = dn and qs = qs]) (use i cl(2,3) len ok in auto)
  ultimately show ?thesis by (simp add: cl(3))
qed

subsection \<open>Steps keep the invariant\<close>

text \<open>Responses that arrive change nothing for the calls.\<close>

lemma client_side_codec:
  "wire_ok c = wire_ok (cl_codec cl) \<Longrightarrow> client_side srv log taken dn (cl\<lparr>cl_codec := c\<rparr>) = client_side srv log taken dn cl"
  by (auto simp: client_side_def client_inv_def numbered_def Client_IsAvailable_def call_state_def)

lemma link_inv_serve:
  assumes inv: "link_inv ccf cf srv log taken lk" and more: "2 \<le> length (sg_in (lk_serving lk))"
  shows "link_inv ccf cf srv log taken (server_moves lk (serve_read cf (lk_serving lk)))"
    "\<exists>s req. server_moves lk (serve_read cf (lk_serving lk)) = lk\<lparr>lk_serving := s\<rparr> \<and>
       sg_running s = sg_running (lk_serving lk) @ [req] \<and> length (sg_in (lk_serving lk)) = length (sg_in s) + 2"
proof -
  let ?s = "lk_serving lk" and ?cl = "lk_client lk"
  obtain dn qs where i: "length log < 2 ^ 63" "taken \<subseteq> {0..<length log}" "\<forall>c \<in> set log. callable ccf cf srv c"
    "serve_inv cf srv (requests_from 1 log) ?s" "sg_loop ?s" "sg_out ?s = calls_stream (dn @ qs)" "cl_in ?cl = calls_stream qs"
    "client_side srv log taken (h_Seq ` fst ` set dn) ?cl"
    using inv by (rule link_invE)
  have w: "wire_ok (sg_codec ?s)" and f: "found (sg_server ?s) = found srv" using i(4,5) by (auto simp: serve_inv_def)
  obtain rest where rest: "sg_in ?s = calls_stream rest" "\<forall>q \<in> set rest. good_call cf srv q"
    using i(4) by (auto simp: serve_inv_def)
  then obtain h v rest' where r: "rest = (h, v) # rest'" using more by (cases rest) auto
  then have "good_call cf (sg_server ?s) (h, v)" using rest(2) by (simp add: good_call_found [OF f])
  then obtain req where "readRequest cf (sg_server ?s) (sg_codec ?s) = (GoodReq req, popped (sg_codec ?s) (calls_stream rest'))"
    using readRequest_good [OF w, of h v "calls_stream rest'" cf "sg_server ?s"] rest(1) r by auto
  then have sr: "serve_read cf ?s = ?s\<lparr>sg_codec := popped (sg_codec ?s) (calls_stream rest'), sg_running := sg_running ?s @ [req]\<rparr>"
    by (simp add: serve_read_def)
  have mv: "server_moves lk (serve_read cf ?s) = lk\<lparr>lk_serving := serve_read cf ?s\<rparr>"
    by (simp add: server_moves_def sr popped_id Let_def)
  show "link_inv ccf cf srv log taken (server_moves lk (serve_read cf ?s))"
    unfolding mv by (rule link_invI [where dn = dn and qs = qs]) (use i serve_inv_read [OF i(4,5)] in \<open>auto simp: sr\<close>)
  show "\<exists>s req. server_moves lk (serve_read cf ?s) = lk\<lparr>lk_serving := s\<rparr> \<and>
       sg_running s = sg_running ?s @ [req] \<and> length (sg_in ?s) = length (sg_in s) + 2"
    unfolding mv by (rule exI [of _ "serve_read cf ?s"]) (auto simp: sr rest r)
qed

lemma link_inv_finish:
  assumes inv: "link_inv ccf cf srv log taken lk" and k: "k < length (sg_running (lk_serving lk))"
    and r: "rm_Func (mt_method (rq_mtype (sg_running (lk_serving lk) ! k))) (rq_argv (sg_running (lk_serving lk) ! k)) = Some r"
  shows "link_inv ccf cf srv log taken (server_moves lk (handleRequest cf (lk_serving lk) k r))"
    "\<exists>lk'. server_moves lk (handleRequest cf (lk_serving lk) k r) = lk' \<and>
       length (sg_running (lk_serving lk)) = length (sg_running (lk_serving lk')) + 1 \<and>
       sg_in (lk_serving lk') = sg_in (lk_serving lk) \<and> length (cl_in (lk_client lk')) = length (cl_in (lk_client lk)) + 2"
proof -
  let ?s = "lk_serving lk" and ?cl = "lk_client lk" and ?req = "sg_running (lk_serving lk) ! k"
  obtain dn qs where i: "length log < 2 ^ 63" "taken \<subseteq> {0..<length log}" "\<forall>c \<in> set log. callable ccf cf srv c"
    "serve_inv cf srv (requests_from 1 log) ?s" "sg_loop ?s" "sg_out ?s = calls_stream (dn @ qs)" "cl_in ?cl = calls_stream qs"
    "client_side srv log taken (h_Seq ` fst ` set dn) ?cl"
    using inv by (rule link_invE)
  have w: "wire_ok (sg_codec ?s)" using i(4,5) by (auto simp: serve_inv_def)
  have "answers cf (rq_mtype ?req) (rq_argv ?req) r"
    using serve_inv_answers [OF i(4) k] r by (auto simp: answers_def)
  then have c: "handleCallError cf (sg_codec ?s) (rq_header ?req) r = sent (sg_codec ?s) (pair_items (reply_pair (rq_header ?req) r))"
    by (intro handleCallError_ok [OF w]) (simp add: answers_def)
  have d: "deserved_req ?req = reply_pair (rq_header ?req) r" using r by (simp add: deserved_req_def method_reply_def)
  have "deserved_req ?req \<in># mset (map deserved_req (sg_running ?s))" using k by simp
  then have "deserved_req ?req \<in># mset (map (deserved srv) (requests_from 1 log))"
    using i(4) unfolding serve_inv_def by (metis union_iff)
  then obtain x where x: "x \<in> set (requests_from 1 log)" "deserved_req ?req = deserved srv x" by auto
  obtain h v where hv: "deserved_req ?req = (h, Val v)"
    using requests_good(2) [OF _ x(1), of ccf cf srv] i(3) x(2) by (cases "reply_of srv x") auto
  have out: "sg_out (handleRequest cf ?s k r) = calls_stream (dn @ (qs @ [(h, v)]))"
    using i(6) hv by (simp add: handleRequest_def c d pair_items_def Let_def)
  let ?cl' = "?cl\<lparr>cl_codec := popped (cl_codec ?cl) (cl_in ?cl @ [Hdr h, Val v])\<rparr>"
  have mv: "server_moves lk (handleRequest cf ?s k r) = \<lparr>lk_client = ?cl', lk_serving = handleRequest cf ?s k r\<rparr>"
    by (simp add: server_moves_def out i(6) Let_def)
  have "client_side srv log taken (h_Seq ` fst ` set dn) ?cl'" using i(8) by (simp add: client_side_codec)
  moreover have "sg_loop (handleRequest cf ?s k r)" using i(5) by (simp add: handleRequest_def Let_def)
  ultimately show "link_inv ccf cf srv log taken (server_moves lk (handleRequest cf ?s k r))"
    unfolding mv by (intro link_invI [where dn = dn and qs = "qs @ [(h, v)]"]) (use i serve_inv_finish [OF i(4) k r] out in auto)
  show "\<exists>lk'. server_moves lk (handleRequest cf ?s k r) = lk' \<and>
       length (sg_running ?s) = length (sg_running (lk_serving lk')) + 1 \<and>
       sg_in (lk_serving lk') = sg_in ?s \<and> length (cl_in (lk_client lk')) = length (cl_in ?cl) + 2"
    unfolding mv using k by (auto simp: handleRequest_def c Let_def)
qed

lemma client_moves_quiet:
  "cl_out cl = cl_out (lk_client lk) \<Longrightarrow> client_moves lk cl = lk\<lparr>lk_client := cl\<rparr>"
  by (simp add: client_moves_def popped_id Let_def)

lemma client_side_deliver:
  assumes cs: "client_side srv log taken dn cl" and len: "length log < 2 ^ 63" and k: "k < length log" "h_Seq h = 1 + of_nat k"
    and nd: "1 + of_nat k \<notin> dn" and v: "rpc_result srv (fst (log ! k)) (snd (log ! k)) = Some v"
  shows "map_of (cl_pending cl) (h_Seq h) = Some k" "client_side srv log taken (insert (1 + of_nat k) dn) (deliver cl h v its)"
proof -
  have ck: "call_state srv log taken dn cl k" using cs k(1) by (simp add: client_side_def)
  then show a: "map_of (cl_pending cl) (h_Seq h) = Some k" using nd k(2) by (simp add: call_state_def)
  have ci: "client_inv cl" using cs by (simp add: client_side_def)
  let ?cl = "deliver cl h v its"
  have f: "map_of (cl_pending ?cl) = (map_of (cl_pending cl))(1 + of_nat k := None)"
    "cl_heap ?cl = (cl_heap cl)(k := (cl_heap cl k)\<lparr>ca_Reply := Some v, ca_chan := 1\<rparr>)"
    "cl_codec ?cl = popped (cl_codec cl) its" "cl_seq ?cl = cl_seq cl" "cl_next ?cl = cl_next cl"
    "cl_closing ?cl = cl_closing cl" "cl_shutdown ?cl = cl_shutdown cl"
    using a k(2) by (simp_all add: deliver_def map_of_delete Let_def)
  have "numbered cl" using cs by (simp add: client_side_def)
  then have "numbered ?cl" by (simp add: numbered_def f)
  moreover have "call_state srv log taken (insert (1 + of_nat k) dn) ?cl i" if "i < length log" for i
  proof (cases "i = k")
    case True
    then show ?thesis using ck v nd by (auto simp: call_state_def f)
  next
    case False
    then have "1 + of_nat i \<noteq> (1 :: uint64) + of_nat k" using of_nat_Suc_inj [of i k] that k(1) len by auto
    then show ?thesis using cs that False by (auto simp: client_side_def call_state_def f)
  qed
  ultimately show "client_side srv log taken (insert (1 + of_nat k) dn) ?cl"
    using cs client_inv_deliver [OF ci a] by (simp add: client_side_def Client_IsAvailable_def f)
qed

lemma link_inv_receive:
  assumes inv: "link_inv ccf cf srv log taken lk" and more: "2 \<le> length (cl_in (lk_client lk))"
  shows "link_inv ccf cf srv log taken (client_moves lk (client_round ccf (lk_client lk)))"
    "\<exists>cl. client_moves lk (client_round ccf (lk_client lk)) = lk\<lparr>lk_client := cl\<rparr> \<and> length (cl_in (lk_client lk)) = length (cl_in cl) + 2"
proof -
  let ?s = "lk_serving lk" and ?cl = "lk_client lk"
  obtain dn qs where i: "length log < 2 ^ 63" "taken \<subseteq> {0..<length log}" "\<forall>c \<in> set log. callable ccf cf srv c"
    "serve_inv cf srv (requests_from 1 log) ?s" "sg_loop ?s" "sg_out ?s = calls_stream (dn @ qs)" "cl_in ?cl = calls_stream qs"
    "client_side srv log taken (h_Seq ` fst ` set dn) ?cl"
    using inv by (rule link_invE)
  obtain h v qs' where q: "qs = (h, v) # qs'" using more i(7) by (cases qs) auto
  note rep = link_replies [OF i(1,3,4,6)]
  obtain k where k: "k < length log" "h_Seq h = 1 + of_nat k" "h_Error h = ''''"
    "rpc_result srv (fst (log ! k)) (snd (log ! k)) = Some v" "cc_fits ccf v"
    using rep(2) [of h v] q by auto
  have nd: "1 + of_nat k \<notin> h_Seq ` fst ` set dn" using rep(1) by (auto simp: q k(2) [symmetric] image_image)
  note cs = client_side_deliver [OF i(8,1) k(1,2) nd k(4)]
  have ci: "client_inv ?cl" "\<not> cn_closed (cd_conn (cl_codec ?cl))" using i(8) by (simp_all add: client_side_def)
  let ?cl' = "deliver ?cl h v (calls_stream qs')"
  have "receive_round ccf ?cl = (Continue, ?cl')"
    by (rule receive_round_deliver [OF ci _ k(3,5) cs(1)]) (simp add: i(7) q)
  then have cr: "client_round ccf ?cl = ?cl'" by (simp add: client_round_def)
  have f: "cl_codec ?cl' = popped (cl_codec ?cl) (calls_stream qs')" by (simp add: deliver_def Let_def)
  then have mv: "client_moves lk (client_round ccf ?cl) = lk\<lparr>lk_client := ?cl'\<rparr>"
    unfolding cr by (intro client_moves_quiet) simp
  have "client_side srv log taken (h_Seq ` fst ` set (dn @ [(h, v)])) ?cl'" using cs(2) k(2) by simp
  then show "link_inv ccf cf srv log taken (client_moves lk (client_round ccf ?cl))"
    unfolding mv by (intro link_invI [where dn = "dn @ [(h, v)]" and qs = qs']) (use i in \<open>auto simp: q f\<close>)
  show "\<exists>cl. client_moves lk (client_round ccf ?cl) = lk\<lparr>lk_client := cl\<rparr> \<and> length (cl_in ?cl) = length (cl_in cl) + 2"
    unfolding mv by (rule exI [of _ ?cl']) (simp add: f i(7) q)
qed

text \<open>Every step keeps the invariant and reduces the work that is left.\<close>

definition link_work :: "'v link \<Rightarrow> nat" where
  "link_work lk = 3 * length (sg_in (lk_serving lk)) + 5 * length (sg_running (lk_serving lk)) + 2 * length (cl_in (lk_client lk))"

lemma untimed_serve_inv [simp]: "serve_inv (untimed cf) = serve_inv cf"
  by (simp add: serve_inv_def fun_eq_iff)

lemma untimed_link_inv [simp]: "link_inv ccf (untimed cf) = link_inv ccf cf"
  by (simp add: link_inv_def fun_eq_iff)

lemma link_step_inv:
  assumes "link_inv ccf cf srv log taken lk" "link_step ccf (untimed cf) lk lk'"
  shows "link_inv ccf cf srv log taken lk'" "link_work lk' < link_work lk"
proof -
  show "link_inv ccf cf srv log taken lk'"
    using assms(2,1) by (cases rule: link_step.cases) (auto intro: link_inv_serve link_inv_finish link_inv_receive)
  show "link_work lk' < link_work lk"
    using assms(2)
  proof (cases rule: link_step.cases)
    case serve
    then show ?thesis using link_inv_serve(2) [OF assms(1)] by (fastforce simp: link_work_def)
  next
    case (finish i r)
    then show ?thesis using link_inv_finish(2) [OF assms(1)] by (fastforce simp: link_work_def)
  next
    case receive
    then show ?thesis using link_inv_receive(2) [OF assms(1)] by (fastforce simp: link_work_def)
  qed simp
qed

text \<open>When nothing can move, every call has been completed.\<close>

definition call_over :: "'v link \<Rightarrow> nat \<Rightarrow> bool" where
  "call_over lk i \<longleftrightarrow> map_of (cl_pending (lk_client lk)) (1 + of_nat i) = None"

lemma link_quiet:
  assumes inv: "link_inv ccf cf srv log taken lk" and quiet: "\<And>lk'. \<not> link_step ccf (untimed cf) lk lk'" and i: "i < length log"
  shows "call_over lk i"
proof -
  let ?s = "lk_serving lk" and ?cl = "lk_client lk"
  obtain dn qs where j: "length log < 2 ^ 63" "taken \<subseteq> {0..<length log}" "\<forall>c \<in> set log. callable ccf cf srv c"
    "serve_inv cf srv (requests_from 1 log) ?s" "sg_loop ?s" "sg_out ?s = calls_stream (dn @ qs)" "cl_in ?cl = calls_stream qs"
    "client_side srv log taken (h_Seq ` fst ` set dn) ?cl"
    using inv by (rule link_invE)
  have np: "\<not> sg_panic ?s" using j(4) by (simp add: serve_inv_def)
  have "length (sg_in ?s) < 2" using quiet link_step.serve [OF j(5) np] by force
  moreover obtain rest where "sg_in ?s = calls_stream rest" using j(4) by (auto simp: serve_inv_def)
  ultimately have si: "sg_in ?s = []" by (cases rest) auto
  have run: "sg_running ?s = []"
  proof (rule ccontr)
    assume "sg_running ?s \<noteq> []"
    then have "0 < length (sg_running ?s)" by simp
    moreover obtain r where "rm_Func (mt_method (rq_mtype (sg_running ?s ! 0))) (rq_argv (sg_running ?s ! 0)) = Some r"
      using serve_inv_answers [OF j(4) calculation] by (auto simp: answers_def)
    ultimately show False using link_step.finish [OF np] quiet by blast
  qed
  have "\<not> cl_shutdown ?cl" "\<not> cl_blocked ?cl" using j(8) by (simp_all add: client_side_def client_inv_def Client_IsAvailable_def)
  then have "length (cl_in ?cl) < 2" using quiet link_step.receive [of lk ccf "untimed cf"] by (metis not_less)
  then have "qs = []" using j(7) by (cases qs) auto
  then have "1 + of_nat i \<in> h_Seq ` fst ` set dn" using link_replies(3) [OF j(1,3,4,6) run si] i by simp
  then show ?thesis using j(8) i by (auto simp: client_side_def call_state_def call_over_def)
qed

text \<open>A completed call returns the result of its method to its caller, who has not been told before.\<close>

lemma link_completed_inv:
  assumes inv: "link_inv ccf cf srv log taken lk" and i: "i < length log" "i \<notin> taken"
  shows "link_completed i lk \<noteq> None \<longleftrightarrow> call_over lk i"
    "link_completed i lk = Some (r, lk') \<Longrightarrow> r = Inr (rpc_result srv (fst (log ! i)) (snd (log ! i))) \<and>
       link_inv ccf cf srv log (insert i taken) lk' \<and> link_work lk' = link_work lk"
proof -
  let ?s = "lk_serving lk" and ?cl = "lk_client lk"
  obtain dn qs where j: "length log < 2 ^ 63" "taken \<subseteq> {0..<length log}" "\<forall>c \<in> set log. callable ccf cf srv c"
    "serve_inv cf srv (requests_from 1 log) ?s" "sg_loop ?s" "sg_out ?s = calls_stream (dn @ qs)" "cl_in ?cl = calls_stream qs"
    "client_side srv log taken (h_Seq ` fst ` set dn) ?cl"
    using inv by (rule link_invE)
  have cs: "call_state srv log taken (h_Seq ` fst ` set dn) ?cl i" using j(8) i(1) by (simp add: client_side_def)
  have ci: "client_inv ?cl" using j(8) by (simp add: client_side_def)
  have "ca_chan (cl_heap ?cl i) = 0 \<longleftrightarrow> \<not> call_over lk i"
    using cs ci i(2) by (auto simp: call_state_def client_inv_def call_over_def split: if_splits)
  then show "link_completed i lk \<noteq> None \<longleftrightarrow> call_over lk i" by (simp add: link_completed_def Call_completed_def)
  assume c: "link_completed i lk = Some (r, lk')"
  then have ov: "call_over lk i" and ch: "ca_chan (cl_heap ?cl i) \<noteq> 0"
    using \<open>ca_chan (cl_heap ?cl i) = 0 \<longleftrightarrow> \<not> call_over lk i\<close> by (auto simp: link_completed_def Call_completed_def split: if_splits)
  have e: "ca_Error (cl_heap ?cl i) = None" "1 + of_nat i \<in> h_Seq ` fst ` set dn" "ca_chan (cl_heap ?cl i) = 1"
    "ca_Reply (cl_heap ?cl i) = rpc_result srv (fst (log ! i)) (snd (log ! i))" "map_of (cl_pending ?cl) (1 + of_nat i) = None"
    using cs ov i(2) by (auto simp: call_state_def call_over_def split: if_splits)
  let ?cl' = "upd_call i (\<lambda>c. c\<lparr>ca_chan := ca_chan c - 1\<rparr>) ?cl"
  have lk': "r = Inr (rpc_result srv (fst (log ! i)) (snd (log ! i)))" "lk' = lk\<lparr>lk_client := ?cl'\<rparr>"
    using c ch e(1,4) client_moves_quiet [of ?cl' lk] by (auto simp: link_completed_def Call_completed_def upd_call_def)
  have np: "map_of (cl_pending ?cl) n \<noteq> Some i" for n using ci e(3) by (auto simp: client_inv_def)
  have "numbered ?cl" using j(8) by (simp add: client_side_def)
  then have "numbered ?cl'" by (simp add: numbered_def upd_call_def)
  moreover have "client_inv ?cl'" using ci np by (auto simp: client_inv_def upd_call_def)
  moreover have "call_state srv log (insert i taken) (h_Seq ` fst ` set dn) ?cl' k" if "k < length log" for k
  proof (cases "k = i")
    case True
    then show ?thesis using e by (simp add: call_state_def upd_call_def)
  next
    case False
    have "call_state srv log taken (h_Seq ` fst ` set dn) ?cl k" using j(8) that by (simp add: client_side_def)
    then show ?thesis using False by (simp add: call_state_def upd_call_def)
  qed
  ultimately have "client_side srv log (insert i taken) (h_Seq ` fst ` set dn) ?cl'"
    using j(8) by (simp add: client_side_def Client_IsAvailable_def upd_call_def)
  then have "link_inv ccf cf srv log (insert i taken) lk'"
    unfolding lk'(2) by (intro link_invI [where dn = dn and qs = qs]) (use j i(1) in \<open>auto simp: upd_call_def\<close>)
  then show "r = Inr (rpc_result srv (fst (log ! i)) (snd (log ! i))) \<and>
       link_inv ccf cf srv log (insert i taken) lk' \<and> link_work lk' = link_work lk"
    using lk' by (simp add: link_work_def upd_call_def)
qed

end
