(* ===== verification/Rpc_Callers.thy ===== *)
theory Rpc_Callers
  imports Rpc_Link
begin

section \<open>Callers of one client\<close>

text \<open>
  Goroutines that call through one client (\<^verbatim>\<open>Client.Call\<close> of \<^verbatim>\<open>rpc/client.go\<close> and of \<^verbatim>\<open>rpcx/client.go\<close>), one call after the
  other, or with calls in progress at the same time where each was sent undisturbed by the other goroutines, while the client and the server at the
  other end work. (Sends that are not undisturbed are in \<open>Rpc_Calls\<close>.) The connection is an interface: what
  starts a call, how the two ends move, and what a caller is told; its laws are enough for all calls to return. The connection
  of \<open>Rpc_Link\<close> provides it here, and the one of \<^verbatim>\<open>rpcx\<close> in \<open>Rpcx_Link\<close>.
\<close>

subsection \<open>Steps\<close>

datatype 'v turn = Idle | Awaiting nat | Told "string + 'v option"

record ('l, 'v) callers =
  cr_link :: 'l
  cr_turns :: "'v turn list"

text \<open>A caller may start a call when \<open>gate\<close> lets it: at any time, or when the calls before it have returned.\<close>

definition at_once :: "'v turn list \<Rightarrow> nat \<Rightarrow> bool" where
  "at_once turns j \<longleftrightarrow> True"

definition in_turn :: "'v turn list \<Rightarrow> nat \<Rightarrow> bool" where
  "in_turn turns j \<longleftrightarrow> list_all (\<lambda>t. case t of Told _ \<Rightarrow> True | _ \<Rightarrow> False) (take j turns)"

inductive callers_step ::
  "(string \<Rightarrow> 'v \<Rightarrow> 'l \<Rightarrow> (nat \<times> 'l) option) \<Rightarrow> ('l \<Rightarrow> 'l \<Rightarrow> bool) \<Rightarrow> (nat \<Rightarrow> 'l \<Rightarrow> ((string + 'v option) \<times> 'l) option) \<Rightarrow>
   ('v turn list \<Rightarrow> nat \<Rightarrow> bool) \<Rightarrow> (string \<times> 'v) list \<Rightarrow> ('l, 'v) callers \<Rightarrow> ('l, 'v) callers \<Rightarrow> bool"
  for go step completed gate calls where
  start: "j < length (cr_turns st) \<Longrightarrow> cr_turns st ! j = Idle \<Longrightarrow> gate (cr_turns st) j \<Longrightarrow>
    go (fst (calls ! j)) (snd (calls ! j)) (cr_link st) = Some (i, lk) \<Longrightarrow>
    callers_step go step completed gate calls st \<lparr>cr_link = lk, cr_turns = (cr_turns st)[j := Awaiting i]\<rparr>"
| run: "step (cr_link st) lk \<Longrightarrow> callers_step go step completed gate calls st \<lparr>cr_link = lk, cr_turns = cr_turns st\<rparr>"
| finish: "j < length (cr_turns st) \<Longrightarrow> cr_turns st ! j = Awaiting i \<Longrightarrow> completed i (cr_link st) = Some (r, lk) \<Longrightarrow>
    callers_step go step completed gate calls st \<lparr>cr_link = lk, cr_turns = (cr_turns st)[j := Told r]\<rparr>"

definition callers_init :: "'l \<Rightarrow> (string \<times> 'v) list \<Rightarrow> ('l, 'v) callers" where
  "callers_init lk calls = \<lparr>cr_link = lk, cr_turns = replicate (length calls) Idle\<rparr>"

primrec turn_work :: "'v turn \<Rightarrow> nat" where
  "turn_work Idle = 8"
| "turn_work (Awaiting i) = 1"
| "turn_work (Told r) = 0"

definition callers_work :: "('l \<Rightarrow> nat) \<Rightarrow> ('l, 'v) callers \<Rightarrow> nat" where
  "callers_work work st = work (cr_link st) + sum_list (map turn_work (cr_turns st))"

text \<open>Either gate opens for some caller when nobody waits.\<close>

definition gate_opens :: "('v turn list \<Rightarrow> nat \<Rightarrow> bool) \<Rightarrow> bool" where
  "gate_opens gate \<longleftrightarrow> (\<forall>turns. Idle \<in> set turns \<longrightarrow> (\<forall>i. Awaiting i \<notin> set turns) \<longrightarrow>
     (\<exists>j < length turns. turns ! j = Idle \<and> gate turns j))"

lemma at_once_opens: "gate_opens at_once"
  by (auto simp: gate_opens_def at_once_def in_set_conv_nth)

lemma in_turn_opens: "gate_opens in_turn"
  unfolding gate_opens_def
proof (intro allI impI)
  fix turns :: "'v turn list"
  assume idle: "Idle \<in> set turns" and no: "\<forall>i. Awaiting i \<notin> set turns"
  from split_list_first [OF idle] obtain ys zs where t: "turns = ys @ Idle # zs" "Idle \<notin> set ys" by blast
  have "case t of Told _ \<Rightarrow> True | _ \<Rightarrow> False" if "t \<in> set ys" for t
  proof -
    have "t \<noteq> Idle" "\<forall>i. t \<noteq> Awaiting i" using that t no by auto
    then show ?thesis by (cases t) auto
  qed
  then have "in_turn turns (length ys)" by (auto simp: in_turn_def t(1) list_all_iff)
  then show "\<exists>j < length turns. turns ! j = Idle \<and> in_turn turns j"
    by (intro exI [of _ "length ys"]) (simp add: t(1))
qed

text \<open>No two callers wait for the same call.\<close>

definition waits_apart :: "'v turn list \<Rightarrow> bool" where
  "waits_apart ts \<longleftrightarrow> (\<forall>j < length ts. \<forall>k < length ts. \<forall>i. ts ! j = Awaiting i \<longrightarrow> ts ! k = Awaiting i \<longrightarrow> j = k)"

lemma waits_apart_update:
  assumes "waits_apart ts" "\<forall>k < length ts. \<forall>i. t = Awaiting i \<longrightarrow> ts ! k \<noteq> Awaiting i"
  shows "waits_apart (ts[j := t])"
  unfolding waits_apart_def
proof (intro allI impI)
  fix a b i
  assume a: "a < length (ts[j := t])" "b < length (ts[j := t])" "ts[j := t] ! a = Awaiting i" "ts[j := t] ! b = Awaiting i"
  show "a = b"
  proof (cases "a = j"; cases "b = j")
    assume "a \<noteq> j" "b \<noteq> j"
    then show ?thesis using assms(1) a by (simp add: waits_apart_def)
  qed (use assms(2) a in auto)
qed

lemma filter_update:
  assumes "j < length xs" "P (xs ! j)" "\<not> P x"
  shows "length (filter P xs) = Suc (length (filter P (xs[j := x])))"
  using assms by (induction xs arbitrary: j) (auto split: nat.splits)

lemma filter_update_same:
  assumes "j < length xs" "\<not> P (xs ! j)" "\<not> P x"
  shows "length (filter P (xs[j := x])) = length (filter P xs)"
  using assms by (induction xs arbitrary: j) (auto split: nat.splits)

subsection \<open>The interface of a connection\<close>

text \<open>The calls \<open>log\<close> have been started, in this order, and the callers of \<open>taken\<close> have been told.\<close>

locale connection =
  fixes go :: "string \<Rightarrow> 'v \<Rightarrow> 'l \<Rightarrow> (nat \<times> 'l) option"
    and step :: "'l \<Rightarrow> 'l \<Rightarrow> bool"
    and completed :: "nat \<Rightarrow> 'l \<Rightarrow> ((string + 'v option) \<times> 'l) option"
    and inv :: "(string \<times> 'v) list \<Rightarrow> nat set \<Rightarrow> 'l \<Rightarrow> bool"
    and work :: "'l \<Rightarrow> nat"
    and good :: "string \<times> 'v \<Rightarrow> bool"
    and res :: "string \<times> 'v \<Rightarrow> 'v option"
  assumes go_ok: "inv log taken lk \<Longrightarrow> length log + 1 < 2 ^ 63 \<Longrightarrow> good (sm, v) \<Longrightarrow>
      \<exists>lk'. go sm v lk = Some (length log, lk') \<and> inv (log @ [(sm, v)]) taken lk' \<and> work lk' \<le> work lk + 6"
    and taken_lt: "inv log taken lk \<Longrightarrow> taken \<subseteq> {0..<length log}"
    and step_inv: "inv log taken lk \<Longrightarrow> step lk lk' \<Longrightarrow> inv log taken lk'"
    and step_work: "inv log taken lk \<Longrightarrow> step lk lk' \<Longrightarrow> work lk' < work lk"
    and quiet: "inv log taken lk \<Longrightarrow> \<forall>lk'. \<not> step lk lk' \<Longrightarrow> i < length log \<Longrightarrow> i \<notin> taken \<Longrightarrow> completed i lk \<noteq> None"
    and told: "inv log taken lk \<Longrightarrow> i < length log \<Longrightarrow> i \<notin> taken \<Longrightarrow> completed i lk = Some (r, lk') \<Longrightarrow>
      r = Inr (res (log ! i)) \<and> inv log (insert i taken) lk' \<and> work lk' = work lk"
begin

definition turn_ok :: "(string \<times> 'v) list \<Rightarrow> nat set \<Rightarrow> string \<times> 'v \<Rightarrow> 'v turn \<Rightarrow> bool" where
  "turn_ok log taken c t \<longleftrightarrow>
     (case t of Idle \<Rightarrow> True | Awaiting i \<Rightarrow> i < length log \<and> i \<notin> taken \<and> log ! i = c | Told r \<Rightarrow> r = Inr (res c))"

definition callers_ok :: "(string \<times> 'v) list \<Rightarrow> (string \<times> 'v) list \<Rightarrow> nat set \<Rightarrow> ('l, 'v) callers \<Rightarrow> bool" where
  "callers_ok calls log taken st \<longleftrightarrow> inv log taken (cr_link st) \<and> length (cr_turns st) = length calls \<and>
     length log + length (filter (\<lambda>t. t = Idle) (cr_turns st)) = length calls \<and>
     (\<forall>j < length calls. turn_ok log taken (calls ! j) (cr_turns st ! j)) \<and>
     waits_apart (cr_turns st)"

lemma callers_start:
  assumes ok: "callers_ok calls log taken st" and len: "length calls < 2 ^ 63" and good: "\<forall>c \<in> set calls. good c"
    and j: "j < length calls" "cr_turns st ! j = Idle"
  shows "\<exists>i lk. go (fst (calls ! j)) (snd (calls ! j)) (cr_link st) = Some (i, lk) \<and>
    callers_ok calls (log @ [calls ! j]) taken \<lparr>cr_link = lk, cr_turns = (cr_turns st)[j := Awaiting i]\<rparr> \<and> work lk \<le> work (cr_link st) + 6"
proof -
  let ?ts = "cr_turns st" and ?n = "length log"
  have o: "inv log taken (cr_link st)" "length ?ts = length calls" "?n + length (filter (\<lambda>t. t = Idle) ?ts) = length calls"
    "\<forall>k < length calls. turn_ok log taken (calls ! k) (?ts ! k)"
    "waits_apart ?ts"
    using ok by (auto simp: callers_ok_def)
  have f: "length (filter (\<lambda>t. t = Idle) ?ts) = Suc (length (filter (\<lambda>t. t = Idle) (?ts[j := Awaiting ?n])))"
    by (rule filter_update) (use j o(2) in auto)
  have c: "good (fst (calls ! j), snd (calls ! j))" using good j(1) by simp
  have "?n + 1 < 2 ^ 63" using o(3) f len by linarith
  from go_ok [OF o(1) this c] obtain lk where lk: "go (fst (calls ! j)) (snd (calls ! j)) (cr_link st) = Some (?n, lk)"
    "inv (log @ [calls ! j]) taken lk" "work lk \<le> work (cr_link st) + 6" by auto
  have t: "?n \<notin> taken" using taken_lt [OF o(1)] by auto
  have lt: "i < ?n" if "k < length calls" "?ts ! k = Awaiting i" for k i using o(4) that by (auto simp: turn_ok_def)
  have turns: "turn_ok (log @ [calls ! j]) taken (calls ! k) (?ts[j := Awaiting ?n] ! k)" if k: "k < length calls" for k
  proof (cases "k = j")
    case True
    then show ?thesis using k o(2) t by (simp add: turn_ok_def)
  next
    case False
    then show ?thesis using o(4) k by (auto simp: turn_ok_def nth_append split: turn.splits)
  qed
  have "callers_ok calls (log @ [calls ! j]) taken \<lparr>cr_link = lk, cr_turns = ?ts[j := Awaiting ?n]\<rparr>"
    unfolding callers_ok_def using lk(2) o(2,3) f turns waits_apart_update [OF o(5), of "Awaiting ?n" j] lt by fastforce
  then show ?thesis using lk(1,3) by blast
qed

lemma callers_finish:
  assumes ok: "callers_ok calls log taken st" and j: "j < length calls" "cr_turns st ! j = Awaiting i"
    and c: "completed i (cr_link st) = Some (r, lk)"
  shows "callers_ok calls log (insert i taken) \<lparr>cr_link = lk, cr_turns = (cr_turns st)[j := Told r]\<rparr>" "work lk = work (cr_link st)"
proof -
  let ?ts = "cr_turns st"
  have o: "inv log taken (cr_link st)" "length ?ts = length calls" "length log + length (filter (\<lambda>t. t = Idle) ?ts) = length calls"
    "\<forall>k < length calls. turn_ok log taken (calls ! k) (?ts ! k)"
    "waits_apart ?ts"
    using ok by (auto simp: callers_ok_def)
  have i: "i < length log" "i \<notin> taken" "log ! i = calls ! j" using o(4) j by (auto simp: turn_ok_def)
  have r: "r = Inr (res (calls ! j))" "inv log (insert i taken) lk" "work lk = work (cr_link st)"
    using told [OF o(1) i(1,2) c] i(3) by auto
  have f: "length (filter (\<lambda>t. t = Idle) (?ts[j := Told r])) = length (filter (\<lambda>t. t = Idle) ?ts)"
    by (rule filter_update_same) (use j o(2) in auto)
  have ne: "?ts ! k \<noteq> Awaiting i" if "k < length calls" "k \<noteq> j" for k using o(2,5) j that unfolding waits_apart_def by metis
  have "turn_ok log (insert i taken) (calls ! k) (?ts[j := Told r] ! k)" if k: "k < length calls" for k
  proof (cases "k = j")
    case True
    then show ?thesis using k o(2) r(1) by (simp add: turn_ok_def)
  next
    case False
    then show ?thesis using o(4) k ne [OF k False] by (auto simp: turn_ok_def split: turn.splits)
  qed
  then show "callers_ok calls log (insert i taken) \<lparr>cr_link = lk, cr_turns = ?ts[j := Told r]\<rparr>"
    unfolding callers_ok_def using r(2) o(2,3) f waits_apart_update [OF o(5), of "Told r" j] by simp
  show "work lk = work (cr_link st)" by (rule r(3))
qed

text \<open>A step keeps the invariant and reduces the work; when no step is left every caller has been told.\<close>

lemma callers_step_ok:
  assumes ok: "callers_ok calls log taken st" and len: "length calls < 2 ^ 63" and good: "\<forall>c \<in> set calls. good c"
    and st: "callers_step go step completed gate calls st st'"
  shows "(\<exists>log taken. callers_ok calls log taken st') \<and> callers_work work st' < callers_work work st"
  using st
proof (cases rule: callers_step.cases)
  case (start j i lk)
  have j: "j < length calls" using start(2) ok by (simp add: callers_ok_def)
  from callers_start [OF ok len good j start(3)] start(5) show ?thesis
    using sum_list_update_less [OF start(2), of turn_work "Awaiting i"] start(3)
    by (auto simp: start(1) callers_work_def)
next
  case (run lk)
  have "inv log taken (cr_link st)" using ok by (simp add: callers_ok_def)
  from step_inv [OF this run(2)] step_work [OF this run(2)] ok show ?thesis
    by (auto simp: run(1) callers_ok_def callers_work_def)
next
  case (finish j i r lk)
  have j: "j < length calls" using finish(2) ok by (simp add: callers_ok_def)
  from callers_finish [OF ok j finish(3,4)] show ?thesis
    using sum_list_update_less [OF finish(2), of turn_work "Told r"] finish(3)
    by (auto simp: finish(1) callers_work_def)
qed

lemma callers_quiet:
  assumes ok: "callers_ok calls log taken st" and len: "length calls < 2 ^ 63" and good: "\<forall>c \<in> set calls. good c"
    and gate: "gate_opens gate" and q: "\<forall>st'. \<not> callers_step go step completed gate calls st st'" and j: "j < length calls"
  shows "cr_turns st ! j = Told (Inr (res (calls ! j)))"
proof -
  let ?ts = "cr_turns st"
  have o: "inv log taken (cr_link st)" "length ?ts = length calls" "\<forall>k < length calls. turn_ok log taken (calls ! k) (?ts ! k)"
    using ok by (auto simp: callers_ok_def)
  have l: "\<forall>lk'. \<not> step (cr_link st) lk'" using q callers_step.run by fast
  have no: "\<forall>i. Awaiting i \<notin> set ?ts"
  proof (intro allI notI)
    fix i assume "Awaiting i \<in> set ?ts"
    then obtain k where k: "k < length ?ts" "?ts ! k = Awaiting i" by (metis in_set_conv_nth)
    then have "i < length log" "i \<notin> taken" using o(2,3) by (auto simp: turn_ok_def)
    from quiet [OF o(1) l this] obtain r lk where "completed i (cr_link st) = Some (r, lk)" by auto
    then show False using q callers_step.finish [where gate = gate and go = go and step = step, OF k] by blast
  qed
  have "Idle \<notin> set ?ts"
  proof
    assume "Idle \<in> set ?ts"
    then obtain k where k: "k < length ?ts" "?ts ! k = Idle" "gate ?ts k" using gate no unfolding gate_opens_def by blast
    from callers_start [OF ok len good k(1) [unfolded o(2)] k(2)] obtain i lk where
      "go (fst (calls ! k)) (snd (calls ! k)) (cr_link st) = Some (i, lk)" by blast
    then show False using q callers_step.start [where gate = gate and step = step and completed = completed, OF k] by blast
  qed
  then have "?ts ! j \<noteq> Idle" "\<And>i. ?ts ! j \<noteq> Awaiting i" using no j o(2) by (metis nth_mem)+
  then show ?thesis using o(3) j by (cases "?ts ! j") (auto simp: turn_ok_def)
qed

lemma calls_answered:
  assumes "inv [] {} lk" and "length calls < 2 ^ 63" and "\<forall>c \<in> set calls. good c" and "gate_opens gate"
  shows "ends_in (callers_step go step completed gate calls) (callers_work work) (callers_init lk calls)
    (\<lambda>st. cr_turns st = map (\<lambda>c. Told (Inr (res c))) calls)"
proof (rule ends_inI [where I = "\<lambda>st. \<exists>log taken. callers_ok calls log taken st"])
  have "callers_ok calls [] {} (callers_init lk calls)"
    using assms(1) by (simp add: callers_ok_def callers_init_def turn_ok_def waits_apart_def)
  then show "\<exists>log taken. callers_ok calls log taken (callers_init lk calls)" by blast
next
  fix st st' assume "\<exists>log taken. callers_ok calls log taken st" "callers_step go step completed gate calls st st'"
  then show "(\<exists>log taken. callers_ok calls log taken st') \<and> callers_work work st' < callers_work work st"
    using callers_step_ok [OF _ assms(2,3)] by blast
next
  fix st assume "\<exists>log taken. callers_ok calls log taken st" and q: "\<forall>st'. \<not> callers_step go step completed gate calls st st'"
  then obtain log taken where ok: "callers_ok calls log taken st" by blast
  have n: "length (cr_turns st) = length calls" using ok by (simp add: callers_ok_def)
  show "cr_turns st = map (\<lambda>c. Told (Inr (res c))) calls"
    by (rule nth_equalityI) (use callers_quiet [OF ok assms(2-4) q] n in auto)
qed

end

subsection \<open>The connection of \<^verbatim>\<open>rpc\<close>\<close>

interpretation rpc_conn: connection "link_Go ccf" "link_step ccf (untimed cf)" link_completed "link_inv ccf cf srv" link_work "callable ccf cf srv"
  "\<lambda>(sm, v). rpc_result srv sm v"
proof (unfold_locales, goal_cases)
  case (1 log taken lk sm v)
  from link_Go_inv [OF this] show ?case by (auto simp: link_work_def)
next
  case (2 log taken lk)
  then show ?case by (simp add: link_inv_def)
next
  case (3 log taken lk lk')
  then show ?case by (rule link_step_inv(1))
next
  case (4 log taken lk lk')
  then show ?case by (rule link_step_inv(2))
next
  case (5 log taken lk i)
  then show ?case using link_completed_inv(1) [OF 5(1,3,4)] link_quiet [OF 5(1) _ 5(3)] by blast
next
  case (6 log taken lk i r lk')
  from link_completed_inv(2) [OF this] show ?case by (simp add: case_prod_beta)
qed

end
