(* ===== verification/Rpc_Calls.thy ===== *)
theory Rpc_Calls
  imports XClient Rpc_Link Rpc_Registry
begin

section \<open>Concurrent calls through an \<^verbatim>\<open>XClient\<close>\<close>

text \<open>
  Any number of goroutines call through one \<^verbatim>\<open>XClient\<close> (\<^verbatim>\<open>rpc/xclient/xclient.go\<close>): each chooses a server, dials it,
  starts its call and waits. The connections with their servers work at the same time (\<open>Rpc_Link\<close>). Every run of the
  relation \<open>calls_step\<close> is an interleaving of all of them: goroutines that share a client can come between each other's headers and bodies, handlers
  can be overtaken by their timeouts, and a server may lose requests while it reads the options. The events on the steps say which of
  this happens. The relation \<open>atomic_step\<close>, in which a goroutine goes through \<^verbatim>\<open>send\<close> at once, is a specification: its
  runs are studied here, and \<open>Rpc_Sends\<close> shows that runs in which goroutines are not in \<^verbatim>\<open>send\<close> on the same client together implement it. The goroutines of a
  \<^verbatim>\<open>Broadcast\<close> are those that start with the server chosen.
\<close>

subsection \<open>Goroutines, connections, steps\<close>

text \<open>\<open>Sending a i p\<close>: in \<^verbatim>\<open>send\<close>, for the call \<open>i\<close> on the client at \<open>a\<close>, with the piece \<open>p\<close> to come.\<close>

datatype 'v phase = Begin | Chosen string | Dialled nat | Sending nat nat sending | Waiting nat nat | Returned "string + 'v option"

text \<open>\<open>cs_ready\<close>: the connections on which the server has read the options.\<close>

record ('d, 'v) calls_state =
  cs_xc :: "('d, 'v) xclient"
  cs_conns :: "nat \<Rightarrow> 'v serving"
  cs_jobs :: "'v phase list"
  cs_ready :: "nat set"

text \<open>The connection of the client at address \<open>a\<close>.\<close>

definition link_at :: "('d, 'v) calls_state \<Rightarrow> nat \<Rightarrow> 'v link" where
  "link_at st a = \<lparr>lk_client = xc_heap (cs_xc st) a, lk_serving = cs_conns st a\<rparr>"

definition set_link :: "nat \<Rightarrow> 'v link \<Rightarrow> ('d, 'v) calls_state \<Rightarrow> ('d, 'v) calls_state" where
  "set_link a lk st = st\<lparr>cs_xc := (cs_xc st)\<lparr>xc_heap := (xc_heap (cs_xc st))(a := lk_client lk)\<rparr>,
     cs_conns := (cs_conns st)(a := lk_serving lk)\<rparr>"

definition set_job :: "nat \<Rightarrow> 'v phase \<Rightarrow> ('d, 'v) calls_state \<Rightarrow> ('d, 'v) calls_state" where
  "set_job j p st = st\<lparr>cs_jobs := (cs_jobs st)[j := p]\<rparr>"

text \<open>What a system consists of: the discovery's \<^verbatim>\<open>Get\<close> at a time, the times at which goroutines may ask it, the network, what can be
  encoded and decoded, and the server that listens at an address.\<close>

record ('t, 'd, 'v) calls_sys =
  sy_get :: "'t \<Rightarrow> 'd \<Rightarrow> int \<Rightarrow> ('d \<times> (string + string)) option"
  sy_times :: "'t set"
  sy_nw :: "'v network"
  sy_ccf :: "'v client_cfg"
  sy_cf :: "'v server_cfg"
  sy_server :: "string \<Rightarrow> 'v server"

text \<open>\<^verbatim>\<open>Get\<close> and \<^verbatim>\<open>dial\<close> of a goroutine. At the other end of a new connection the server starts to serve.\<close>

definition job_chosen :: "'d \<times> (string + string) \<Rightarrow> nat \<Rightarrow> ('d, 'v) calls_state \<Rightarrow> ('d, 'v) calls_state" where
  "job_chosen = (\<lambda>(d, r) j st. set_job j (case r of Inl err \<Rightarrow> Returned (Inl err) | Inr s \<Rightarrow> Chosen s)
     (st\<lparr>cs_xc := (cs_xc st)\<lparr>xc_d := d\<rparr>\<rparr>))"

definition job_dial :: "('t, 'd, 'v) calls_sys \<Rightarrow> string \<Rightarrow> nat \<Rightarrow> ('d, 'v) calls_state \<Rightarrow> ('d, 'v) calls_state" where
  "job_dial sy s j st =
     (case XClient_dial (sy_nw sy) s (cs_xc st) of
        (Inl err, xc) \<Rightarrow> set_job j (Returned (Inl err)) (st\<lparr>cs_xc := xc\<rparr>)
      | (Inr a, xc) \<Rightarrow> set_job j (Dialled a) (st\<lparr>cs_xc := xc, cs_conns :=
          (if a = xc_next (cs_xc st) then (cs_conns st)(a := serve_init (sy_server sy s) (NewGobCodec (conn_of []))) else cs_conns st)\<rparr>))"

text \<open>The server has read the options on the connection \<open>a\<close>. They are decoded as JSON from the connection, and the decoder may have
  read on: the \<open>n\<close> values that it took with the options never reach the gob decoder (\<^verbatim>\<open>server.go:97\<close>; that it may stop inside of a value is not modelled).\<close>

definition options_read :: "nat \<Rightarrow> nat \<Rightarrow> ('d, 'v) calls_state \<Rightarrow> ('d, 'v) calls_state" where
  "options_read a n st =
     (let s = cs_conns st a
      in st\<lparr>cs_conns := (cs_conns st)(a := s\<lparr>sg_codec := popped (sg_codec s) (drop n (sg_in s))\<rparr>), cs_ready := insert a (cs_ready st)\<rparr>)"

datatype event = Calm | Options_read nat | Timed_out

inductive calls_step :: "('t, 'd, 'v) calls_sys \<Rightarrow> (string \<times> 'v) list \<Rightarrow> event \<Rightarrow> ('d, 'v) calls_state \<Rightarrow> ('d, 'v) calls_state \<Rightarrow> bool" for sy calls where
  choose: "j < length (cs_jobs st) \<Longrightarrow> cs_jobs st ! j = Begin \<Longrightarrow> t \<in> sy_times sy \<Longrightarrow>
    sy_get sy t (xc_d (cs_xc st)) (xc_mode (cs_xc st)) = Some r \<Longrightarrow> calls_step sy calls Calm st (job_chosen r j st)"
| dial: "j < length (cs_jobs st) \<Longrightarrow> cs_jobs st ! j = Chosen s \<Longrightarrow> calls_step sy calls Calm st (job_dial sy s j st)"
| register: "j < length (cs_jobs st) \<Longrightarrow> cs_jobs st ! j = Dialled a \<Longrightarrow>
    link_register (fst (calls ! j)) (snd (calls ! j)) (link_at st a) = Some (i, lk) \<Longrightarrow>
    calls_step sy calls Calm st (set_job j (Sending a i Enc_header) (set_link a lk st))"
| send: "j < length (cs_jobs st) \<Longrightarrow> cs_jobs st ! j = Sending a i p \<Longrightarrow> link_send (sy_ccf sy) i p (link_at st a) = (p', lk) \<Longrightarrow>
    calls_step sy calls Calm st (set_job j (case p' of None \<Rightarrow> Waiting a i | Some q \<Rightarrow> Sending a i q) (set_link a lk st))"
| options: "a < xc_next (cs_xc st) \<Longrightarrow> a \<notin> cs_ready st \<Longrightarrow> n \<le> length (sg_in (cs_conns st a)) \<Longrightarrow>
    calls_step sy calls (Options_read n) st (options_read a n st)"
| run: "a < xc_next (cs_xc st) \<Longrightarrow> a \<in> cs_ready st \<Longrightarrow> link_step (sy_ccf sy) (untimed (sy_cf sy)) (link_at st a) lk \<Longrightarrow>
    calls_step sy calls Calm st (set_link a lk st)"
| timeout: "a < xc_next (cs_xc st) \<Longrightarrow> a \<in> cs_ready st \<Longrightarrow> \<not> sg_panic (cs_conns st a) \<Longrightarrow> i < length (sg_running (cs_conns st a)) \<Longrightarrow>
    cf_timeout (sy_cf sy) \<noteq> 0 \<Longrightarrow> calls_step sy calls Timed_out st (set_link a (link_timeout (sy_cf sy) i (link_at st a)) st)"
| return: "j < length (cs_jobs st) \<Longrightarrow> cs_jobs st ! j = Waiting a i \<Longrightarrow> link_completed i (link_at st a) = Some (r, lk) \<Longrightarrow>
    calls_step sy calls Calm st (set_job j (Returned r) (set_link a lk st))"

inductive_cases calls_stepE: "calls_step sy calls ev st st'"

text \<open>No two goroutines are in \<^verbatim>\<open>send\<close> on the same client.\<close>

definition sends_apart :: "'v phase list \<Rightarrow> bool" where
  "sends_apart ps \<longleftrightarrow> (\<forall>j < length ps. \<forall>k < length ps. \<forall>a i i' p p'. ps ! j = Sending a i p \<longrightarrow> ps ! k = Sending a i' p' \<longrightarrow> j = k)"

text \<open>The runs in which sends do not overlap on a client, no timeout fires and nothing is lost with the options.\<close>

definition calm_step :: "('t, 'd, 'v) calls_sys \<Rightarrow> (string \<times> 'v) list \<Rightarrow> ('d, 'v) calls_state \<Rightarrow> ('d, 'v) calls_state \<Rightarrow> bool" where
  "calm_step sy calls st st' \<longleftrightarrow>
     (calls_step sy calls Calm st st' \<or> calls_step sy calls (Options_read 0) st st') \<and> sends_apart (cs_jobs st')"

text \<open>The specification: \<^verbatim>\<open>Go\<close> is one step, and the options have been read.\<close>

inductive atomic_step :: "('t, 'd, 'v) calls_sys \<Rightarrow> (string \<times> 'v) list \<Rightarrow> ('d, 'v) calls_state \<Rightarrow> ('d, 'v) calls_state \<Rightarrow> bool" for sy calls where
  choose: "j < length (cs_jobs st) \<Longrightarrow> cs_jobs st ! j = Begin \<Longrightarrow> t \<in> sy_times sy \<Longrightarrow>
    sy_get sy t (xc_d (cs_xc st)) (xc_mode (cs_xc st)) = Some r \<Longrightarrow> atomic_step sy calls st (job_chosen r j st)"
| dial: "j < length (cs_jobs st) \<Longrightarrow> cs_jobs st ! j = Chosen s \<Longrightarrow> atomic_step sy calls st (job_dial sy s j st)"
| go: "j < length (cs_jobs st) \<Longrightarrow> cs_jobs st ! j = Dialled a \<Longrightarrow>
    link_Go (sy_ccf sy) (fst (calls ! j)) (snd (calls ! j)) (link_at st a) = Some (i, lk) \<Longrightarrow>
    atomic_step sy calls st (set_job j (Waiting a i) (set_link a lk st))"
| run: "a < xc_next (cs_xc st) \<Longrightarrow> link_step (sy_ccf sy) (untimed (sy_cf sy)) (link_at st a) lk \<Longrightarrow> atomic_step sy calls st (set_link a lk st)"
| return: "j < length (cs_jobs st) \<Longrightarrow> cs_jobs st ! j = Waiting a i \<Longrightarrow> link_completed i (link_at st a) = Some (r, lk) \<Longrightarrow>
    atomic_step sy calls st (set_job j (Returned r) (set_link a lk st))"

definition calls_init :: "('d, 'v) xclient \<Rightarrow> 'v phase list \<Rightarrow> (nat \<Rightarrow> 'v serving) \<Rightarrow> ('d, 'v) calls_state" where
  "calls_init xc jobs conns = \<lparr>cs_xc = xc, cs_conns = conns, cs_jobs = jobs, cs_ready = {}\<rparr>"

text \<open>The phases are the parts of \<^const>\<open>XClient_Call\<close>: one goroutine that is not disturbed goes through them as that function
  does.\<close>

lemma XClient_Call_phases:
  assumes g: "sy_get sy t (xc_d xc) (xc_mode xc) = Some (d, Inr s)" and dl: "XClient_dial (sy_nw sy) s (xc\<lparr>xc_d := d\<rparr>) = (Inr a, xc1)"
    and go: "Client_Go (sy_ccf sy) sm v (Some 1) (xc_heap xc1 a) = Some (i, cl)"
  shows "XClient_Call (sy_get sy t) (sy_nw sy) (sy_ccf sy) sm v xc = Some (Inr (a, i), xc1\<lparr>xc_heap := (xc_heap xc1)(a := cl)\<rparr>)"
    "cs_xc (job_dial sy s 0 (job_chosen (d, Inr s) 0 (calls_init xc [Begin] conns))) = xc1"
  using assms unfolding One_nat_def
  by (simp_all add: XClient_Call_def XClient_call_def job_dial_def job_chosen_def set_job_def calls_init_def)

subsection \<open>Work\<close>

primrec phase_work :: "'v phase \<Rightarrow> nat" where
  "phase_work Begin = 10"
| "phase_work (Chosen s) = 9"
| "phase_work (Dialled a) = 8"
| "phase_work (Sending a i p) = 7"
| "phase_work (Waiting a i) = 1"
| "phase_work (Returned r) = 0"

definition calls_work :: "('d, 'v) calls_state \<Rightarrow> nat" where
  "calls_work st = sum_list (map phase_work (cs_jobs st)) + (\<Sum>a < xc_next (cs_xc st). link_work (link_at st a))"

lemma set_simps [simp]:
  "cs_jobs (set_link a lk st) = cs_jobs st" "cs_jobs (set_job j p st) = (cs_jobs st)[j := p]"
  "cs_xc (set_job j p st) = cs_xc st" "cs_conns (set_job j p st) = cs_conns st"
  "xc_next (cs_xc (set_link a lk st)) = xc_next (cs_xc st)" "xc_clients (cs_xc (set_link a lk st)) = xc_clients (cs_xc st)"
  "xc_d (cs_xc (set_link a lk st)) = xc_d (cs_xc st)" "xc_mode (cs_xc (set_link a lk st)) = xc_mode (cs_xc st)"
  "link_at (set_job j p st) = link_at st" "link_at (set_link a lk st) = (link_at st)(a := lk)"
  by (auto simp: set_link_def set_job_def link_at_def fun_eq_iff)

lemma sum_fun_upd:
  fixes f :: "'b \<Rightarrow> nat" and n :: nat
  assumes "a < n"
  shows "(\<Sum>x < n. f ((g(a := y)) x)) + f (g a) = (\<Sum>x < n. f (g x)) + f y"
proof -
  have "(\<Sum>x \<in> {..<n} - {a}. f ((g(a := y)) x)) = (\<Sum>x \<in> {..<n} - {a}. f (g x))" by (rule sum.cong) auto
  then show ?thesis
    using assms sum.remove [of "{..<n}" a "\<lambda>x. f ((g(a := y)) x)"] sum.remove [of "{..<n}" a "\<lambda>x. f (g x)"] by simp
qed

text \<open>How the work changes when a goroutine or a connection has moved.\<close>

lemma calls_work_job:
  "j < length (cs_jobs st) \<Longrightarrow> calls_work (set_job j p st) + phase_work (cs_jobs st ! j) = calls_work st + phase_work p"
  using sum_list_update_less [of j "cs_jobs st" phase_work p] by (simp add: calls_work_def)

lemma calls_work_link:
  "a < xc_next (cs_xc st) \<Longrightarrow> calls_work (set_link a lk st) + link_work (link_at st a) = calls_work st + link_work lk"
  using sum_fun_upd [of a "xc_next (cs_xc st)" link_work "link_at st" lk] by (simp add: calls_work_def)

subsection \<open>The invariant\<close>

text \<open>The discovery always has a server to offer: \<open>ok\<close> states, \<open>times\<close> at which it is asked, and the \<open>servers\<close> it may return.\<close>

locale live_discovery =
  fixes get :: "'t \<Rightarrow> 'd \<Rightarrow> int \<Rightarrow> ('d \<times> (string + string)) option"
    and mode :: int
    and times :: "'t set"
    and ok :: "'d \<Rightarrow> bool"
    and servers :: "string set"
  assumes get_live: "ok d \<Longrightarrow> t \<in> times \<Longrightarrow> \<exists>d' s. get t d mode = Some (d', Inr s) \<and> ok d' \<and> s \<in> servers"

text \<open>A goroutine whose first phase was \<open>p0\<close> may talk to \<open>s\<close>.\<close>

definition may_use :: "string set \<Rightarrow> 'v phase \<Rightarrow> string \<Rightarrow> bool" where
  "may_use S p0 s \<longleftrightarrow> s \<in> S \<and> (p0 = Begin \<or> p0 = Chosen s)"

text \<open>Ghost state of the \<open>n\<close> connections: where they lead, the calls made on them, the callers that have been told.\<close>

record 'v ghost =
  gh_n :: nat
  gh_addr :: "nat \<Rightarrow> string"
  gh_log :: "nat \<Rightarrow> (string \<times> 'v) list"
  gh_taken :: "nat \<Rightarrow> nat set"

fun job_ok :: "(string \<Rightarrow> 'v server) \<Rightarrow> string set \<Rightarrow> 'v ghost \<Rightarrow> 'v phase \<Rightarrow> string \<times> 'v \<Rightarrow> 'v phase \<Rightarrow> bool" where
  "job_ok srv S g p0 c Begin = (p0 = Begin)"
| "job_ok srv S g p0 c (Chosen s) = may_use S p0 s"
| "job_ok srv S g p0 c (Dialled a) = (a < gh_n g \<and> may_use S p0 (gh_addr g a))"
| "job_ok srv S g p0 c (Sending a i p) = False"
| "job_ok srv S g p0 c (Waiting a i) = (a < gh_n g \<and> may_use S p0 (gh_addr g a) \<and> i < length (gh_log g a) \<and> i \<notin> gh_taken g a \<and> gh_log g a ! i = c)"
| "job_ok srv S g p0 c (Returned r) = (\<exists>s. may_use S p0 s \<and> r = Inr (rpc_result (srv s) (fst c) (snd c)))"

definition unsent :: "'v phase list \<Rightarrow> nat" where
  "unsent ps = sum_list (map (\<lambda>p. if 8 \<le> phase_work p then 1 else 0) ps)"

definition conns_ok :: "('t, 'd, 'v) calls_sys \<Rightarrow> string set \<Rightarrow> 'v ghost \<Rightarrow> ('d, 'v) calls_state \<Rightarrow> bool" where
  "conns_ok sy S g st \<longleftrightarrow> gh_n g = xc_next (cs_xc st) \<and>
     (\<forall>a < gh_n g. gh_addr g a \<in> S \<and> map_of (xc_clients (cs_xc st)) (gh_addr g a) = Some a \<and>
        link_inv (sy_ccf sy) (sy_cf sy) (sy_server sy (gh_addr g a)) (gh_log g a) (gh_taken g a) (link_at st a) \<and>
        length (gh_log g a) + unsent (cs_jobs st) \<le> length (cs_jobs st)) \<and>
     (\<forall>s a. map_of (xc_clients (cs_xc st)) s = Some a \<longrightarrow> a < gh_n g \<and> gh_addr g a = s)"

definition jobs_ok :: "('t, 'd, 'v) calls_sys \<Rightarrow> string set \<Rightarrow> 'v ghost \<Rightarrow> 'v phase list \<Rightarrow> (string \<times> 'v) list \<Rightarrow> 'v phase list \<Rightarrow> bool" where
  "jobs_ok sy S g jobs0 calls jobs \<longleftrightarrow> length jobs = length calls \<and>
     (\<forall>j < length calls. job_ok (sy_server sy) S g (jobs0 ! j) (calls ! j) (jobs ! j)) \<and>
     (\<forall>j < length calls. \<forall>k < length calls. \<forall>a i. jobs ! j = Waiting a i \<and> jobs ! k = Waiting a i \<longrightarrow> j = k)"

definition reaches :: "'v network \<Rightarrow> string \<Rightarrow> bool" where
  "reaches nw s \<longleftrightarrow> (\<exists>opt. fst (XDial nw s []) = Inr (new_client (NewGobCodec (conn_of [])) (nw_heap nw), opt))"

text \<open>The servers can be reached and have the methods that are called.\<close>

definition sys_ok :: "('t, 'd, 'v) calls_sys \<Rightarrow> string set \<Rightarrow> (string \<times> 'v) list \<Rightarrow> bool" where
  "sys_ok sy S calls \<longleftrightarrow> length calls < 2 ^ 63 \<and>
     (\<forall>s \<in> S. reaches (sy_nw sy) s \<and> (\<forall>c \<in> set calls. callable (sy_ccf sy) (sy_cf sy) (sy_server sy s) c))"

text \<open>An address over TCP that can be dialled.\<close>

lemma reaches_tcp:
  assumes "CHR ''@'' \<notin> set addr" "nw_dial nw ''tcp'' addr 0 = Inr (conn_of [])"
  shows "reaches nw (''tcp@'' @ addr)"
proof -
  have "strings_Split (strings_Join [''tcp'', addr] [CHR ''@'']) CHR ''@'' = [''tcp'', addr]"
    by (rule Split_Join) (use assms(1) in auto)
  then have "strings_Split (''tcp@'' @ addr) CHR ''@'' = [''tcp'', addr]" by simp
  then show ?thesis using assms(2)
    by (simp add: reaches_def XDial_def Dial_def dialTimeout_def NewClient_def parseOptions_def DefaultOption_def conn_of_def Let_def)
qed

text \<open>Ghost state that has grown.\<close>

definition grown :: "'v ghost \<Rightarrow> 'v ghost \<Rightarrow> bool" where
  "grown g g' \<longleftrightarrow> gh_n g \<le> gh_n g' \<and> (\<forall>a < gh_n g. gh_addr g' a = gh_addr g a \<and> (\<exists>cs. gh_log g' a = gh_log g a @ cs))"

lemma job_ok_grown:
  assumes "grown g g'" "\<And>a i. p = Waiting a i \<Longrightarrow> i \<notin> gh_taken g' a" "job_ok srv S g p0 c p"
  shows "job_ok srv S g' p0 c p"
  using assms by (cases p) (auto simp: grown_def nth_append dest!: spec)

lemma jobs_ok_update:
  assumes jb: "jobs_ok sy S g jobs0 calls jobs" and gr: "grown g g'" and j: "j < length calls"
    and new: "job_ok (sy_server sy) S g' (jobs0 ! j) (calls ! j) p"
    and tk: "\<And>k a i. k < length calls \<Longrightarrow> k \<noteq> j \<Longrightarrow> jobs ! k = Waiting a i \<Longrightarrow> i \<notin> gh_taken g' a \<and> p \<noteq> Waiting a i"
  shows "jobs_ok sy S g' jobs0 calls (jobs[j := p])"
proof -
  have l: "length jobs = length calls" using jb by (simp add: jobs_ok_def)
  have "job_ok (sy_server sy) S g' (jobs0 ! k) (calls ! k) (jobs[j := p] ! k)" if "k < length calls" for k
    using that jb new l tk [of k] job_ok_grown [OF gr, of "jobs ! k"] by (cases "k = j") (auto simp: jobs_ok_def)
  moreover have "k = m" if "k < length calls" "m < length calls" "jobs[j := p] ! k = Waiting a i" "jobs[j := p] ! m = Waiting a i" for k m a i
    using that jb l tk [of k a i] tk [of m a i] by (cases "k = j"; cases "m = j") (auto simp: jobs_ok_def)
  ultimately show ?thesis using l unfolding jobs_ok_def by auto
qed

lemma jobs_ok_same:
  assumes "jobs_ok sy S g jobs0 calls jobs" "grown g g'" "\<And>k a i. k < length calls \<Longrightarrow> jobs ! k = Waiting a i \<Longrightarrow> i \<notin> gh_taken g' a"
  shows "jobs_ok sy S g' jobs0 calls jobs"
proof -
  have "job_ok (sy_server sy) S g' (jobs0 ! k) (calls ! k) (jobs ! k)" if "k < length calls" for k
    using that assms(1,3) by (intro job_ok_grown [OF assms(2)]) (auto simp: jobs_ok_def)
  then show ?thesis using assms(1) by (simp add: jobs_ok_def)
qed

lemma unsent_update:
  "j < length ps \<Longrightarrow> unsent (ps[j := p]) + (if 8 \<le> phase_work (ps ! j) then 1 else 0) = unsent ps + (if 8 \<le> phase_work p then 1 else 0)"
  unfolding unsent_def by (rule sum_list_update_less)

lemma unsent_le: "unsent ps \<le> length ps"
  unfolding unsent_def by (induction ps) auto

lemma unsent_pos: "j < length ps \<Longrightarrow> 8 \<le> phase_work (ps ! j) \<Longrightarrow> 0 < unsent ps"
  unfolding unsent_def by (induction ps arbitrary: j) (auto simp: nth_Cons split: nat.splits)

subsection \<open>Every step keeps the invariant\<close>

lemma dial_known:
  assumes c: "conns_ok sy S g st" and s: "map_of (xc_clients (cs_xc st)) s = Some a"
  shows "XClient_dial nw s (cs_xc st) = (Inr a, cs_xc st)" "a < gh_n g" "gh_addr g a = s"
proof -
  show a: "a < gh_n g" "gh_addr g a = s" using c s by (auto simp: conns_ok_def)
  have "link_inv (sy_ccf sy) (sy_cf sy) (sy_server sy s) (gh_log g a) (gh_taken g a) (link_at st a)"
    using c a by (auto simp: conns_ok_def)
  then have "Client_IsAvailable (xc_heap (cs_xc st) a)" by (auto simp: link_inv_def client_side_def link_at_def)
  then show "XClient_dial nw s (cs_xc st) = (Inr a, cs_xc st)" using s by (simp add: XClient_dial_def)
qed

lemma dial_new:
  assumes "map_of (xc_clients xc) s = None" "reaches nw s"
  shows "XClient_dial nw s xc = (Inr (xc_next xc), xc\<lparr>xc_heap := (xc_heap xc)(xc_next xc := new_client (NewGobCodec (conn_of [])) (nw_heap nw)),
    xc_next := Suc (xc_next xc), xc_clients := AList.update s (xc_next xc) (xc_clients xc)\<rparr>)"
  using assms by (auto simp: XClient_dial_def reaches_def Let_def)

lemma grown_refl [simp]: "grown g g"
  by (simp add: grown_def)

text \<open>The part of the invariant on goroutines and connections.\<close>

definition calls_ok :: "('t, 'd, 'v) calls_sys \<Rightarrow> string set \<Rightarrow> 'v phase list \<Rightarrow> (string \<times> 'v) list \<Rightarrow> ('d, 'v) calls_state \<Rightarrow> bool" where
  "calls_ok sy S jobs0 calls st \<longleftrightarrow> (\<exists>g. conns_ok sy S g st \<and> jobs_ok sy S g jobs0 calls (cs_jobs st))"

lemma jobs_ok_waiting: "jobs_ok sy S g jobs0 calls jobs \<Longrightarrow> k < length calls \<Longrightarrow> jobs ! k = Waiting a i \<Longrightarrow>
    a < gh_n g \<and> i < length (gh_log g a) \<and> i \<notin> gh_taken g a \<and> gh_log g a ! i = calls ! k"
  unfolding jobs_ok_def by (metis job_ok.simps(5))

lemma jobs_ok_length: "jobs_ok sy S g jobs0 calls jobs \<Longrightarrow> length jobs = length calls"
  by (simp add: jobs_ok_def)

text \<open>The connections are the same, with their state changed.\<close>

lemma conns_ok_moved:
  assumes c: "conns_ok sy S g st" and g: "gh_n g' = gh_n g" "gh_addr g' = gh_addr g"
    and x: "xc_next (cs_xc st') = xc_next (cs_xc st)" "xc_clients (cs_xc st') = xc_clients (cs_xc st)"
    and m: "\<And>a. a < gh_n g \<Longrightarrow> gh_addr g a \<in> S \<Longrightarrow>
       link_inv (sy_ccf sy) (sy_cf sy) (sy_server sy (gh_addr g a)) (gh_log g a) (gh_taken g a) (link_at st a) \<Longrightarrow>
       length (gh_log g a) + unsent (cs_jobs st) \<le> length (cs_jobs st) \<Longrightarrow>
       link_inv (sy_ccf sy) (sy_cf sy) (sy_server sy (gh_addr g a)) (gh_log g' a) (gh_taken g' a) (link_at st' a) \<and>
       length (gh_log g' a) + unsent (cs_jobs st') \<le> length (cs_jobs st')"
  shows "conns_ok sy S g' st'"
  using c m unfolding conns_ok_def g x by blast

lemma conns_ok_conn:
  "conns_ok sy S g st \<Longrightarrow> a < gh_n g \<Longrightarrow> gh_addr g a \<in> S \<and> a < xc_next (cs_xc st) \<and>
     link_inv (sy_ccf sy) (sy_cf sy) (sy_server sy (gh_addr g a)) (gh_log g a) (gh_taken g a) (link_at st a) \<and>
     length (gh_log g a) + unsent (cs_jobs st) \<le> length (cs_jobs st)"
  by (simp add: conns_ok_def)

text \<open>A goroutine has got a server from the discovery.\<close>

lemma calls_ok_choose:
  assumes ok: "calls_ok sy S jobs0 calls st" and j: "j < length (cs_jobs st)" "cs_jobs st ! j = Begin" and s: "s \<in> S"
  shows "calls_ok sy S jobs0 calls (job_chosen (d, Inr s) j st)" "calls_work (job_chosen (d, Inr s) j st) < calls_work st"
proof -
  let ?st = "st\<lparr>cs_xc := (cs_xc st)\<lparr>xc_d := d\<rparr>\<rparr>"
  obtain g where c: "conns_ok sy S g st" and jb: "jobs_ok sy S g jobs0 calls (cs_jobs st)" using ok by (auto simp: calls_ok_def)
  have jc: "job_chosen (d, Inr s) j st = set_job j (Chosen s) ?st" by (simp add: job_chosen_def)
  have lk: "link_at ?st = link_at st" by (simp add: link_at_def fun_eq_iff)
  have l: "j < length calls" using j(1) jobs_ok_length [OF jb] by simp
  have "job_ok (sy_server sy) S g (jobs0 ! j) (calls ! j) (cs_jobs st ! j)" using jb l by (simp add: jobs_ok_def)
  then have "jobs0 ! j = Begin" unfolding j(2) by simp
  then have "jobs_ok sy S g jobs0 calls ((cs_jobs st)[j := Chosen s])"
    using s jobs_ok_waiting [OF jb] by (intro jobs_ok_update [OF jb grown_refl l]) (auto simp: may_use_def)
  moreover have "conns_ok sy S g (set_job j (Chosen s) ?st)"
    using unsent_update [OF j(1), of "Chosen s"] j(2) by (intro conns_ok_moved [OF c]) (simp_all add: lk)
  ultimately show "calls_ok sy S jobs0 calls (job_chosen (d, Inr s) j st)" unfolding jc by (auto simp: calls_ok_def)
  have "calls_work ?st = calls_work st" by (simp add: calls_work_def lk)
  then show "calls_work (job_chosen (d, Inr s) j st) < calls_work st"
    unfolding jc using calls_work_job [of j ?st "Chosen s"] j by simp
qed

text \<open>A goroutine has dialled: it uses the connection that is there, or a new one.\<close>

lemma calls_ok_dial_known:
  assumes c: "conns_ok sy S g st" and jb: "jobs_ok sy S g jobs0 calls (cs_jobs st)" and j: "j < length (cs_jobs st)" "cs_jobs st ! j = Chosen s"
    and s: "map_of (xc_clients (cs_xc st)) s = Some a"
  shows "calls_ok sy S jobs0 calls (job_dial sy s j st)" "job_dial sy s j st = set_job j (Dialled a) st"
proof -
  note d = dial_known [OF c s]
  have n: "a \<noteq> xc_next (cs_xc st)" using d(2) c by (simp add: conns_ok_def)
  show jd: "job_dial sy s j st = set_job j (Dialled a) st" using n by (simp add: job_dial_def d(1) set_job_def)
  have l: "j < length calls" using j(1) jobs_ok_length [OF jb] by simp
  have "job_ok (sy_server sy) S g (jobs0 ! j) (calls ! j) (cs_jobs st ! j)" using jb l by (simp add: jobs_ok_def)
  then have "jobs_ok sy S g jobs0 calls ((cs_jobs st)[j := Dialled a])"
    using d(2,3) jobs_ok_waiting [OF jb] j(2) by (intro jobs_ok_update [OF jb grown_refl l]) auto
  moreover have "conns_ok sy S g (set_job j (Dialled a) st)"
    using unsent_update [OF j(1), of "Dialled a"] j(2) by (intro conns_ok_moved [OF c]) simp_all
  ultimately show "calls_ok sy S jobs0 calls (job_dial sy s j st)" unfolding jd by (auto simp: calls_ok_def)
qed

definition new_ghost :: "string \<Rightarrow> 'v ghost \<Rightarrow> 'v ghost" where
  "new_ghost s g = \<lparr>gh_n = Suc (gh_n g), gh_addr = (gh_addr g)(gh_n g := s), gh_log = (gh_log g)(gh_n g := []),
     gh_taken = (gh_taken g)(gh_n g := {})\<rparr>"

lemma calls_ok_dial_new:
  assumes sys: "sys_ok sy S calls" and c: "conns_ok sy S g st" and jb: "jobs_ok sy S g jobs0 calls (cs_jobs st)"
    and j: "j < length (cs_jobs st)" "cs_jobs st ! j = Chosen s" and s: "map_of (xc_clients (cs_xc st)) s = None"
  shows "calls_ok sy S jobs0 calls (job_dial sy s j st)" "calls_work (job_dial sy s j st) = calls_work (set_job j (Dialled 0) st)"
    "xc_d (cs_xc (job_dial sy s j st)) = xc_d (cs_xc st)" "xc_mode (cs_xc (job_dial sy s j st)) = xc_mode (cs_xc st)"
proof -
  let ?n = "xc_next (cs_xc st)" and ?st' = "job_dial sy s j st" and ?g = "new_ghost s g"
  have l: "j < length calls" using j(1) jobs_ok_length [OF jb] by simp
  have "job_ok (sy_server sy) S g (jobs0 ! j) (calls ! j) (cs_jobs st ! j)" using jb l by (simp add: jobs_ok_def)
  then have us: "may_use S (jobs0 ! j) s" unfolding j(2) by simp
  then have sS: "s \<in> S" by (simp add: may_use_def)
  then have "reaches (sy_nw sy) s" using sys by (simp add: sys_ok_def)
  note d = dial_new [OF s this]
  have n: "gh_n g = ?n" using c by (simp add: conns_ok_def)
  let ?l0 = "\<lparr>lk_client = new_client (NewGobCodec (conn_of [])) (nw_heap (sy_nw sy)), lk_serving = serve_init (sy_server sy s) (NewGobCodec (conn_of []))\<rparr>"
  have f: "cs_jobs ?st' = (cs_jobs st)[j := Dialled ?n]" "xc_next (cs_xc ?st') = Suc ?n"
    "xc_clients (cs_xc ?st') = AList.update s ?n (xc_clients (cs_xc st))" "link_at ?st' = (link_at st)(?n := ?l0)"
    by (auto simp: job_dial_def d set_job_def link_at_def fun_eq_iff)
  show "xc_d (cs_xc ?st') = xc_d (cs_xc st)" "xc_mode (cs_xc ?st') = xc_mode (cs_xc st)" by (simp_all add: job_dial_def d)
  have "link_work ?l0 = 0" by (simp add: link_work_def serve_init_def new_client_def)
  moreover have "(\<Sum>a < ?n. link_work (link_at ?st' a)) = (\<Sum>a < ?n. link_work (link_at st a))" by (rule sum.cong) (auto simp: f)
  ultimately show "calls_work ?st' = calls_work (set_job j (Dialled 0) st)"
    by (simp add: calls_work_def f map_update)
  have gr: "grown g ?g" by (simp add: grown_def new_ghost_def)
  have "jobs_ok sy S ?g jobs0 calls ((cs_jobs st)[j := Dialled ?n])"
    using us n jobs_ok_waiting [OF jb] by (intro jobs_ok_update [OF jb gr l]) (auto simp: new_ghost_def)
  moreover have "conns_ok sy S ?g ?st'"
    unfolding conns_ok_def
  proof (intro conjI allI impI)
    have un: "unsent (cs_jobs ?st') = unsent (cs_jobs st)" using unsent_update [OF j(1), of "Dialled ?n"] j(2) by (simp add: f)
    show "gh_n ?g = xc_next (cs_xc ?st')" by (simp add: f new_ghost_def n)
    fix a
    assume "a < gh_n ?g"
    then consider "a = ?n" | "a < ?n" by (force simp: new_ghost_def n less_Suc_eq)
    note case_a = this
    show "gh_addr ?g a \<in> S" by (cases rule: case_a) (use sS c n in \<open>auto simp: new_ghost_def conns_ok_def\<close>)
    show "map_of (xc_clients (cs_xc ?st')) (gh_addr ?g a) = Some a"
      by (cases rule: case_a) (use c n s in \<open>auto simp: new_ghost_def conns_ok_def f update_conv'\<close>)
    show "link_inv (sy_ccf sy) (sy_cf sy) (sy_server sy (gh_addr ?g a)) (gh_log ?g a) (gh_taken ?g a) (link_at ?st' a)"
      by (cases rule: case_a) (use c n in \<open>auto simp: new_ghost_def conns_ok_def f link_init\<close>)
    show "length (gh_log ?g a) + unsent (cs_jobs ?st') \<le> length (cs_jobs ?st')"
      by (cases rule: case_a) (use c n un unsent_le [of "cs_jobs st"] in \<open>auto simp: new_ghost_def conns_ok_def f\<close>)
  next
    fix s' a
    assume "map_of (xc_clients (cs_xc ?st')) s' = Some a"
    then have "(if s' = s then Some ?n else map_of (xc_clients (cs_xc st)) s') = Some a" unfolding f(3) update_conv' fun_upd_def .
    moreover have "map_of (xc_clients (cs_xc st)) s' = Some a \<Longrightarrow> a < ?n \<and> gh_addr g a = s'"
      using c unfolding conns_ok_def n by blast
    ultimately have "a = ?n \<and> s' = s \<or> a < ?n \<and> gh_addr g a = s'" by (cases "s' = s") simp_all
    then show "a < gh_n ?g" "gh_addr ?g a = s'" by (auto simp: new_ghost_def n)
  qed
  ultimately show "calls_ok sy S jobs0 calls ?st'" by (auto simp: calls_ok_def f)
qed

lemma calls_ok_dial:
  assumes sys: "sys_ok sy S calls" and ok: "calls_ok sy S jobs0 calls st" and j: "j < length (cs_jobs st)" "cs_jobs st ! j = Chosen s"
  shows "calls_ok sy S jobs0 calls (job_dial sy s j st)" "calls_work (job_dial sy s j st) < calls_work st"
    "xc_d (cs_xc (job_dial sy s j st)) = xc_d (cs_xc st)" "xc_mode (cs_xc (job_dial sy s j st)) = xc_mode (cs_xc st)"
proof -
  obtain g where c: "conns_ok sy S g st" and jb: "jobs_ok sy S g jobs0 calls (cs_jobs st)" using ok by (auto simp: calls_ok_def)
  have w: "calls_work (set_job j (Dialled a) st) < calls_work st" for a using calls_work_job [OF j(1), of "Dialled a"] j(2) by simp
  show "calls_ok sy S jobs0 calls (job_dial sy s j st)" "calls_work (job_dial sy s j st) < calls_work st"
    "xc_d (cs_xc (job_dial sy s j st)) = xc_d (cs_xc st)" "xc_mode (cs_xc (job_dial sy s j st)) = xc_mode (cs_xc st)"
    using calls_ok_dial_new [OF sys c jb j] calls_ok_dial_known [OF c jb j] w
    by (cases "map_of (xc_clients (cs_xc st)) s"; simp)+
qed

text \<open>A goroutine has started its call.\<close>

lemma calls_ok_go:
  assumes sys: "sys_ok sy S calls" and ok: "calls_ok sy S jobs0 calls st" and j: "j < length (cs_jobs st)" "cs_jobs st ! j = Dialled a"
  shows "\<exists>i lk. link_Go (sy_ccf sy) (fst (calls ! j)) (snd (calls ! j)) (link_at st a) = Some (i, lk)"
    "link_Go (sy_ccf sy) (fst (calls ! j)) (snd (calls ! j)) (link_at st a) = Some (i, lk) \<Longrightarrow>
       calls_ok sy S jobs0 calls (set_job j (Waiting a i) (set_link a lk st)) \<and> calls_work (set_job j (Waiting a i) (set_link a lk st)) < calls_work st"
proof -
  obtain g where c: "conns_ok sy S g st" and jb: "jobs_ok sy S g jobs0 calls (cs_jobs st)" using ok by (auto simp: calls_ok_def)
  have l: "j < length calls" using j(1) jobs_ok_length [OF jb] by simp
  have "job_ok (sy_server sy) S g (jobs0 ! j) (calls ! j) (cs_jobs st ! j)" using jb l by (simp add: jobs_ok_def)
  then have a: "a < gh_n g" "may_use S (jobs0 ! j) (gh_addr g a)" unfolding j(2) by simp_all
  note ca = conns_ok_conn [OF c a(1)]
  have un: "0 < unsent (cs_jobs st)" using unsent_pos [OF j(1)] j(2) by simp
  have cb: "callable (sy_ccf sy) (sy_cf sy) (sy_server sy (gh_addr g a)) (fst (calls ! j), snd (calls ! j))"
    using sys ca l by (auto simp: sys_ok_def)
  have "length (gh_log g a) + 1 \<le> length (cs_jobs st)" using ca un by simp
  then have "length (gh_log g a) + 1 < 2 ^ 63" using jobs_ok_length [OF jb] sys unfolding sys_ok_def by linarith
  from link_Go_inv [OF _ this cb] obtain lk0 where lk0: "link_Go (sy_ccf sy) (fst (calls ! j)) (snd (calls ! j)) (link_at st a) = Some (length (gh_log g a), lk0)"
    "link_inv (sy_ccf sy) (sy_cf sy) (sy_server sy (gh_addr g a)) (gh_log g a @ [calls ! j]) (gh_taken g a) lk0"
    "length (sg_in (lk_serving lk0)) = length (sg_in (lk_serving (link_at st a))) + 2" "cl_in (lk_client lk0) = cl_in (lk_client (link_at st a))"
    "sg_running (lk_serving lk0) = sg_running (lk_serving (link_at st a))"
    using ca by auto
  then show "\<exists>i lk. link_Go (sy_ccf sy) (fst (calls ! j)) (snd (calls ! j)) (link_at st a) = Some (i, lk)" by blast
  assume "link_Go (sy_ccf sy) (fst (calls ! j)) (snd (calls ! j)) (link_at st a) = Some (i, lk)"
  then have i: "i = length (gh_log g a)" "lk = lk0" using lk0(1) by simp_all
  let ?st = "set_job j (Waiting a i) (set_link a lk st)" and ?g = "g\<lparr>gh_log := (gh_log g)(a := gh_log g a @ [calls ! j])\<rparr>"
  have gr: "grown g ?g" by (simp add: grown_def)
  have tk: "gh_taken g a \<subseteq> {0..<length (gh_log g a)}" using ca by (simp add: link_inv_def)
  have "jobs_ok sy S ?g jobs0 calls ((cs_jobs st)[j := Waiting a i])"
    using a i(1) tk jobs_ok_waiting [OF jb] by (intro jobs_ok_update [OF jb gr l]) (auto simp: nth_append)
  moreover have "conns_ok sy S ?g ?st"
    using unsent_update [OF j(1), of "Waiting a i"] j(2) lk0(2) i(2) by (intro conns_ok_moved [OF c]) auto
  moreover have "link_work lk = link_work (link_at st a) + 6" using lk0(3-5) i(2) by (simp add: link_work_def)
  then have "calls_work (set_link a lk st) = calls_work st + 6" using calls_work_link [of a st lk] ca by simp
  then have "calls_work ?st < calls_work st" using calls_work_job [of j "set_link a lk st" "Waiting a i"] j by simp
  ultimately show "calls_ok sy S jobs0 calls ?st \<and> calls_work ?st < calls_work st" by (auto simp: calls_ok_def)
qed

text \<open>A connection has moved on.\<close>

lemma calls_ok_run:
  assumes ok: "calls_ok sy S jobs0 calls st" and a: "a < xc_next (cs_xc st)" and st: "link_step (sy_ccf sy) (untimed (sy_cf sy)) (link_at st a) lk"
  shows "calls_ok sy S jobs0 calls (set_link a lk st)" "calls_work (set_link a lk st) < calls_work st"
proof -
  obtain g where c: "conns_ok sy S g st" and jb: "jobs_ok sy S g jobs0 calls (cs_jobs st)" using ok by (auto simp: calls_ok_def)
  have "a < gh_n g" using a c by (simp add: conns_ok_def)
  then have inv: "link_inv (sy_ccf sy) (sy_cf sy) (sy_server sy (gh_addr g a)) (gh_log g a) (gh_taken g a) (link_at st a)"
    using conns_ok_conn [OF c] by blast
  note s = link_step_inv [OF inv st]
  have "conns_ok sy S g (set_link a lk st)" using s(1) by (intro conns_ok_moved [OF c]) auto
  then show "calls_ok sy S jobs0 calls (set_link a lk st)" using jb by (auto simp: calls_ok_def)
  show "calls_work (set_link a lk st) < calls_work st" using calls_work_link [OF a, of lk] s(2) by simp
qed

text \<open>A goroutine has been told.\<close>

lemma calls_ok_return:
  assumes ok: "calls_ok sy S jobs0 calls st" and j: "j < length (cs_jobs st)" "cs_jobs st ! j = Waiting a i"
  shows "(\<And>lk. \<not> link_step (sy_ccf sy) (untimed (sy_cf sy)) (link_at st a) lk) \<Longrightarrow> link_completed i (link_at st a) \<noteq> None" "a < xc_next (cs_xc st)"
    "link_completed i (link_at st a) = Some (r, lk) \<Longrightarrow>
       calls_ok sy S jobs0 calls (set_job j (Returned r) (set_link a lk st)) \<and> calls_work (set_job j (Returned r) (set_link a lk st)) < calls_work st"
proof -
  obtain g where c: "conns_ok sy S g st" and jb: "jobs_ok sy S g jobs0 calls (cs_jobs st)" using ok by (auto simp: calls_ok_def)
  have l: "j < length calls" using j(1) jobs_ok_length [OF jb] by simp
  have "job_ok (sy_server sy) S g (jobs0 ! j) (calls ! j) (cs_jobs st ! j)" using jb l by (simp add: jobs_ok_def)
  then have w: "a < gh_n g" "may_use S (jobs0 ! j) (gh_addr g a)" "i < length (gh_log g a)" "i \<notin> gh_taken g a" "gh_log g a ! i = calls ! j"
    unfolding j(2) by simp_all
  note ca = conns_ok_conn [OF c w(1)]
  then show "a < xc_next (cs_xc st)" by blast
  have inv: "link_inv (sy_ccf sy) (sy_cf sy) (sy_server sy (gh_addr g a)) (gh_log g a) (gh_taken g a) (link_at st a)" using ca by blast
  show "link_completed i (link_at st a) \<noteq> None" if "\<And>lk. \<not> link_step (sy_ccf sy) (untimed (sy_cf sy)) (link_at st a) lk"
    using link_quiet [OF inv that w(3)] link_completed_inv(1) [OF inv w(3,4)] by blast
  assume r: "link_completed i (link_at st a) = Some (r, lk)"
  note cmp = link_completed_inv(2) [OF inv w(3,4) r]
  let ?st = "set_job j (Returned r) (set_link a lk st)" and ?g = "g\<lparr>gh_taken := (gh_taken g)(a := insert i (gh_taken g a))\<rparr>"
  have gr: "grown g ?g" by (simp add: grown_def)
  have other: "\<not> (jobs0' = Waiting a i)" if "k < length calls" "k \<noteq> j" "cs_jobs st ! k = jobs0'" for k jobs0'
    using that jb j(2) l unfolding jobs_ok_def by metis
  have "jobs_ok sy S ?g jobs0 calls ((cs_jobs st)[j := Returned r])"
    using w(2,5) cmp jobs_ok_waiting [OF jb] other by (intro jobs_ok_update [OF jb gr l]) auto
  moreover have "conns_ok sy S ?g ?st"
    using unsent_update [OF j(1), of "Returned r"] j(2) cmp by (intro conns_ok_moved [OF c]) auto
  moreover have "calls_work (set_link a lk st) = calls_work st" using calls_work_link [of a st lk] ca cmp by simp
  then have "calls_work ?st < calls_work st" using calls_work_job [of j "set_link a lk st" "Returned r"] j by simp
  ultimately show "calls_ok sy S jobs0 calls ?st \<and> calls_work ?st < calls_work st" by (auto simp: calls_ok_def)
qed

subsection \<open>All calls return\<close>

definition start_ok :: "string set \<Rightarrow> 'v phase list \<Rightarrow> bool" where
  "start_ok S jobs \<longleftrightarrow> (\<forall>p \<in> set jobs. p = Begin \<or> (\<exists>s \<in> S. p = Chosen s))"

lemma calls_ok_init:
  assumes "start_ok S jobs" "length jobs = length calls" "xc_clients xc = []" "xc_next xc = 0"
  shows "calls_ok sy S jobs calls (calls_init xc jobs conns)"
proof -
  let ?g = "\<lparr>gh_n = 0, gh_addr = \<lambda>_. [], gh_log = \<lambda>_. [], gh_taken = \<lambda>_. {}\<rparr>"
  have "job_ok (sy_server sy) S ?g (jobs ! j) (calls ! j) (jobs ! j) \<and> jobs ! j \<noteq> Waiting a i" if "j < length calls" for j a i
  proof -
    have "jobs ! j \<in> set jobs" using that assms(2) by simp
    then have "jobs ! j = Begin \<or> (\<exists>s \<in> S. jobs ! j = Chosen s)" using assms(1) unfolding start_ok_def by blast
    then show ?thesis by (auto simp: may_use_def)
  qed
  then have "jobs_ok sy S ?g jobs calls jobs" using assms(2) by (auto simp: jobs_ok_def)
  moreover have "conns_ok sy S ?g (calls_init xc jobs conns)" using assms(3,4) by (simp add: conns_ok_def calls_init_def)
  ultimately show ?thesis by (auto simp: calls_ok_def calls_init_def)
qed

context live_discovery
begin

definition sys_inv :: "('t, 'd, 'v) calls_sys \<Rightarrow> 'v phase list \<Rightarrow> (string \<times> 'v) list \<Rightarrow> ('d, 'v) calls_state \<Rightarrow> bool" where
  "sys_inv sy jobs0 calls st \<longleftrightarrow> ok (xc_d (cs_xc st)) \<and> xc_mode (cs_xc st) = mode \<and> calls_ok sy servers jobs0 calls st"

lemma sys_inv_step:
  assumes sys: "sys_ok sy servers calls" "sy_get sy = get" "sy_times sy = times"
    and inv: "sys_inv sy jobs0 calls st" and st: "atomic_step sy calls st st'"
  shows "sys_inv sy jobs0 calls st' \<and> calls_work st' < calls_work st"
  using st
proof (cases rule: atomic_step.cases)
  case (choose j t r)
  obtain d s where "r = (d, Inr s)" "ok d" "s \<in> servers"
    using get_live [of "xc_d (cs_xc st)" t] choose(4,5) inv sys by (auto simp: sys_inv_def)
  then show ?thesis using calls_ok_choose [of sy servers jobs0 calls st j s d] choose inv
    by (auto simp: sys_inv_def job_chosen_def)
next
  case (dial j s)
  then show ?thesis using calls_ok_dial [OF sys(1), of jobs0 st j s] inv by (simp add: sys_inv_def)
next
  case (go j a i lk)
  then show ?thesis using calls_ok_go [OF sys(1), of jobs0 st j a] inv by (simp add: sys_inv_def)
next
  case (run a lk)
  then show ?thesis using calls_ok_run [of sy servers jobs0 calls st a lk] inv by (simp add: sys_inv_def)
next
  case (return j a i r lk)
  then show ?thesis using calls_ok_return(3) [of sy servers jobs0 calls st j a i r lk] inv by (simp add: sys_inv_def)
qed

lemma sys_quiet:
  assumes sys: "sys_ok sy servers calls" "sy_get sy = get" "sy_times sy = times" "times \<noteq> {}"
    and inv: "sys_inv sy jobs0 calls st" and quiet: "\<And>st'. \<not> atomic_step sy calls st st'" and j: "j < length calls"
  shows "\<exists>s. may_use servers (jobs0 ! j) s \<and> cs_jobs st ! j = Returned (Inr (rpc_result (sy_server sy s) (fst (calls ! j)) (snd (calls ! j))))"
proof -
  have co: "calls_ok sy servers jobs0 calls st" using inv by (simp add: sys_inv_def)
  then have jl: "j < length (cs_jobs st)" using j by (auto simp: calls_ok_def jobs_ok_def)
  obtain g where jb: "job_ok (sy_server sy) servers g (jobs0 ! j) (calls ! j) (cs_jobs st ! j)"
    using co j by (auto simp: calls_ok_def jobs_ok_def)
  show ?thesis
  proof (cases "cs_jobs st ! j")
    case Begin
    obtain t where t: "t \<in> times" using sys(4) by blast
    obtain r where "get t (xc_d (cs_xc st)) mode = Some r" using get_live [OF _ t] inv unfolding sys_inv_def by blast
    then show ?thesis using atomic_step.choose [OF jl Begin, of t sy r calls] t sys inv quiet by (simp add: sys_inv_def)
  next
    case (Chosen s)
    then show ?thesis using atomic_step.dial [OF jl Chosen] quiet by blast
  next
    case (Dialled a)
    then show ?thesis using calls_ok_go(1) [OF sys(1) co jl Dialled] atomic_step.go [OF jl Dialled] quiet by blast
  next
    case (Waiting a i)
    note r = calls_ok_return [OF co jl Waiting]
    have "link_completed i (link_at st a) \<noteq> None" by (rule r(1)) (use atomic_step.run [OF r(2)] quiet in blast)
    then show ?thesis using atomic_step.return [OF jl Waiting] quiet by fastforce
  next
    case (Returned r)
    then show ?thesis using jb by auto
  next
    case (Sending a i p)
    then show ?thesis using jb by simp
  qed
qed

lemma sys_inv_init:
  assumes "start_ok servers jobs" "length jobs = length calls" "xc_clients xc = []" "xc_next xc = 0" "ok (xc_d xc)" "xc_mode xc = mode"
  shows "sys_inv sy jobs calls (calls_init xc jobs conns)"
  using calls_ok_init [OF assms(1-4), of sy conns] assms(5,6) by (simp add: sys_inv_def calls_init_def)

lemma calls_return:
  assumes sys: "sys_ok sy servers calls" "sy_get sy = get" "sy_times sy = times" "times \<noteq> {}" and init: "sys_inv sy jobs calls st0"
  shows "ends_in (atomic_step sy calls) calls_work st0 (\<lambda>st. \<forall>j < length calls. \<exists>s. may_use servers (jobs ! j) s \<and>
     cs_jobs st ! j = Returned (Inr (rpc_result (sy_server sy s) (fst (calls ! j)) (snd (calls ! j)))))"
  by (rule ends_inI [where I = "sys_inv sy jobs calls", OF init])
    (use sys_inv_step [OF sys(1-3)] sys_quiet [OF sys] in blast)+

end

end
