(* ===== verification/Rpc_Sends.thy ===== *)
theory Rpc_Sends
  imports Rpc_Calls
begin

section \<open>Sends that do not overlap\<close>

text \<open>
  The goroutines of \<open>Rpc_Calls\<close> go through \<^verbatim>\<open>send\<close> in pieces. Where no two of them are in \<^verbatim>\<open>send\<close> on the same client, their runs
  implement those in which \<^verbatim>\<open>Go\<close> is a single step: a state in which a goroutine is in \<^verbatim>\<open>send\<close> stands for the one in which it has finished, and
  everything else that happens meanwhile commutes with that. Hence all calls return. Where sends overlap they need not: headers and bodies are mixed up.
\<close>

subsection \<open>More has been sent\<close>

text \<open>The items \<open>its\<close> have gone out from a client's buffer, and have arrived at a server.\<close>

definition flushed :: "'v item list \<Rightarrow> 'v codec \<Rightarrow> 'v codec" where
  "flushed its c = c\<lparr>cd_buf := [], cd_conn := (cd_conn c)\<lparr>cn_out := cn_out (cd_conn c) @ its\<rparr>\<rparr>"

definition fed :: "'v item list \<Rightarrow> 'v codec \<Rightarrow> 'v codec" where
  "fed its c = popped c (cn_in (cd_conn c) @ its)"

definition cl_flushed :: "'v item list \<Rightarrow> 'v client \<Rightarrow> 'v client" where
  "cl_flushed its cl = cl\<lparr>cl_codec := flushed its (cl_codec cl)\<rparr>"

definition sg_fed :: "'v item list \<Rightarrow> 'v serving \<Rightarrow> 'v serving" where
  "sg_fed its s = s\<lparr>sg_codec := fed its (sg_codec s)\<rparr>"

definition push :: "'v item list \<Rightarrow> 'v link \<Rightarrow> 'v link" where
  "push its lk = \<lparr>lk_client = cl_flushed its (lk_client lk), lk_serving = sg_fed its (lk_serving lk)\<rparr>"

lemma push_fields [simp]: "lk_client (push its lk) = cl_flushed its (lk_client lk)" "lk_serving (push its lk) = sg_fed its (lk_serving lk)"
  by (simp_all add: push_def)

lemma cl_flushed_fields [simp]:
  "cl_codec (cl_flushed its cl) = flushed its (cl_codec cl)" "cl_pending (cl_flushed its cl) = cl_pending cl" "cl_heap (cl_flushed its cl) = cl_heap cl"
  "cl_shutdown (cl_flushed its cl) = cl_shutdown cl" "cl_closing (cl_flushed its cl) = cl_closing cl" "cl_blocked (cl_flushed its cl) = cl_blocked cl"
  "Client_IsAvailable (cl_flushed its cl) = Client_IsAvailable cl"
  by (simp_all add: cl_flushed_def Client_IsAvailable_def)

lemma sg_fed_fields [simp]:
  "sg_codec (sg_fed its s) = fed its (sg_codec s)" "sg_server (sg_fed its s) = sg_server s" "sg_running (sg_fed its s) = sg_running s"
  "sg_loop (sg_fed its s) = sg_loop s" "sg_panic (sg_fed its s) = sg_panic s"
  by (simp_all add: sg_fed_def)

lemma codec_fields [simp]:
  "cn_in (cd_conn (flushed its c)) = cn_in (cd_conn c)" "cn_out (cd_conn (flushed its c)) = cn_out (cd_conn c) @ its"
  "cn_in (cd_conn (fed its c)) = cn_in (cd_conn c) @ its" "cn_out (cd_conn (fed its c)) = cn_out (cd_conn c)"
  by (simp_all add: flushed_def fed_def)

text \<open>The server does the same when more has arrived than it needs.\<close>

lemma readRequest_fed: "2 \<le> length (cn_in (cd_conn c)) \<Longrightarrow> readRequest cf srv (fed its c) = apsnd (fed its) (readRequest cf srv c)"
  by (cases "cn_in (cd_conn c)"; cases "tl (cn_in (cd_conn c))")
    (auto simp: readRequest_def readRequestHeader_def gob_ReadHeader_def gob_ReadBody_def dec_header_def dec_value_def dec_next_def fed_def popped_def
      split: item.splits sum.splits)

lemma gob_Write_fed: "gob_Write e h b (fed its c) = apsnd (fed its) (gob_Write e h b c)"
  by (simp add: gob_Write_def enc_item_def buf_Flush_def codec_Close_def fed_def popped_def Let_def)

lemma handleCallError_fed: "handleCallError cf (fed its c) h r = fed its (handleCallError cf c h r)"
  by (cases r) (simp_all add: handleCallError_def sendResponse_def gob_Write_fed)

lemma serve_read_fed: "2 \<le> length (sg_in s) \<Longrightarrow> serve_read cf (sg_fed its s) = sg_fed its (serve_read cf s)"
  by (cases "readRequest cf (sg_server s) (sg_codec s)"; cases "fst (readRequest cf (sg_server s) (sg_codec s))")
    (simp_all add: serve_read_def readRequest_fed sg_fed_def sendResponse_def gob_Write_fed)

lemma handleRequest_fed: "handleRequest cf (sg_fed its s) i r = sg_fed its (handleRequest cf s i r)"
  by (simp add: handleRequest_def handleCallError_fed sg_fed_def Let_def)

lemma server_moves_push: "server_moves (push its lk) (sg_fed its s) = push its (server_moves lk s)"
  by (simp add: server_moves_def push_def cl_flushed_def sg_fed_def flushed_def fed_def popped_def Let_def)

text \<open>The client's loop does not care what has been sent.\<close>

lemma dec_next_flushed: "dec_next (flushed its c) = apsnd (flushed its) (dec_next c)"
  by (simp add: dec_next_def flushed_def split: list.splits)

lemma dec_header_flushed: "dec_header (flushed its c) = apsnd (flushed its) (dec_header c)"
  by (simp add: dec_header_def dec_next_flushed split: prod.splits sum.splits item.splits)

lemma dec_value_flushed: "dec_value f (flushed its c) = apsnd (flushed its) (dec_value f c)"
  by (simp add: dec_value_def dec_next_flushed split: prod.splits sum.splits item.splits)

lemma dec_nil_flushed: "dec_nil (flushed its c) = apsnd (flushed its) (dec_nil c)"
  by (simp add: dec_nil_def dec_next_flushed split: prod.splits sum.splits)

lemma call_flushed:
  "removeCall n (cl_flushed its cl) = apsnd (cl_flushed its) (removeCall n cl)" "upd_call a f (cl_flushed its cl) = cl_flushed its (upd_call a f cl)"
  "Call_done a (cl_flushed its cl) = cl_flushed its (Call_done a cl)"
  by (auto simp: removeCall_def upd_call_def Call_done_def cl_flushed_def split: option.splits)

lemma terminateCalls_flushed: "terminateCalls err (cl_flushed its cl) = cl_flushed its (terminateCalls err cl)"
proof -
  let ?f = "\<lambda>cl (_ :: uint64, a). if cl_blocked cl then cl else Call_done a (upd_call a (\<lambda>c. c\<lparr>ca_Error := err\<rparr>) cl)"
  have "foldl ?f (cl_flushed its cl) ps = cl_flushed its (foldl ?f cl ps)" for ps :: "(uint64 \<times> nat) list" and cl :: "'a client"
    by (induction ps arbitrary: cl) (auto simp: call_flushed)
  moreover have "(cl_flushed its cl)\<lparr>cl_shutdown := True\<rparr> = cl_flushed its (cl\<lparr>cl_shutdown := True\<rparr>)" by (simp add: cl_flushed_def)
  ultimately show ?thesis by (simp add: terminateCalls_def)
qed

lemma receive_round_flushed: "receive_round ccf (cl_flushed its cl) = apsnd (cl_flushed its) (receive_round ccf cl)"
proof -
  have c: "(cl_flushed its cl)\<lparr>cl_codec := flushed its c\<rparr> = cl_flushed its (cl\<lparr>cl_codec := c\<rparr>)" for cl :: "'a client" and c
    by (simp add: cl_flushed_def)
  show ?thesis
    by (simp add: receive_round_def gob_ReadHeader_def gob_ReadBody_def dec_header_flushed dec_value_flushed dec_nil_flushed call_flushed c Let_def
        split: prod.splits sum.splits option.splits)
qed

lemma client_round_flushed: "client_round ccf (cl_flushed its cl) = cl_flushed its (client_round ccf cl)"
  by (simp add: client_round_def receive_round_flushed terminateCalls_flushed split: prod.splits loop_ctl.splits)

lemma client_moves_push:
  "cl_out cl = cl_out (lk_client lk) \<Longrightarrow> client_moves (push its lk) (cl_flushed its cl) = push its (client_moves lk cl)"
  by (simp add: client_moves_quiet push_def)

subsection \<open>The rest of a send\<close>

text \<open>What a goroutine in \<^verbatim>\<open>send\<close> has still to encode, when it goes well, and the link when it has finished.\<close>

definition to_encode :: "sending \<Rightarrow> nat \<Rightarrow> 'v client \<Rightarrow> 'v item list" where
  "to_encode p i cl =
     (case p of Enc_header \<Rightarrow> [Hdr (request_header i cl), Val (ca_Args (cl_heap cl i))] | Enc_body \<Rightarrow> [Val (ca_Args (cl_heap cl i))] | _ \<Rightarrow> [])"

definition goes_well :: "'v client_cfg \<Rightarrow> sending \<Rightarrow> nat \<Rightarrow> 'v client \<Rightarrow> bool" where
  "goes_well ccf p i cl \<longleftrightarrow> p \<in> {Enc_header, Enc_body, Flush_buf None} \<and> cc_encodable ccf (ca_Args (cl_heap cl i)) \<and>
     \<not> cn_closed (cd_conn (cl_codec cl)) \<and> \<not> cn_broken (cd_conn (cl_codec cl))"

definition ahead :: "sending \<Rightarrow> nat \<Rightarrow> 'v link \<Rightarrow> 'v link" where
  "ahead p i lk = push (cd_buf (cl_codec (lk_client lk)) @ to_encode p i (lk_client lk)) lk"

lemma push_Nil: "cd_buf (cl_codec (lk_client lk)) = [] \<Longrightarrow> push [] lk = lk"
  by (simp add: push_def cl_flushed_def sg_fed_def flushed_def fed_def popped_id)

text \<open>A piece brings the goroutine closer to the state that its own stands for.\<close>

lemma link_send_ahead:
  assumes w: "goes_well ccf p i (lk_client lk)" and st: "link_send ccf i p lk = (p', lk')"
  shows "case p' of None \<Rightarrow> lk' = ahead p i lk
    | Some q \<Rightarrow> ahead q i lk' = ahead p i lk \<and> goes_well ccf q i (lk_client lk') \<and> piece_rank q < piece_rank p"
proof -
  obtain cl where cl: "send_piece ccf i p (lk_client lk) = (p', cl)" "lk' = client_moves lk cl"
    using st by (auto simp: link_send_def split: prod.splits)
  show ?thesis
  proof (cases "p = Flush_buf None")
    case True
    then have f: "p' = None" "cl = (lk_client lk)\<lparr>cl_codec := snd (buf_Flush (cl_codec (lk_client lk)))\<rparr>" using cl(1) by auto
    let ?b = "cd_buf (cl_codec (lk_client lk))"
    have c: "snd (buf_Flush (cl_codec (lk_client lk))) = flushed ?b (cl_codec (lk_client lk))"
      using w by (simp add: buf_Flush_def goes_well_def flushed_def)
    have "client_moves lk (cl_flushed ?b (lk_client lk)) = push ?b lk"
      by (simp add: client_moves_def push_def sg_fed_def fed_def Let_def)
    then show ?thesis by (simp add: f cl(2) c ahead_def to_encode_def True cl_flushed_def)
  next
    case False
    then have p: "p = Enc_header \<or> p = Enc_body" "cc_encodable ccf (ca_Args (cl_heap (lk_client lk) i))" using w by (auto simp: goes_well_def)
    then have f: "cl_out cl = cl_out (lk_client lk)" using cl(1) by (auto simp: enc_item_def)
    have lk': "lk' = lk\<lparr>lk_client := cl\<rparr>" using cl(2) client_moves_quiet [OF f] by simp
    show ?thesis using p w cl(1)
      by (auto simp: lk' ahead_def push_def to_encode_def goes_well_def enc_item_def request_header_def cl_flushed_def flushed_def)
  qed
qed

text \<open>Registering a call, and then being alone in \<^verbatim>\<open>send\<close>, is \<^verbatim>\<open>Go\<close>.\<close>

lemma link_register_ahead:
  assumes w: "wire_ok (cl_codec (lk_client lk))" and e: "cc_encodable ccf v" and r: "link_register sm v lk = Some (i, lk')"
  shows "link_Go ccf sm v lk = Some (i, ahead Enc_header i lk')" "goes_well ccf Enc_header i (lk_client lk')"
    "lk_serving lk' = lk_serving lk" "cl_out (lk_client lk') = cl_out (lk_client lk)"
proof -
  obtain cl where cl: "Go_register sm v (Some 1) (lk_client lk) = Some (i, cl)" "lk' = client_moves lk cl"
    using r by (auto simp: link_register_def)
  have f: "cl_codec cl = cl_codec (lk_client lk)" "ca_Args (cl_heap cl i) = v"
    using cl(1) by (auto simp: Go_register_def registerCall_def upd_call_def Let_def)
  have lk': "lk' = lk\<lparr>lk_client := cl\<rparr>" using cl(2) by (simp add: client_moves_quiet f)
  let ?its = "[Hdr (request_header i cl), Val v]"
  have "send_alone ccf i Enc_header cl = cl_flushed ?its cl"
    using w e by (simp add: send_alone.simps enc_item_def buf_Flush_def wire_ok_def f cl_flushed_def flushed_def Let_def)
  then have "Client_Go ccf sm v (Some 1) (lk_client lk) = Some (i, cl_flushed ?its cl)"
    unfolding Client_Go_pieces cl(1) by simp
  moreover have "client_moves lk (cl_flushed ?its cl) = push ?its lk'"
    by (simp add: client_moves_def push_def sg_fed_def fed_def lk' f Let_def)
  ultimately show "link_Go ccf sm v lk = Some (i, ahead Enc_header i lk')"
    using w by (simp add: link_Go_def ahead_def to_encode_def lk' f wire_ok_def)
  show "goes_well ccf Enc_header i (lk_client lk')" using w e by (simp add: goes_well_def lk' f wire_ok_def)
  show "lk_serving lk' = lk_serving lk" "cl_out (lk_client lk') = cl_out (lk_client lk)" by (simp_all add: lk' f)
qed

subsection \<open>Everything else commutes with it\<close>

text \<open>What others do leaves alone what a goroutine in \<^verbatim>\<open>send\<close> uses.\<close>

definition undisturbed :: "'v client \<Rightarrow> 'v client \<Rightarrow> bool" where
  "undisturbed cl cl' \<longleftrightarrow> (\<forall>i. ca_Args (cl_heap cl' i) = ca_Args (cl_heap cl i) \<and> ca_Seq (cl_heap cl' i) = ca_Seq (cl_heap cl i) \<and>
       ca_ServiceMethod (cl_heap cl' i) = ca_ServiceMethod (cl_heap cl i)) \<and>
     (\<exists>its. cl_codec cl' = popped (cl_codec cl) its)"

lemma undisturbed_refl: "undisturbed cl cl"
  unfolding undisturbed_def by (metis popped_id)

lemma undisturbed_trans: "undisturbed cl cl' \<Longrightarrow> undisturbed cl' cl'' \<Longrightarrow> undisturbed cl cl''"
  unfolding undisturbed_def by fastforce

lemma undisturbed_ahead:
  assumes "undisturbed cl cl'"
  shows "to_encode p i cl' = to_encode p i cl" "goes_well ccf p i cl' = goes_well ccf p i cl" "cd_buf (cl_codec cl') = cd_buf (cl_codec cl)"
    "cl_out cl' = cl_out cl"
  using assms by (auto simp: undisturbed_def to_encode_def goes_well_def request_header_def popped_def split: sending.splits)

lemma undisturbed_popped: "undisturbed cl (cl\<lparr>cl_codec := popped (cl_codec cl) its\<rparr>)"
  by (auto simp: undisturbed_def)

lemma undisturbed_call:
  "undisturbed cl (snd (removeCall n cl))" "undisturbed cl (Call_done a cl)"
  "undisturbed cl (upd_call a (\<lambda>c. c\<lparr>ca_Error := e\<rparr>) cl)" "undisturbed cl (upd_call a (\<lambda>c. c\<lparr>ca_Reply := r\<rparr>) cl)"
  "undisturbed cl (upd_call a (\<lambda>c. c\<lparr>ca_chan := ca_chan c - 1\<rparr>) cl)"
  unfolding undisturbed_def removeCall_def Call_done_def upd_call_def by (auto split: option.splits intro: popped_id [symmetric])

lemma dec_undisturbed:
  "\<exists>its. snd (dec_next c) = popped c its" "\<exists>its. snd (dec_header c) = popped c its" "\<exists>its. snd (dec_value f c) = popped c its"
  "\<exists>its. snd (dec_nil c) = popped c its"
proof -
  show n: "\<exists>its. snd (dec_next c) = popped c its" by (auto simp: dec_next_def popped_def split: list.splits intro: popped_id [symmetric, unfolded popped_def])
  show "\<exists>its. snd (dec_header c) = popped c its" "\<exists>its. snd (dec_value f c) = popped c its" "\<exists>its. snd (dec_nil c) = popped c its"
    using n by (auto simp: dec_header_def dec_value_def dec_nil_def split: prod.splits sum.splits item.splits)
qed

lemma undisturbed_codec: "\<exists>its. c = popped (cl_codec cl) its \<Longrightarrow> undisturbed cl (cl\<lparr>cl_codec := c\<rparr>)"
  by (auto simp: undisturbed_def)

lemma receive_round_undisturbed: "undisturbed cl (snd (receive_round ccf cl))"
proof -
  obtain r c where r: "gob_ReadHeader (cl_codec cl) = (r, c)" by fastforce
  have u1: "undisturbed cl (cl\<lparr>cl_codec := c\<rparr>)"
    using dec_undisturbed(2) [of "cl_codec cl"] r by (intro undisturbed_codec) (simp add: gob_ReadHeader_def)
  show ?thesis
  proof (cases r)
    case (Inl err)
    then show ?thesis using u1 by (simp add: receive_round_def r)
  next
    case (Inr h)
    obtain o' cl1 where o': "removeCall (h_Seq h) (cl\<lparr>cl_codec := c\<rparr>) = (o', cl1)" by fastforce
    have u2: "undisturbed cl cl1" using undisturbed_trans [OF u1 undisturbed_call(1) [of _ "h_Seq h"]] o' by simp
    obtain e1 c1 where n: "dec_nil (cl_codec cl1) = (e1, c1)" by fastforce
    obtain e2 c2 where b: "gob_ReadBody (cc_fits ccf) (cl_codec cl1) = (e2, c2)" by fastforce
    have c1: "undisturbed cl (cl1\<lparr>cl_codec := c1\<rparr>)"
      using dec_undisturbed(4) [of "cl_codec cl1"] n by (intro undisturbed_trans [OF u2] undisturbed_codec) simp
    have c2: "undisturbed cl (cl1\<lparr>cl_codec := c2\<rparr>)"
      using dec_undisturbed(3) [of "cc_fits ccf" "cl_codec cl1"] b by (intro undisturbed_trans [OF u2] undisturbed_codec) (simp add: gob_ReadBody_def)
    have swap: "(upd_call a f cl1)\<lparr>cl_codec := c'\<rparr> = upd_call a f (cl1\<lparr>cl_codec := c'\<rparr>)" for a f c' by (simp add: upd_call_def)
    show ?thesis
      by (auto simp: receive_round_def r Inr o' n b swap split: option.splits sum.splits
          intro: c1 undisturbed_trans [OF undisturbed_trans [OF c1 undisturbed_call(3)] undisturbed_call(2)]
            undisturbed_trans [OF undisturbed_trans [OF c2 undisturbed_call(3)] undisturbed_call(2)]
            undisturbed_trans [OF undisturbed_trans [OF c2 undisturbed_call(4)] undisturbed_call(2)])
  qed
qed

lemma terminateCalls_undisturbed: "undisturbed cl (terminateCalls err cl)"
proof -
  let ?f = "\<lambda>cl (_ :: uint64, a). if cl_blocked cl then cl else Call_done a (upd_call a (\<lambda>c. c\<lparr>ca_Error := err\<rparr>) cl)"
  have "undisturbed cl (foldl ?f cl ps)" for ps :: "(uint64 \<times> nat) list" and cl :: "'a client"
  proof (induction ps arbitrary: cl)
    case (Cons p ps)
    have "undisturbed cl (?f cl p)"
      by (auto simp: undisturbed_refl split: prod.splits intro: undisturbed_trans [OF undisturbed_call(3) undisturbed_call(2)])
    from undisturbed_trans [OF this Cons.IH] show ?case by simp
  qed (simp add: undisturbed_refl)
  moreover have "undisturbed cl (cl\<lparr>cl_shutdown := True\<rparr>)" using undisturbed_refl [of cl] by (simp add: undisturbed_def)
  ultimately show ?thesis unfolding terminateCalls_def by (blast intro: undisturbed_trans)
qed

lemma client_round_undisturbed: "undisturbed cl (client_round ccf cl)"
proof -
  obtain c cl' where r: "receive_round ccf cl = (c, cl')" by fastforce
  have "undisturbed cl cl'" using receive_round_undisturbed [of cl ccf] r by simp
  then show ?thesis
    by (cases c) (auto simp: client_round_def r intro: undisturbed_trans [OF _ terminateCalls_undisturbed])
qed

text \<open>A step of the connection, and the return of another call.\<close>

lemma link_step_ahead:
  assumes st: "link_step ccf (untimed cf) lk lk'"
  shows "link_step ccf (untimed cf) (ahead p i lk) (ahead p i lk')" "goes_well ccf' p i (lk_client lk') = goes_well ccf' p i (lk_client lk)"
proof -
  let ?its = "cd_buf (cl_codec (lk_client lk)) @ to_encode p i (lk_client lk)"
  have a: "ahead p i lk' = push ?its lk'" "goes_well ccf' p i (lk_client lk') = goes_well ccf' p i (lk_client lk)"
    if "undisturbed (lk_client lk) (lk_client lk')"
    using undisturbed_ahead [OF that] by (simp_all add: ahead_def)
  have s: "undisturbed (lk_client lk) (lk_client (server_moves lk s))" for s
    using undisturbed_popped by (simp add: server_moves_def Let_def)
  have "link_step ccf (untimed cf) (push ?its lk) (ahead p i lk') \<and> goes_well ccf' p i (lk_client lk') = goes_well ccf' p i (lk_client lk)"
    using st
  proof (cases rule: link_step.cases)
    case serve
    have "server_moves (push ?its lk) (serve_read cf (lk_serving (push ?its lk))) = push ?its lk'"
      using serve by (simp add: serve_read_fed server_moves_push)
    then show ?thesis
      using link_step.serve [of "push ?its lk" ccf "untimed cf"] serve a [OF s [of "serve_read cf (lk_serving lk)", folded serve(1) [unfolded untimed_simps]]]
      by simp
  next
    case (finish k r)
    have "server_moves (push ?its lk) (handleRequest cf (lk_serving (push ?its lk)) k r) = push ?its lk'"
      using finish by (simp add: handleRequest_fed server_moves_push)
    then show ?thesis
      using link_step.finish [of "push ?its lk" k r ccf "untimed cf"] finish a [OF s [of "handleRequest cf (lk_serving lk) k r", folded finish(1) [unfolded untimed_simps]]]
      by simp
  next
    case receive
    note u = client_round_undisturbed [of "lk_client lk" ccf]
    have q: "lk' = lk\<lparr>lk_client := client_round ccf (lk_client lk)\<rparr>"
      unfolding receive(1) by (rule client_moves_quiet) (rule undisturbed_ahead(4) [OF u])
    have "client_moves (push ?its lk) (client_round ccf (lk_client (push ?its lk))) = push ?its lk'"
      unfolding receive(1) by (simp add: client_round_flushed client_moves_push undisturbed_ahead(4) [OF u])
    moreover have "undisturbed (lk_client lk) (lk_client lk')" using u by (simp add: q)
    ultimately show ?thesis using link_step.receive [of "push ?its lk" ccf "untimed cf"] receive(2-4) a by simp
  qed simp
  then show "link_step ccf (untimed cf) (ahead p i lk) (ahead p i lk')" "goes_well ccf' p i (lk_client lk') = goes_well ccf' p i (lk_client lk)"
    by (simp_all add: ahead_def)
qed

lemma link_completed_ahead:
  assumes "link_completed k lk = Some (r, lk')"
  shows "link_completed k (ahead p i lk) = Some (r, ahead p i lk')" "goes_well ccf p i (lk_client lk') = goes_well ccf p i (lk_client lk)"
proof -
  let ?its = "cd_buf (cl_codec (lk_client lk)) @ to_encode p i (lk_client lk)" and ?cl = "upd_call k (\<lambda>c. c\<lparr>ca_chan := ca_chan c - 1\<rparr>) (lk_client lk)"
  note u = undisturbed_call(5) [of "lk_client lk" k]
  have c: "ca_chan (cl_heap (lk_client lk) k) \<noteq> 0" "lk' = client_moves lk ?cl"
    "r = (case ca_Error (cl_heap (lk_client lk) k) of None \<Rightarrow> Inr (ca_Reply (cl_heap ?cl k)) | Some e \<Rightarrow> Inl e)"
    using assms by (auto simp: link_completed_def Call_completed_def simp del: One_nat_def split: if_splits)
  have q: "lk_client lk' = ?cl" unfolding c(2) by (simp add: client_moves_quiet undisturbed_ahead(4) [OF u])
  have m: "client_moves (push ?its lk) (cl_flushed ?its ?cl) = push ?its lk'"
    unfolding c(2) by (rule client_moves_push) (rule undisturbed_ahead(4) [OF u])
  show "link_completed k (ahead p i lk) = Some (r, ahead p i lk')" "goes_well ccf p i (lk_client lk') = goes_well ccf p i (lk_client lk)"
    using c(1,3) m undisturbed_ahead [OF u] 
    by (simp_all add: ahead_def q link_completed_def Call_completed_def call_flushed del: One_nat_def cong: option.case_cong)
qed

subsection \<open>The state that a state stands for\<close>

text \<open>The call of the goroutine that is in \<^verbatim>\<open>send\<close> on the client at \<open>a\<close>, and the piece it has come to.\<close>

primrec sender :: "'v phase list \<Rightarrow> nat \<Rightarrow> (nat \<times> sending) option" where
  "sender [] a = None"
| "sender (ph # ps) a = (case ph of Sending b i p \<Rightarrow> if b = a then Some (i, p) else sender ps a | _ \<Rightarrow> sender ps a)"

definition settled :: "'v phase \<Rightarrow> 'v phase" where
  "settled ph = (case ph of Sending a i p \<Rightarrow> Waiting a i | _ \<Rightarrow> ph)"

definition final_link :: "('d, 'v) calls_state \<Rightarrow> nat \<Rightarrow> 'v link" where
  "final_link st a = (case sender (cs_jobs st) a of None \<Rightarrow> link_at st a | Some (i, p) \<Rightarrow> ahead p i (link_at st a))"

definition settle :: "('d, 'v) calls_state \<Rightarrow> ('d, 'v) calls_state" where
  "settle st = \<lparr>cs_xc = (cs_xc st)\<lparr>xc_heap := \<lambda>a. lk_client (final_link st a)\<rparr>, cs_conns = \<lambda>a. lk_serving (final_link st a),
     cs_jobs = map settled (cs_jobs st), cs_ready = {}\<rparr>"

lemma settle_fields [simp]:
  "cs_jobs (settle st) = map settled (cs_jobs st)" "link_at (settle st) = final_link st" "cs_ready (settle st) = {}"
  "xc_d (cs_xc (settle st)) = xc_d (cs_xc st)" "xc_mode (cs_xc (settle st)) = xc_mode (cs_xc st)" "xc_opt (cs_xc (settle st)) = xc_opt (cs_xc st)"
  "xc_clients (cs_xc (settle st)) = xc_clients (cs_xc st)" "xc_next (cs_xc (settle st)) = xc_next (cs_xc st)"
  by (auto simp: settle_def link_at_def fun_eq_iff)

lemma calls_state_eqI:
  fixes s t :: "('d, 'v) calls_state"
  assumes "cs_jobs s = cs_jobs t" "link_at s = link_at t" "cs_ready s = cs_ready t" "xc_d (cs_xc s) = xc_d (cs_xc t)"
    "xc_mode (cs_xc s) = xc_mode (cs_xc t)" "xc_opt (cs_xc s) = xc_opt (cs_xc t)" "xc_clients (cs_xc s) = xc_clients (cs_xc t)"
    "xc_next (cs_xc s) = xc_next (cs_xc t)"
  shows "s = t"
proof -
  have "xc_heap (cs_xc s) a = xc_heap (cs_xc t) a \<and> cs_conns s a = cs_conns t a" for a
    using fun_cong [OF assms(2), of a] by (simp add: link_at_def)
  then have "xc_heap (cs_xc s) = xc_heap (cs_xc t)" "cs_conns s = cs_conns t" by auto
  with assms show ?thesis by (cases s; cases t; cases "cs_xc s"; cases "cs_xc t") simp
qed

lemma settled_simps [simp]:
  "settled Begin = Begin" "settled (Chosen s) = Chosen s" "settled (Dialled a) = Dialled a" "settled (Waiting a i) = Waiting a i"
  "settled (Returned r) = Returned r" "settled (Sending a i p) = Waiting a i"
  by (simp_all add: settled_def)

lemma sender_None: "sender ps a = None \<longleftrightarrow> (\<forall>i p. Sending a i p \<notin> set ps)"
  by (induction ps) (auto split: phase.splits)

lemma sender_SomeD: "sender ps a = Some (i, p) \<Longrightarrow> Sending a i p \<in> set ps"
  by (induction ps) (auto split: phase.splits if_splits)

lemma sender_is: "sends_apart ps \<Longrightarrow> j < length ps \<Longrightarrow> ps ! j = Sending a i p \<Longrightarrow> sender ps a = Some (i, p)"
proof -
  assume a: "sends_apart ps" "j < length ps" "ps ! j = Sending a i p"
  then have "sender ps a \<noteq> None" by (metis nth_mem sender_None)
  then obtain i' p' where s: "sender ps a = Some (i', p')" by auto
  then obtain k where "k < length ps" "ps ! k = Sending a i' p'" by (metis in_set_conv_nth sender_SomeD)
  then show "sender ps a = Some (i, p)" using a s unfolding sends_apart_def by fastforce
qed

lemma sender_other:
  "(\<And>i p. ps ! j \<noteq> Sending a i p) \<Longrightarrow> (\<And>i p. ph \<noteq> Sending a i p) \<Longrightarrow> sender (ps[j := ph]) a = sender ps a"
proof (induction ps arbitrary: j)
  case (Cons q ps)
  show ?case
  proof (cases j)
    case 0
    then show ?thesis using Cons.prems by (auto split: phase.splits)
  next
    case (Suc k)
    then have "sender (ps[k := ph]) a = sender ps a" using Cons.prems by (intro Cons.IH) auto
    then show ?thesis by (simp add: Suc split: phase.splits)
  qed
qed simp

lemma sender_done: "sends_apart ps \<Longrightarrow> j < length ps \<Longrightarrow> ps ! j = Sending a i p \<Longrightarrow> (\<And>i p. ph \<noteq> Sending a i p) \<Longrightarrow> sender (ps[j := ph]) a = None"
  unfolding sender_None sends_apart_def by (metis in_set_conv_nth length_list_update nth_list_update_eq nth_list_update_neq)

text \<open>The link that the state stands for, at a connection where somebody sends and where nobody does.\<close>

lemma final_link_simps:
  "sender (cs_jobs st) a = None \<Longrightarrow> final_link st a = link_at st a"
  "sender (cs_jobs st) a = Some (i, p) \<Longrightarrow> final_link st a = ahead p i (link_at st a)"
  by (simp_all add: final_link_def)

lemma final_link_upd:
  "link_at st' = (link_at st)(a := lk) \<Longrightarrow> (\<And>b. b \<noteq> a \<Longrightarrow> sender (cs_jobs st') b = sender (cs_jobs st) b) \<Longrightarrow>
   final_link st' = (final_link st)(a := final_link st' a)"
  by (auto simp: fun_eq_iff final_link_def split: option.splits)

text \<open>All who are in \<^verbatim>\<open>send\<close> will succeed.\<close>

definition sends_well :: "'v client_cfg \<Rightarrow> ('d, 'v) calls_state \<Rightarrow> bool" where
  "sends_well ccf st \<longleftrightarrow> sends_apart (cs_jobs st) \<and>
     (\<forall>a i p. sender (cs_jobs st) a = Some (i, p) \<longrightarrow> a < xc_next (cs_xc st) \<and> goes_well ccf p i (xc_heap (cs_xc st) a))"

text \<open>How much the goroutines in \<^verbatim>\<open>send\<close> and the options that have not been read are still to do; all work.\<close>

definition piece_work :: "'v phase \<Rightarrow> nat" where
  "piece_work ph = (case ph of Sending a i p \<Rightarrow> piece_rank p | _ \<Rightarrow> 0)"

definition loose_work :: "('d, 'v) calls_state \<Rightarrow> nat" where
  "loose_work st = sum_list (map piece_work (cs_jobs st)) + card ({..<xc_next (cs_xc st)} - cs_ready st)"

definition fine_work :: "('d, 'v) calls_state \<Rightarrow> nat" where
  "fine_work st = 8 * calls_work (settle st) + loose_work st"

lemma piece_work_simps [simp]:
  "piece_work Begin = 0" "piece_work (Chosen s) = 0" "piece_work (Dialled a) = 0" "piece_work (Waiting a i) = 0"
  "piece_work (Returned r) = 0" "piece_work (Sending a i p) = piece_rank p"
  by (simp_all add: piece_work_def)

subsection \<open>The simulation\<close>

text \<open>What a calm step is for the state that its own state stands for: a step of the specification, or nothing.\<close>

definition refines :: "('t, 'd, 'v) calls_sys \<Rightarrow> (string \<times> 'v) list \<Rightarrow> ('d, 'v) calls_state \<Rightarrow> ('d, 'v) calls_state \<Rightarrow> bool" where
  "refines sy calls st st' \<longleftrightarrow> sends_well (sy_ccf sy) st' \<and>
     (atomic_step sy calls (settle st) (settle st') \<and> loose_work st' < loose_work st + 8 \<or>
      settle st' = settle st \<and> loose_work st' < loose_work st)"

lemma job_chosen_fields:
  "cs_jobs (job_chosen r j st) = (cs_jobs st)[j := case snd r of Inl err \<Rightarrow> Returned (Inl err) | Inr s \<Rightarrow> Chosen s]"
  "link_at (job_chosen r j st) = link_at st" "cs_ready (job_chosen r j st) = cs_ready st" "xc_d (cs_xc (job_chosen r j st)) = fst r"
  "xc_mode (cs_xc (job_chosen r j st)) = xc_mode (cs_xc st)" "xc_opt (cs_xc (job_chosen r j st)) = xc_opt (cs_xc st)"
  "xc_clients (cs_xc (job_chosen r j st)) = xc_clients (cs_xc st)" "xc_next (cs_xc (job_chosen r j st)) = xc_next (cs_xc st)"
  "xc_heap (cs_xc (job_chosen r j st)) = xc_heap (cs_xc st)"
  by (auto simp: job_chosen_def link_at_def fun_eq_iff set_job_def split: sum.splits prod.splits)

lemma final_link_same:
  "link_at st' = link_at st \<Longrightarrow> (\<And>a. sender (cs_jobs st') a = sender (cs_jobs st) a) \<Longrightarrow> final_link st' = final_link st"
  by (rule ext) (simp add: final_link_def split: option.split)

lemma set_more [simp]:
  "cs_ready (set_job j ph st) = cs_ready st" "cs_ready (set_link a lk st) = cs_ready st" "xc_opt (cs_xc (set_link a lk st)) = xc_opt (cs_xc st)"
  "xc_heap (cs_xc (set_link a lk st)) = (xc_heap (cs_xc st))(a := lk_client lk)"
  by (simp_all add: set_job_def set_link_def)

text \<open>The jobs, when one that is not in \<^verbatim>\<open>send\<close> goes on to something else.\<close>

lemma piece_work_update:
  "j < length ps \<Longrightarrow> sum_list (map piece_work (ps[j := ph])) + piece_work (ps ! j) = sum_list (map piece_work ps) + piece_work ph"
  by (rule sum_list_update_less)

lemma refines_choose:
  assumes w: "sends_well (sy_ccf sy) st" and j: "j < length (cs_jobs st)" "cs_jobs st ! j = Begin" and t: "t \<in> sy_times sy"
    "sy_get sy t (xc_d (cs_xc st)) (xc_mode (cs_xc st)) = Some r" and ap: "sends_apart (cs_jobs (job_chosen r j st))"
  shows "refines sy calls st (job_chosen r j st)"
proof -
  let ?st = "job_chosen r j st" and ?ph = "case snd r of Inl err \<Rightarrow> Returned (Inl err) | Inr s \<Rightarrow> Chosen s"
  have ph: "?ph \<noteq> Sending a i p" "settled ?ph = ?ph" "piece_work ?ph = 0" for a i p by (auto split: sum.splits)
  note f = job_chosen_fields [of r j]
  have s: "sender (cs_jobs ?st) a = sender (cs_jobs st) a" for a unfolding f(1) by (rule sender_other) (use j ph(1) in auto)
  have fl: "final_link ?st = final_link st" by (rule final_link_same [OF f(2) s])
  have "settle ?st = job_chosen r j (settle st)"
    by (rule calls_state_eqI) (simp_all add: f fl map_update ph(2))
  then have "atomic_step sy calls (settle st) (settle ?st)" using atomic_step.choose [of j "settle st" t sy r calls] j t by simp
  moreover have "sends_well (sy_ccf sy) ?st" using w ap by (simp add: sends_well_def s f(8,9))
  moreover have "loose_work ?st = loose_work st"
    using piece_work_update [OF j(1), of ?ph] j(2) ph(3) by (simp add: f loose_work_def)
  ultimately show "refines sy calls st ?st" by (simp add: refines_def)
qed

lemma settled_job_ok:
  assumes "jobs_ok sy S g jobs0 calls (cs_jobs (settle st))" "j < length (cs_jobs st)"
  shows "j < length calls" "job_ok (sy_server sy) S g (jobs0 ! j) (calls ! j) (settled (cs_jobs st ! j))"
proof -
  show l: "j < length calls" using assms jobs_ok_length [OF assms(1)] by simp
  have "job_ok (sy_server sy) S g (jobs0 ! j) (calls ! j) (cs_jobs (settle st) ! j)" using assms(1) l unfolding jobs_ok_def by blast
  then show "job_ok (sy_server sy) S g (jobs0 ! j) (calls ! j) (settled (cs_jobs st ! j))" using assms(2) by simp
qed

text \<open>Dialling needs to know of a client only whether it is available.\<close>

lemma final_link_available: "Client_IsAvailable (lk_client (final_link st a)) = Client_IsAvailable (xc_heap (cs_xc st) a)"
  by (simp add: final_link_def ahead_def link_at_def split: option.splits prod.splits)

lemma job_dial_known:
  assumes "map_of (xc_clients (cs_xc st)) s = Some a" "Client_IsAvailable (xc_heap (cs_xc st) a)" "a < xc_next (cs_xc st)"
  shows "job_dial sy s j st = set_job j (Dialled a) st"
  using assms by (simp add: job_dial_def XClient_dial_def set_job_def)

lemma job_dial_new:
  assumes "map_of (xc_clients (cs_xc st)) s = None" "reaches (sy_nw sy) s"
  shows "cs_jobs (job_dial sy s j st) = (cs_jobs st)[j := Dialled (xc_next (cs_xc st))]" "xc_next (cs_xc (job_dial sy s j st)) = Suc (xc_next (cs_xc st))"
    "xc_clients (cs_xc (job_dial sy s j st)) = AList.update s (xc_next (cs_xc st)) (xc_clients (cs_xc st))"
    "link_at (job_dial sy s j st) = (link_at st)(xc_next (cs_xc st) := \<lparr>lk_client = new_client (NewGobCodec (conn_of [])) (nw_heap (sy_nw sy)),
       lk_serving = serve_init (sy_server sy s) (NewGobCodec (conn_of []))\<rparr>)"
    "cs_ready (job_dial sy s j st) = cs_ready st" "xc_d (cs_xc (job_dial sy s j st)) = xc_d (cs_xc st)"
    "xc_mode (cs_xc (job_dial sy s j st)) = xc_mode (cs_xc st)" "xc_opt (cs_xc (job_dial sy s j st)) = xc_opt (cs_xc st)"
    "a \<noteq> xc_next (cs_xc st) \<Longrightarrow> xc_heap (cs_xc (job_dial sy s j st)) a = xc_heap (cs_xc st) a"
  by (auto simp: job_dial_def dial_new [OF assms] set_job_def link_at_def fun_eq_iff)

lemma refines_dial:
  assumes sys: "sys_ok sy S calls" and inv: "calls_ok sy S jobs0 calls (settle st)" and w: "sends_well (sy_ccf sy) st"
    and j: "j < length (cs_jobs st)" "cs_jobs st ! j = Chosen s" and ap: "sends_apart (cs_jobs (job_dial sy s j st))"
  shows "refines sy calls st (job_dial sy s j st)"
proof -
  let ?st = "job_dial sy s j st" and ?n = "xc_next (cs_xc st)"
  have at: "atomic_step sy calls (settle st) (job_dial sy s j (settle st))" using j by (intro atomic_step.dial) simp_all
  obtain g where c: "conns_ok sy S g (settle st)" and jb: "jobs_ok sy S g jobs0 calls (cs_jobs (settle st))" using inv by (auto simp: calls_ok_def)
  have s: "sender ((cs_jobs st)[j := Dialled a]) b = sender (cs_jobs st) b" for a b by (rule sender_other) (use j in auto)
  have pw: "sum_list (map piece_work ((cs_jobs st)[j := Dialled a])) = sum_list (map piece_work (cs_jobs st))" for a
    using piece_work_update [OF j(1), of "Dialled a"] j(2) by simp
  show ?thesis
  proof (cases "map_of (xc_clients (cs_xc st)) s")
    case (Some a)
    then have cs: "map_of (xc_clients (cs_xc (settle st))) s = Some a" by simp
    note d = dial_known [OF c cs]
    have n: "a < ?n" using d(2) c by (simp add: conns_ok_def)
    have "link_inv (sy_ccf sy) (sy_cf sy) (sy_server sy (gh_addr g a)) (gh_log g a) (gh_taken g a) (final_link st a)"
      using conns_ok_conn [OF c d(2)] by simp
    then have av: "Client_IsAvailable (lk_client (final_link st a))" by (auto simp: link_inv_def client_side_def)
    have e: "?st = set_job j (Dialled a) st" "job_dial sy s j (settle st) = set_job j (Dialled a) (settle st)"
      using Some n av by (simp_all add: job_dial_known final_link_available settle_def)
    have "final_link ?st = final_link st" by (rule final_link_same) (simp_all add: e s)
    then have "settle ?st = job_dial sy s j (settle st)"
      by (intro calls_state_eqI) (simp_all add: e map_update)
    moreover have "sends_well (sy_ccf sy) ?st" using w ap by (simp add: sends_well_def e s)
    moreover have "loose_work ?st = loose_work st" by (simp add: loose_work_def e pw)
    ultimately show ?thesis using at by (simp add: refines_def)
  next
    case None
    have "s \<in> S" using settled_job_ok(2) [OF jb j(1)] j(2) by (simp add: may_use_def)
    then have r: "reaches (sy_nw sy) s" using sys by (simp add: sys_ok_def)
    note f = job_dial_new [OF None r, where j = j]
    have "map_of (xc_clients (cs_xc (settle st))) s = None" using None by simp
    note f' = job_dial_new [OF this r, where j = j]
    have sn: "sender (cs_jobs st) ?n = None"
    proof (cases "sender (cs_jobs st) ?n")
      case (Some ip)
      then have "?n < ?n" using w unfolding sends_well_def by (metis surj_pair)
      then show ?thesis by simp
    qed
    have "final_link ?st ?n = link_at ?st ?n" by (rule final_link_simps(1)) (simp add: f(1) s sn)
    then have "final_link ?st = (final_link st)(?n := link_at ?st ?n)"
      using final_link_upd [OF f(4)] by (simp add: f(1) s)
    then have "settle ?st = job_dial sy s j (settle st)"
      by (intro calls_state_eqI) (simp_all add: f f' map_update)
    moreover have "xc_heap (cs_xc ?st) a = xc_heap (cs_xc st) a" if "sender (cs_jobs st) a = Some ip" for a ip
      using that sn by (intro f(9)) auto
    then have "sends_well (sy_ccf sy) ?st" using w ap by (auto simp: sends_well_def f(1,2) s less_Suc_eq)
    moreover have "card ({..<Suc ?n} - cs_ready st) \<le> Suc (card ({..<?n} - cs_ready st))"
    proof -
      have "{..<Suc ?n} - cs_ready st \<subseteq> insert ?n ({..<?n} - cs_ready st)" by auto
      then have "card ({..<Suc ?n} - cs_ready st) \<le> card (insert ?n ({..<?n} - cs_ready st))" by (rule card_mono [rotated]) simp
      then show ?thesis by (simp add: card_insert_if)
    qed
    then have "loose_work ?st < loose_work st + 8" by (simp add: loose_work_def f pw)
    ultimately show ?thesis using at by (simp add: refines_def)
  qed
qed

text \<open>A goroutine has registered its call, or has gone through a piece of \<^verbatim>\<open>send\<close>.\<close>

lemma refines_register:
  assumes sys: "sys_ok sy S calls" and inv: "calls_ok sy S jobs0 calls (settle st)" and w: "sends_well (sy_ccf sy) st"
    and j: "j < length (cs_jobs st)" "cs_jobs st ! j = Dialled a"
    and r: "link_register (fst (calls ! j)) (snd (calls ! j)) (link_at st a) = Some (i, lk)"
    and ap: "sends_apart ((cs_jobs st)[j := Sending a i Enc_header])"
  shows "refines sy calls st (set_job j (Sending a i Enc_header) (set_link a lk st))"
proof -
  let ?st = "set_job j (Sending a i Enc_header) (set_link a lk st)"
  obtain g where c: "conns_ok sy S g (settle st)" and jb: "jobs_ok sy S g jobs0 calls (cs_jobs (settle st))" using inv by (auto simp: calls_ok_def)
  have a: "a < gh_n g" "j < length calls" using settled_job_ok [OF jb j(1)] j(2) by simp_all
  note ca = conns_ok_conn [OF c a(1)]
  have sn: "sender (cs_jobs st) a = None"
    unfolding sender_None
  proof (intro allI notI)
    fix i' p'
    assume "Sending a i' p' \<in> set (cs_jobs st)"
    then obtain k where k: "k < length (cs_jobs st)" "cs_jobs st ! k = Sending a i' p'" by (metis in_set_conv_nth)
    then have "k \<noteq> j" using j by auto
    then show False using ap k j unfolding sends_apart_def by (metis length_list_update nth_list_update_eq nth_list_update_neq)
  qed
  have "link_inv (sy_ccf sy) (sy_cf sy) (sy_server sy (gh_addr g a)) (gh_log g a) (gh_taken g a) (link_at st a)"
    using ca by (simp add: final_link_simps sn)
  then have wi: "wire_ok (cl_codec (lk_client (link_at st a)))" by (auto simp: link_inv_def client_side_def)
  have "callable (sy_ccf sy) (sy_cf sy) (sy_server sy (gh_addr g a)) (fst (calls ! j), snd (calls ! j))"
    using sys ca a(2) by (auto simp: sys_ok_def)
  then have e: "cc_encodable (sy_ccf sy) (snd (calls ! j))" by (simp add: callable_def split: prod.splits)
  note ra = link_register_ahead [OF wi e r]
  have s: "sender ((cs_jobs st)[j := Sending a i Enc_header]) b = (if b = a then Some (i, Enc_header) else sender (cs_jobs st) b)" for b
    using sender_is [OF ap, of j a i Enc_header] sender_other [of "cs_jobs st" j b "Sending a i Enc_header"] j by auto
  have "final_link ?st = (final_link st)(a := ahead Enc_header i lk)"
    using final_link_upd [of ?st st a lk] s by (simp add: final_link_simps)
  then have "settle ?st = set_job j (Waiting a i) (set_link a (ahead Enc_header i lk) (settle st))"
    by (intro calls_state_eqI) (simp_all add: map_update)
  moreover have "atomic_step sy calls (settle st) (set_job j (Waiting a i) (set_link a (ahead Enc_header i lk) (settle st)))"
    using ra(1) j by (intro atomic_step.go) (simp_all add: final_link_simps sn)
  moreover have "a < xc_next (cs_xc st)" using ca by simp
  then have "sends_well (sy_ccf sy) ?st" using w ap ra(2) by (auto simp: sends_well_def s)
  moreover have "loose_work ?st < loose_work st + 8"
    using piece_work_update [OF j(1), of "Sending a i Enc_header"] j(2) by (simp add: loose_work_def)
  ultimately show ?thesis by (simp add: refines_def)
qed

lemma refines_send:
  assumes w: "sends_well (sy_ccf sy) st" and j: "j < length (cs_jobs st)" "cs_jobs st ! j = Sending a i p"
    and r: "link_send (sy_ccf sy) i p (link_at st a) = (p', lk)" and ph: "ph = (case p' of None \<Rightarrow> Waiting a i | Some q \<Rightarrow> Sending a i q)"
    and ap: "sends_apart ((cs_jobs st)[j := ph])"
  shows "refines sy calls st (set_job j ph (set_link a lk st))"
proof -
  let ?st = "set_job j ph (set_link a lk st)"
  have sa: "sends_apart (cs_jobs st)" using w by (simp add: sends_well_def)
  have sn: "sender (cs_jobs st) a = Some (i, p)" by (rule sender_is [OF sa j])
  then have g: "a < xc_next (cs_xc st)" "goes_well (sy_ccf sy) p i (lk_client (link_at st a))" using w by (auto simp: sends_well_def link_at_def)
  note la = link_send_ahead [OF g(2) r]
  have s: "sender ((cs_jobs st)[j := ph]) b = (if b = a then map_option (Pair i) p' else sender (cs_jobs st) b)" for b
  proof (cases "b = a")
    case True
    then show ?thesis using sender_is [OF ap, of j a i] sender_done [OF sa j, of ph] j(1) by (cases p') (auto simp: ph)
  next
    case False
    then show ?thesis using sender_other [of "cs_jobs st" j b ph] j by (auto simp: ph split: option.splits)
  qed
  have "link_at ?st a = lk" by simp
  then have "final_link ?st a = final_link st a" unfolding final_link_def set_simps s using la sn by (cases p') simp_all
  then have "final_link ?st = final_link st" using final_link_upd [of ?st st a lk] s by auto
  moreover have "map settled ((cs_jobs st)[j := ph]) = map settled (cs_jobs st)"
  proof -
    have "settled ph = map settled (cs_jobs st) ! j" using j by (simp add: ph split: option.split)
    then show ?thesis by (simp add: map_update)
  qed
  ultimately have "settle ?st = settle st" by (intro calls_state_eqI) simp_all
  moreover have "sends_well (sy_ccf sy) ?st"
    using w ap la g(1) by (auto simp: sends_well_def s split: option.splits if_splits)
  moreover have "piece_work ph < piece_rank p" using la by (cases p; cases p') (auto simp: ph)
  then have "loose_work ?st < loose_work st" using piece_work_update [OF j(1), of ph] j(2) by (simp add: loose_work_def)
  ultimately show ?thesis by (simp add: refines_def)
qed

text \<open>The options have been read, with nothing lost.\<close>

lemma refines_options:
  assumes w: "sends_well (sy_ccf sy) st" and a: "a < xc_next (cs_xc st)" "a \<notin> cs_ready st"
  shows "refines sy calls st (options_read a 0 st)"
proof -
  let ?st = "options_read a 0 st"
  have f: "cs_jobs ?st = cs_jobs st" "link_at ?st = link_at st" "cs_xc ?st = cs_xc st" "cs_ready ?st = insert a (cs_ready st)"
    by (auto simp: options_read_def link_at_def fun_eq_iff popped_id Let_def)
  have "final_link ?st = final_link st" by (rule final_link_same [OF f(2)]) (simp add: f)
  then have "settle ?st = settle st" by (intro calls_state_eqI) (simp_all add: f)
  moreover have "sends_well (sy_ccf sy) ?st" using w by (simp add: sends_well_def f)
  moreover have "card ({..<xc_next (cs_xc st)} - insert a (cs_ready st)) < card ({..<xc_next (cs_xc st)} - cs_ready st)"
    by (rule psubset_card_mono) (use a in auto)
  then have "loose_work ?st < loose_work st" by (simp add: loose_work_def f)
  ultimately show ?thesis by (simp add: refines_def)
qed

text \<open>A connection has moved on, or a goroutine has been told.\<close>

lemma final_link_moved:
  assumes w: "sends_well ccf st" and s: "\<And>b. sender (cs_jobs st') b = sender (cs_jobs st) b" and l: "link_at st' = (link_at st)(a := lk)"
    and x: "xc_next (cs_xc st') = xc_next (cs_xc st)" "sends_apart (cs_jobs st')"
    and g: "\<And>i p. sender (cs_jobs st) a = Some (i, p) \<Longrightarrow> goes_well ccf p i (lk_client lk) = goes_well ccf p i (lk_client (link_at st a))"
  shows "final_link st' = (final_link st)(a := case sender (cs_jobs st) a of None \<Rightarrow> lk | Some (i, p) \<Rightarrow> ahead p i lk)" "sends_well ccf st'"
proof -
  have "final_link st' a = (case sender (cs_jobs st) a of None \<Rightarrow> lk | Some (i, p) \<Rightarrow> ahead p i lk)"
    by (simp add: final_link_def s l split: option.split)
  then show "final_link st' = (final_link st)(a := case sender (cs_jobs st) a of None \<Rightarrow> lk | Some (i, p) \<Rightarrow> ahead p i lk)"
    using final_link_upd [OF l s] by simp
  have h: "xc_heap (cs_xc st') b = (if b = a then lk_client lk else xc_heap (cs_xc st) b)" for b
    using arg_cong [OF fun_cong [OF l, of b], of lk_client] by (simp add: link_at_def split: if_splits)
  show "sends_well ccf st'" using w x g by (auto simp: sends_well_def s h link_at_def)
qed

lemma refines_run:
  assumes w: "sends_well (sy_ccf sy) st" and a: "a < xc_next (cs_xc st)"
    and st: "link_step (sy_ccf sy) (untimed (sy_cf sy)) (link_at st a) lk" and rd: "a \<in> cs_ready st"
  shows "refines sy calls st (set_link a lk st)"
proof -
  let ?st = "set_link a lk st" and ?lk = "case sender (cs_jobs st) a of None \<Rightarrow> lk | Some (i, p) \<Rightarrow> ahead p i lk"
  note m = final_link_moved [OF w, of ?st a lk]
  have f: "final_link ?st = (final_link st)(a := ?lk)" "sends_well (sy_ccf sy) ?st"
    using m link_step_ahead(2) [OF st] w by (simp_all add: sends_well_def)
  have "link_step (sy_ccf sy) (untimed (sy_cf sy)) (final_link st a) ?lk"
    using st link_step_ahead(1) [OF st] by (simp add: final_link_def split: option.split)
  then have "atomic_step sy calls (settle st) (set_link a ?lk (settle st))" using a by (intro atomic_step.run) simp_all
  moreover have "settle ?st = set_link a ?lk (settle st)" by (rule calls_state_eqI) (simp_all add: f(1))
  moreover have "loose_work ?st = loose_work st" by (simp add: loose_work_def)
  ultimately show ?thesis using f(2) by (simp add: refines_def)
qed

lemma refines_return:
  assumes w: "sends_well (sy_ccf sy) st" and j: "j < length (cs_jobs st)" "cs_jobs st ! j = Waiting a i"
    and r: "link_completed i (link_at st a) = Some (r, lk)" and ap: "sends_apart ((cs_jobs st)[j := Returned r])"
  shows "refines sy calls st (set_job j (Returned r) (set_link a lk st))"
proof -
  let ?st = "set_job j (Returned r) (set_link a lk st)" and ?lk = "case sender (cs_jobs st) a of None \<Rightarrow> lk | Some (i, p) \<Rightarrow> ahead p i lk"
  have s: "sender (cs_jobs ?st) b = sender (cs_jobs st) b" for b using sender_other [of "cs_jobs st" j b "Returned r"] j by simp
  have f: "final_link ?st = (final_link st)(a := ?lk)" "sends_well (sy_ccf sy) ?st"
    using final_link_moved [OF w s, of a lk] link_completed_ahead(2) [OF r] ap by simp_all
  have "link_completed i (final_link st a) = Some (r, ?lk)"
    using r link_completed_ahead(1) [OF r] by (simp add: final_link_def split: option.split)
  then have "atomic_step sy calls (settle st) (set_job j (Returned r) (set_link a ?lk (settle st)))"
    using j by (intro atomic_step.return [where i = i]) simp_all
  moreover have "settle ?st = set_job j (Returned r) (set_link a ?lk (settle st))" by (rule calls_state_eqI) (simp_all add: f(1) map_update)
  moreover have "loose_work ?st = loose_work st"
    using piece_work_update [OF j(1), of "Returned r"] j(2) by (simp add: loose_work_def)
  ultimately show ?thesis using f(2) by (simp add: refines_def)
qed

text \<open>Every calm step refines.\<close>

lemma calm_refines:
  assumes sys: "sys_ok sy S calls" and inv: "calls_ok sy S jobs0 calls (settle st)" and w: "sends_well (sy_ccf sy) st" and st: "calm_step sy calls st st'"
  shows "refines sy calls st st'"
proof -
  have ap: "sends_apart (cs_jobs st')" using st by (simp add: calm_step_def)
  obtain ev where ev: "calls_step sy calls ev st st'" "ev = Calm \<or> ev = Options_read 0" using st by (auto simp: calm_step_def)
  from ev(1) show ?thesis
  proof (cases rule: calls_step.cases)
    case (choose j t r)
    then show ?thesis using refines_choose [OF w, of j t r] ap by simp
  next
    case (dial j s)
    then show ?thesis using refines_dial [OF sys inv w] ap by simp
  next
    case (register j a i lk)
    then show ?thesis using refines_register [OF sys inv w] ap by simp
  next
    case (send j a i p p' lk)
    then show ?thesis using refines_send [OF w send(3-5) refl] ap by simp
  next
    case (options a n)
    then show ?thesis using refines_options [OF w] ev(2) by simp
  next
    case (run a lk)
    then show ?thesis using refines_run [OF w] by simp
  next
    case (timeout a i)
    then show ?thesis using ev(2) by simp
  next
    case (return j a i r lk)
    then show ?thesis using refines_return [OF w] ap by simp
  qed
qed

subsection \<open>When nothing can move\<close>

lemma sends_apart_update:
  assumes "sends_apart ps" "\<And>a i p. ph = Sending a i p \<Longrightarrow> sender ps a = None \<or> (\<exists>i' p'. ps ! j = Sending a i' p')"
  shows "sends_apart (ps[j := ph])"
proof -
  have no: "ph \<noteq> Sending a i p" if "k < length ps" "k \<noteq> j" "j < length ps" "ps ! k = Sending a i' p'" for k a i p i' p'
    using assms that unfolding sends_apart_def by (metis nth_mem sender_None)
  show ?thesis
    unfolding sends_apart_def length_list_update
  proof (intro allI impI)
    fix x y a i i' p p'
    assume "x < length ps" "y < length ps" "ps[j := ph] ! x = Sending a i p" "ps[j := ph] ! y = Sending a i' p'"
    then show "x = y" using assms(1) no [of x a i p] no [of y a i' p'] no [of x a i p i' p'] unfolding sends_apart_def
      by (cases "x = j"; cases "y = j") (auto dest: no)
  qed
qed

lemma calm_no_senders:
  assumes ap: "sends_apart (cs_jobs st)" and quiet: "\<And>st'. \<not> calm_step sy calls st st'" and j: "j < length (cs_jobs st)"
  shows "cs_jobs st ! j \<noteq> Sending a i p"
proof
  assume s: "cs_jobs st ! j = Sending a i p"
  obtain p' lk where l: "link_send (sy_ccf sy) i p (link_at st a) = (p', lk)" by fastforce
  let ?ph = "case p' of None \<Rightarrow> Waiting a i | Some q \<Rightarrow> Sending a i q"
  have "sends_apart ((cs_jobs st)[j := ?ph])" by (rule sends_apart_update [OF ap]) (use s in \<open>auto split: option.splits\<close>)
  then have "calm_step sy calls st (set_job j ?ph (set_link a lk st))"
    using calls_step.send [OF j s l, of calls] unfolding calm_step_def by simp
  then show False using quiet by blast
qed

lemma calm_quiet:
  assumes ap: "sends_apart (cs_jobs st)" and quiet: "\<And>st'. \<not> calm_step sy calls st st'"
  shows "\<not> atomic_step sy calls (settle st) st'"
proof
  note no = calm_no_senders [OF ap quiet]
  have sn: "sender (cs_jobs st) a = None" for a using no unfolding sender_None in_set_conv_nth by blast
  have fl: "final_link st = link_at st" by (rule ext) (simp add: final_link_simps sn)
  have jb: "map settled (cs_jobs st) = cs_jobs st"
    by (rule map_idI) (use no in \<open>auto simp: settled_def in_set_conv_nth split: phase.splits\<close>)
  have up: "sends_apart ((cs_jobs st)[j := ph])" for j ph by (rule sends_apart_update [OF ap]) (simp add: sn)
  have calm: "\<not> calls_step sy calls Calm st st2" "\<not> calls_step sy calls (Options_read 0) st st2" if "cs_jobs st2 = (cs_jobs st)[j := ph]" for st2 j ph
    using quiet [of st2] up [of j ph] that by (auto simp: calm_step_def)
  have calm': "\<not> calls_step sy calls Calm st st2" "\<not> calls_step sy calls (Options_read 0) st st2" if "cs_jobs st2 = cs_jobs st" for st2
    using quiet [of st2] ap that by (auto simp: calm_step_def)
  assume "atomic_step sy calls (settle st) st'"
  then show False
  proof (cases rule: atomic_step.cases)
    case (choose j t r)
    then show ?thesis using calls_step.choose [of j st t sy r calls] calm(1) [OF job_chosen_fields(1)] by (simp add: jb)
  next
    case (dial j s)
    have "\<exists>ph. cs_jobs (job_dial sy s j st) = (cs_jobs st)[j := ph]"
      by (auto simp: job_dial_def set_job_def split: prod.splits sum.splits)
    then show ?thesis using calls_step.dial [of j st s sy calls] calm(1) dial by (auto simp: jb)
  next
    case (go j a i lk)
    then obtain lk' where "link_register (fst (calls ! j)) (snd (calls ! j)) (link_at st a) = Some (i, lk')"
      by (auto simp: fl link_Go_def link_register_def Client_Go_pieces)
    then show ?thesis using calls_step.register [of j st a calls i lk' sy] go calm(1) by (simp add: jb)
  next
    case (run a lk)
    have "a \<in> cs_ready st"
    proof (rule ccontr)
      assume "a \<notin> cs_ready st"
      moreover have "cs_jobs (options_read a 0 st) = cs_jobs st" by (simp add: options_read_def Let_def)
      ultimately show False using calls_step.options [of a st 0 sy calls] run calm'(2) by simp
    qed
    then show ?thesis using calls_step.run [of a st sy lk calls] run calm'(1) by (simp add: fl)
  next
    case (return j a i r lk)
    then show ?thesis using calls_step.return [of j st a i r lk sy calls] calm(1) by (simp add: fl jb)
  qed
qed

subsection \<open>All calls return\<close>

lemma settle_init:
  assumes "start_ok S jobs"
  shows "settle (calls_init xc jobs conns) = calls_init xc jobs conns" "sends_well ccf (calls_init xc jobs conns)"
proof -
  have no: "Sending a i p \<notin> set jobs" for a i p using assms by (force simp: start_ok_def)
  then have sn: "sender jobs a = None" for a by (simp add: sender_None)
  have j: "map settled jobs = jobs"
    by (rule map_idI) (use assms in \<open>auto simp: start_ok_def\<close>)
  have "final_link (calls_init xc jobs conns) = link_at (calls_init xc jobs conns)"
    by (rule ext) (simp add: final_link_def calls_init_def sn)
  then show "settle (calls_init xc jobs conns) = calls_init xc jobs conns"
    by (intro calls_state_eqI) (simp_all add: calls_init_def j)
  have "sends_apart jobs" using no unfolding sends_apart_def by (metis nth_mem)
  then show "sends_well ccf (calls_init xc jobs conns)" by (simp add: sends_well_def calls_init_def sn)
qed

context live_discovery
begin

text \<open>The invariant of the calm runs.\<close>

definition calm_inv :: "('t, 'd, 'v) calls_sys \<Rightarrow> 'v phase list \<Rightarrow> (string \<times> 'v) list \<Rightarrow> ('d, 'v) calls_state \<Rightarrow> bool" where
  "calm_inv sy jobs0 calls st \<longleftrightarrow> sys_inv sy jobs0 calls (settle st) \<and> sends_well (sy_ccf sy) st"

lemma calm_inv_step:
  assumes sys: "sys_ok sy servers calls" "sy_get sy = get" "sy_times sy = times"
    and inv: "calm_inv sy jobs0 calls st" and st: "calm_step sy calls st st'"
  shows "calm_inv sy jobs0 calls st' \<and> fine_work st' < fine_work st"
proof -
  have si: "sys_inv sy jobs0 calls (settle st)" and w: "sends_well (sy_ccf sy) st" using inv by (simp_all add: calm_inv_def)
  have co: "calls_ok sy servers jobs0 calls (settle st)" using si by (simp add: sys_inv_def)
  have "refines sy calls st st'" by (rule calm_refines [OF sys(1) co w st])
  then show ?thesis using sys_inv_step [OF sys si, of "settle st'"] si by (auto simp: refines_def calm_inv_def fine_work_def)
qed

lemma calm_calls_return:
  assumes sys: "sys_ok sy servers calls" "sy_get sy = get" "sy_times sy = times" "times \<noteq> {}" and init: "calm_inv sy jobs calls st0"
  shows "ends_in (calm_step sy calls) fine_work st0 (\<lambda>st. \<forall>j < length calls. \<exists>s. may_use servers (jobs ! j) s \<and>
     cs_jobs st ! j = Returned (Inr (rpc_result (sy_server sy s) (fst (calls ! j)) (snd (calls ! j)))))"
proof (rule ends_inI [where I = "calm_inv sy jobs calls", OF init])
  fix st st' assume "calm_inv sy jobs calls st" "calm_step sy calls st st'"
  then show "calm_inv sy jobs calls st' \<and> fine_work st' < fine_work st" by (rule calm_inv_step [OF sys(1-3)])
next
  fix st assume inv: "calm_inv sy jobs calls st" and quiet: "\<forall>st'. \<not> calm_step sy calls st st'"
  have si: "sys_inv sy jobs calls (settle st)" and ap: "sends_apart (cs_jobs st)" using inv by (simp_all add: calm_inv_def sends_well_def)
  note q = calm_quiet [OF ap quiet [rule_format]]
  have "\<exists>s. may_use servers (jobs ! j) s \<and> cs_jobs st ! j = Returned (Inr (rpc_result (sy_server sy s) (fst (calls ! j)) (snd (calls ! j))))"
    if j: "j < length calls" for j
  proof -
    obtain s where s: "may_use servers (jobs ! j) s"
      "cs_jobs (settle st) ! j = Returned (Inr (rpc_result (sy_server sy s) (fst (calls ! j)) (snd (calls ! j))))"
      using sys_quiet [OF sys si q j] by blast
    have "j < length (cs_jobs st)" using si j by (auto simp: sys_inv_def calls_ok_def dest: jobs_ok_length)
    then show ?thesis using s by (auto simp: settled_def split: phase.splits)
  qed
  then show "\<forall>j < length calls. \<exists>s. may_use servers (jobs ! j) s \<and>
     cs_jobs st ! j = Returned (Inr (rpc_result (sy_server sy s) (fst (calls ! j)) (snd (calls ! j))))" by blast
qed

lemma calm_inv_init:
  assumes "start_ok servers jobs" "length jobs = length calls" "xc_clients xc = []" "xc_next xc = 0" "ok (xc_d xc)" "xc_mode xc = mode"
  shows "calm_inv sy jobs calls (calls_init xc jobs conns)"
  unfolding calm_inv_def settle_init(1) [OF assms(1)]
  by (rule conjI [OF sys_inv_init [OF assms] settle_init(2) [OF assms(1)]])

end

end
