(* ===== verification/Rpc_Returns.thy ===== *)
theory Rpc_Returns
  imports Rpc_Sends
begin

section \<open>Which calls return\<close>

text \<open>
  The discoveries that always have a server to offer, so that calls through them return when sends do not overlap; and a run in
  which two sends overlap, where one call fails and the other returns as if nothing was wrong, without a reply.
\<close>

subsection \<open>The discoveries that always have a server\<close>

text \<open>What is used of the random number generator.\<close>

definition draws :: "'r intn \<Rightarrow> bool" where
  "draws intn \<longleftrightarrow> (\<forall>n r. 0 < n \<longrightarrow> 0 \<le> fst (intn n r) \<and> fst (intn n r) < n)"

lemma ms_Get_random:
  assumes "draws intn" "ms_servers d \<noteq> []"
  shows "\<exists>d' s. ms_Get intn d RandomSelect = Some (d', Inr s) \<and> ms_servers d' = ms_servers d \<and> s \<in> set (ms_servers d)"
proof -
  obtain k r' where k: "intn (int (length (ms_servers d))) (ms_r d) = (k, r')" by fastforce
  moreover have "0 < int (length (ms_servers d))" using assms(2) by simp
  then have "0 \<le> k" "k < int (length (ms_servers d))" using assms(1) k unfolding draws_def by (metis fst_conv)+
  ultimately show ?thesis using assms(2) by (auto simp: ms_Get_def go_index_def)
qed

text \<open>A list of servers that is given.\<close>

definition md_live :: "'r intn \<Rightarrow> string list \<Rightarrow> 'r multi_disc \<Rightarrow> bool" where
  "md_live intn servers d \<longleftrightarrow> draws intn \<and> servers \<noteq> [] \<and> ms_servers d = servers"

interpretation mdl: live_discovery "\<lambda>_ :: unit. ms_Get intn" RandomSelect UNIV "md_live intn servers" "set servers"
  by unfold_locales (use ms_Get_random in \<open>fastforce simp: md_live_def\<close>)

text \<open>The list of a registry that is asked over HTTP: nobody's lease ends in the time \<open>window\<close> in which the discovery may ask.\<close>

definition registry_get :: "int \<Rightarrow> registry header_client" where
  "registry_get now url r = (let (r', rs) = rg_ServeHTTP r now ''GET'' '''' in (Inr (rs_header rs), r'))"

definition registry_steady :: "int set \<Rightarrow> string list \<Rightarrow> registry \<Rightarrow> bool" where
  "registry_steady window servers reg \<longleftrightarrow> servers \<noteq> [] \<and> list_all clean_addr servers \<and>
     (\<forall>t \<in> window. rg_aliveServers reg t = (reg, servers))"

definition gd_live :: "'r intn \<Rightarrow> int set \<Rightarrow> string list \<Rightarrow> 'r gee_disc \<times> registry \<Rightarrow> bool" where
  "gd_live intn window servers = (\<lambda>(d, reg). draws intn \<and> registry_steady window servers reg \<and>
     (gd_lastUpdate d = None \<or> ms_servers (gd_multi d) = servers))"

text \<open>\<^verbatim>\<open>Get\<close> at the time \<open>t\<close>, the response being there at \<open>t'\<close>.\<close>

definition gd_get_at :: "'r intn \<Rightarrow> int \<times> int \<Rightarrow> 'r gee_disc \<times> registry \<Rightarrow> int \<Rightarrow> (('r gee_disc \<times> registry) \<times> (string + string)) option" where
  "gd_get_at intn = (\<lambda>(t, t'). gd_get intn (registry_get t) t t')"

lemma gd_Refresh_live:
  assumes l: "gd_live intn window servers (d, reg)" and t: "t \<in> window"
  shows "\<exists>d'. gd_Refresh (registry_get t) d t t' reg = (d', None, reg) \<and> ms_servers (gd_multi d') = servers"
proof (cases "case gd_lastUpdate d of None \<Rightarrow> False | Some u \<Rightarrow> u + gd_timeout d > t")
  case True
  then have "ms_servers (gd_multi d) = servers" using l by (auto simp: gd_live_def split: option.splits)
  then show ?thesis using True by (auto simp: gd_Refresh_def split: option.splits)
next
  case False
  have "rg_ServeHTTP reg t ''GET'' '''' = (reg, \<lparr>rs_code = 200, rs_header = [(''X-Rpc-Servers'', strings_Join servers '','')], rs_body = []\<rparr>)"
    using l t by (simp add: gd_live_def registry_steady_def rg_ServeHTTP_def)
  moreover have "gd_collect (strings_Split (strings_Join servers '','') CHR '','') [] = servers"
    using l by (intro gd_collect_Join) (simp add: gd_live_def registry_steady_def)
  ultimately show ?thesis using False by (simp add: gd_Refresh_def registry_get_def header_get_def)
qed

interpretation gdl: live_discovery "gd_get_at intn" RandomSelect "window \<times> UNIV" "gd_live intn window servers" "set servers"
proof (unfold_locales, goal_cases)
  case (1 dr tt)
  obtain d reg t t' where p: "dr = (d, reg)" "tt = (t, t')" "t \<in> window" using 1(2) by (cases dr; cases tt) auto
  have l: "draws intn" "registry_steady window servers reg" using 1(1) by (simp_all add: p gd_live_def)
  obtain d' where d': "gd_Refresh (registry_get t) d t t' reg = (d', None, reg)" "ms_servers (gd_multi d') = servers"
    using gd_Refresh_live [OF _ p(3)] 1(1) p(1) by blast
  obtain m s where "ms_Get intn (gd_multi d') RandomSelect = Some (m, Inr s)" "ms_servers m = servers" "s \<in> set servers"
    using ms_Get_random [OF l(1), of "gd_multi d'"] l(2) d'(2) by (auto simp: registry_steady_def)
  then show ?case using d' l by (auto simp: p gd_get_at_def gd_get_def gd_Get_def gd_live_def)
qed

subsection \<open>Sends that overlap\<close>

text \<open>Two calls on a new connection: both are registered, both headers are encoded before both bodies, and the buffer is flushed. The server reads
  the second header as the body of the first request and reports that; the client gives the error to the first call and ends all
  others.\<close>

definition fresh_link :: "'v server \<Rightarrow> (nat \<Rightarrow> 'v rpc_call) \<Rightarrow> 'v link" where
  "fresh_link srv heap = \<lparr>lk_client = new_client (NewGobCodec (conn_of [])) heap, lk_serving = serve_init srv (NewGobCodec (conn_of []))\<rparr>"

lemma overlap_link:
  assumes c: "callable ccf cf srv (sm1, v1)" "callable ccf cf srv (sm2, v2)"
  obtains lk1 lk2 lk3 lk4 lk5 lk6 lk7 lk8 lk9 lk10 lk11 lk12 where
    "link_register sm1 v1 (fresh_link srv heap) = Some (0, lk1)" "link_register sm2 v2 lk1 = Some (1, lk2)"
    "link_send ccf 0 Enc_header lk2 = (Some Enc_body, lk3)" "link_send ccf 1 Enc_header lk3 = (Some Enc_body, lk4)"
    "link_send ccf 0 Enc_body lk4 = (Some (Flush_buf None), lk5)" "link_send ccf 1 Enc_body lk5 = (Some (Flush_buf None), lk6)"
    "link_send ccf 0 (Flush_buf None) lk6 = (None, lk7)" "link_send ccf 1 (Flush_buf None) lk7 = (None, lk8)"
    "link_step ccf (untimed cf) lk8 lk9" "link_step ccf (untimed cf) lk9 lk10"
    "link_completed 0 lk10 = Some (Inl err_mismatch, lk11)" "link_completed 1 lk11 = Some (Inr None, lk12)"
    "\<not> Client_IsAvailable (lk_client lk12)"
proof -
  let ?call = "\<lambda>q sm v e n. \<lparr>ca_Seq = q, ca_ServiceMethod = sm, ca_Args = v, ca_Reply = None, ca_Error = e, ca_chan = n, ca_cap = 1\<rparr>"
  let ?C = "\<lambda>buf out inp. \<lparr>cd_conn = \<lparr>cn_in = inp, cn_err = EOF, cn_out = out, cn_broken = False, cn_closed = False\<rparr>, cd_buf = buf\<rparr>"
  let ?cl = "\<lambda>buf out inp. \<lparr>cl_codec = ?C buf out inp, cl_seq = 3, cl_pending = [(1, 0), (2, 1)], cl_closing = False, cl_shutdown = False,
    cl_heap = heap(0 := ?call 1 sm1 v1 None 0, 1 := ?call 2 sm2 v2 None 0), cl_next = 2, cl_blocked = False\<rparr>"
  let ?s = "\<lambda>inp out. \<lparr>sg_server = srv, sg_codec = ?C [] out inp, sg_running = [], sg_loop = True, sg_panic = False\<rparr>"
  let ?H1 = "Hdr (call_header sm1 1)" and ?H2 = "Hdr (call_header sm2 2)"
  let ?all = "[?H1, ?H2, Val v1, Val v2]" and ?bad = "[Hdr ((call_header sm1 1)\<lparr>h_Error := err_mismatch\<rparr>), Empty]"
  let ?lk = "\<lambda>buf. \<lparr>lk_client = ?cl buf [] [], lk_serving = ?s [] []\<rparr>"
  let ?cl1 = "\<lparr>cl_codec = ?C [] [] [], cl_seq = 2, cl_pending = [(1, 0)], cl_closing = False, cl_shutdown = False,
    cl_heap = heap(0 := ?call 1 sm1 v1 None 0), cl_next = 1, cl_blocked = False\<rparr>"
  let ?over = "\<lambda>n m. \<lparr>cl_codec = ?C [] ?all [], cl_seq = 3, cl_pending = [(2, 1)], cl_closing = False, cl_shutdown = True,
    cl_heap = heap(0 := ?call 1 sm1 v1 (Some err_mismatch) n, 1 := ?call 2 sm2 v2 None m), cl_next = 2, cl_blocked = False\<rparr>"
  let ?lk8 = "\<lparr>lk_client = ?cl [] ?all [], lk_serving = ?s ?all []\<rparr>" and ?lk9 = "\<lparr>lk_client = ?cl [] ?all ?bad, lk_serving = ?s [Val v1, Val v2] ?bad\<rparr>"
  let ?lk10 = "\<lambda>n m. \<lparr>lk_client = ?over n m, lk_serving = ?s [Val v1, Val v2] ?bad\<rparr>"
  note d = link_register_def Go_register_def registerCall_def upd_call_def client_moves_def server_moves_def new_client_def serve_init_def
    NewGobCodec_def conn_of_def popped_def Let_def
  have e: "cc_encodable ccf v1" "cc_encodable ccf v2" using c by (simp_all add: callable_def)
  have "link_register sm1 v1 (fresh_link srv heap) = Some (0, \<lparr>lk_client = ?cl1, lk_serving = ?s [] []\<rparr>)" by (simp add: fresh_link_def d)
  moreover have "link_register sm2 v2 \<lparr>lk_client = ?cl1, lk_serving = ?s [] []\<rparr> = Some (1, ?lk [])" by (simp add: d)
  moreover have "link_send ccf 0 Enc_header (?lk []) = (Some Enc_body, ?lk [?H1])" "link_send ccf 1 Enc_header (?lk [?H1]) = (Some Enc_body, ?lk [?H1, ?H2])"
    "link_send ccf 0 Enc_body (?lk [?H1, ?H2]) = (Some (Flush_buf None), ?lk [?H1, ?H2, Val v1])"
    "link_send ccf 1 Enc_body (?lk [?H1, ?H2, Val v1]) = (Some (Flush_buf None), ?lk ?all)"
    "link_send ccf 0 (Flush_buf None) (?lk ?all) = (None, ?lk8)" "link_send ccf 1 (Flush_buf None) ?lk8 = (None, ?lk8)"
    by (simp_all add: link_send_def enc_item_def e buf_Flush_def request_header_def call_header_def d)
  moreover have "link_step ccf (untimed cf) ?lk8 ?lk9"
  proof -
    obtain s n m where m: "findService srv sm1 = Inr (s, n, m)" "mt_newArgv m \<noteq> None" "mt_newReplyv m \<noteq> None"
      using c(1) by (auto simp: callable_def good_call_def call_header_def dest!: found_Inr)
    have "server_moves ?lk8 (serve_read (untimed cf) (lk_serving ?lk8)) = ?lk9"
      using m by (simp add: serve_read_def readRequest_def readRequestHeader_def gob_ReadHeader_def dec_header_def gob_ReadBody_def dec_value_def dec_next_def
        sendResponse_def gob_Write_def enc_item_def buf_Flush_def call_header_def d)
    then show ?thesis using link_step.serve [of ?lk8 ccf "untimed cf"] by simp
  qed
  moreover have "link_step ccf (untimed cf) ?lk9 (?lk10 1 1)"
  proof -
    have "client_moves ?lk9 (client_round ccf (lk_client ?lk9)) = ?lk10 1 1"
      by (simp add: client_round_def receive_round_def gob_ReadHeader_def dec_header_def dec_nil_def dec_next_def removeCall_def Call_done_def
        terminateCalls_def call_header_def err_mismatch_def d)
    then show ?thesis using link_step.receive [of ?lk9 ccf "untimed cf"] by simp
  qed
  moreover have "link_completed 0 (?lk10 1 1) = Some (Inl err_mismatch, ?lk10 0 1)" "link_completed 1 (?lk10 0 1) = Some (Inr None, ?lk10 0 0)"
    by (simp_all add: link_completed_def Call_completed_def d fun_upd_twist)
  moreover have "\<not> Client_IsAvailable (lk_client (?lk10 0 0))" by (simp add: Client_IsAvailable_def)
  ultimately show ?thesis by (rule that)
qed

text \<open>The jobs and the one connection there is, in a state that can be reached by calm steps, sends apart or not.\<close>

definition any_step :: "('t, 'd, 'v) calls_sys \<Rightarrow> (string \<times> 'v) list \<Rightarrow> ('d, 'v) calls_state \<Rightarrow> ('d, 'v) calls_state \<Rightarrow> bool" where
  "any_step sy calls st st' \<longleftrightarrow> calls_step sy calls Calm st st' \<or> calls_step sy calls (Options_read 0) st st'"

definition gets_to :: "('t, 'd, 'v) calls_sys \<Rightarrow> (string \<times> 'v) list \<Rightarrow> ('d, 'v) calls_state \<Rightarrow> 'v phase list \<Rightarrow> 'v link \<Rightarrow> bool" where
  "gets_to sy calls st0 jobs lk \<longleftrightarrow> (\<exists>st. (any_step sy calls)\<^sup>*\<^sup>* st0 st \<and> cs_jobs st = jobs \<and> link_at st 0 = lk \<and> 0 < xc_next (cs_xc st) \<and> 0 \<in> cs_ready st)"

lemma gets_to_step:
  assumes g: "gets_to sy calls st0 jobs lk"
  shows "j < length jobs \<Longrightarrow> jobs ! j = Dialled 0 \<Longrightarrow> link_register (fst (calls ! j)) (snd (calls ! j)) lk = Some (i, lk') \<Longrightarrow>
      gets_to sy calls st0 (jobs[j := Sending 0 i Enc_header]) lk'"
    "j < length jobs \<Longrightarrow> jobs ! j = Sending 0 i p \<Longrightarrow> link_send (sy_ccf sy) i p lk = (p', lk') \<Longrightarrow>
      gets_to sy calls st0 (jobs[j := case p' of None \<Rightarrow> Waiting 0 i | Some q \<Rightarrow> Sending 0 i q]) lk'"
    "link_step (sy_ccf sy) (untimed (sy_cf sy)) lk lk' \<Longrightarrow> gets_to sy calls st0 jobs lk'"
    "j < length jobs \<Longrightarrow> jobs ! j = Waiting 0 i \<Longrightarrow> link_completed i lk = Some (r, lk') \<Longrightarrow> gets_to sy calls st0 (jobs[j := Returned r]) lk'"
proof -
  obtain st where st: "(any_step sy calls)\<^sup>*\<^sup>* st0 st" "cs_jobs st = jobs" "link_at st 0 = lk" "0 < xc_next (cs_xc st)" "0 \<in> cs_ready st"
    using g by (auto simp: gets_to_def)
  have on: "gets_to sy calls st0 (cs_jobs st') (link_at st' 0)"
    if "calls_step sy calls Calm st st'" "xc_next (cs_xc st') = xc_next (cs_xc st)" "cs_ready st' = cs_ready st" for st'
  proof -
    have "any_step sy calls st st'" using that(1) by (simp add: any_step_def)
    from rtranclp.rtrancl_into_rtrancl [OF st(1) this] show ?thesis unfolding gets_to_def using that(2,3) st(4,5) by auto
  qed
  show "gets_to sy calls st0 (jobs[j := Sending 0 i Enc_header]) lk'"
    if "j < length jobs" "jobs ! j = Dialled 0" "link_register (fst (calls ! j)) (snd (calls ! j)) lk = Some (i, lk')"
    using on [OF calls_step.register [of j st 0 calls i lk' sy]] that st(2,3) by simp
  show "gets_to sy calls st0 (jobs[j := case p' of None \<Rightarrow> Waiting 0 i | Some q \<Rightarrow> Sending 0 i q]) lk'"
    if "j < length jobs" "jobs ! j = Sending 0 i p" "link_send (sy_ccf sy) i p lk = (p', lk')"
    using on [OF calls_step.send [of j st 0 i p sy p' lk' calls]] that st(2,3) by simp
  show "gets_to sy calls st0 jobs lk'" if "link_step (sy_ccf sy) (untimed (sy_cf sy)) lk lk'"
    using on [OF calls_step.run [of 0 st sy lk' calls]] that st(2-5) by simp
  show "gets_to sy calls st0 (jobs[j := Returned r]) lk'" if "j < length jobs" "jobs ! j = Waiting 0 i" "link_completed i lk = Some (r, lk')"
    using on [OF calls_step.return [of j st 0 i r lk' sy calls]] that st(2,3) by simp
qed

lemma gets_to_dialled:
  assumes r: "reaches (sy_nw sy) s" and x: "xc_clients xc = []" "xc_next xc = 0"
  shows "gets_to sy calls (calls_init xc [Chosen s, Chosen s] conns) [Dialled 0, Dialled 0] (fresh_link (sy_server sy s) (nw_heap (sy_nw sy)))"
proof -
  let ?st0 = "calls_init xc [Chosen s, Chosen s] conns" and ?l0 = "fresh_link (sy_server sy s) (nw_heap (sy_nw sy))"
  let ?st1 = "job_dial sy s 0 ?st0"
  have z: "map_of (xc_clients (cs_xc ?st0)) s = None" "xc_next (cs_xc ?st0) = 0" using x by (simp_all add: calls_init_def)
  note f = job_dial_new [where j = 0, OF z(1) r, unfolded z(2)]
  have f1: "cs_jobs ?st1 = [Dialled 0, Chosen s]" "link_at ?st1 0 = ?l0" "xc_next (cs_xc ?st1) = 1" "cs_ready ?st1 = {}"
    "map_of (xc_clients (cs_xc ?st1)) s = Some 0"
    using f(1-5) by (simp_all add: fresh_link_def calls_init_def update_conv')
  have "Client_IsAvailable (xc_heap (cs_xc ?st1) 0)"
    using arg_cong [OF f1(2), of lk_client] by (simp add: link_at_def fresh_link_def Client_IsAvailable_def new_client_def)
  from job_dial_known [OF f1(5) this, of sy 1] have st2: "job_dial sy s 1 ?st1 = set_job 1 (Dialled 0) ?st1" by (simp add: f1)
  let ?st2 = "set_job 1 (Dialled 0) ?st1"
  let ?st3 = "options_read 0 0 ?st2"
  have "any_step sy calls ?st0 ?st1" unfolding any_step_def by (rule disjI1) (rule calls_step.dial; simp add: calls_init_def)
  moreover have "any_step sy calls ?st1 ?st2"
  proof -
    have "calls_step sy calls Calm ?st1 (job_dial sy s 1 ?st1)" by (rule calls_step.dial) (simp_all add: f1)
    then show ?thesis unfolding any_step_def st2 by blast
  qed
  moreover have "any_step sy calls ?st2 ?st3" unfolding any_step_def by (rule disjI2) (rule calls_step.options; simp add: f1)
  ultimately have "(any_step sy calls)\<^sup>*\<^sup>* ?st0 ?st3" by auto
  moreover have "cs_jobs ?st3 = [Dialled 0, Dialled 0]" "xc_next (cs_xc ?st3) = 1" "cs_ready ?st3 = {0}"
    by (simp_all add: options_read_def Let_def f1)
  moreover have "link_at ?st3 0 = ?l0" using f1(2) by (simp add: options_read_def link_at_def popped_id set_job_def Let_def)
  ultimately show ?thesis unfolding gets_to_def by (intro exI [of _ ?st3]) simp
qed

subsection \<open>A request that is lost with the options\<close>

text \<open>A call on a new connection whose request is there when the server reads the options, and is taken with them: the caller waits for ever.\<close>

lemma lost_link:
  assumes c: "cc_encodable ccf v"
  obtains lk1 lk2 lk3 lk4 where
    "link_register sm v (fresh_link srv heap) = Some (0, lk1)" "link_send ccf 0 Enc_header lk1 = (Some Enc_body, lk2)"
    "link_send ccf 0 Enc_body lk2 = (Some (Flush_buf None), lk3)" "link_send ccf 0 (Flush_buf None) lk3 = (None, lk4)"
    "length (sg_in (lk_serving lk4)) = 2" "sg_running (lk_serving lk4) = []" "cl_in (lk_client lk4) = []" "ca_chan (cl_heap (lk_client lk4) 0) = 0"
proof -
  let ?C = "\<lambda>buf out inp. \<lparr>cd_conn = \<lparr>cn_in = inp, cn_err = EOF, cn_out = out, cn_broken = False, cn_closed = False\<rparr>, cd_buf = buf\<rparr>"
  let ?lk = "\<lambda>buf out. \<lparr>lk_client = \<lparr>cl_codec = ?C buf out [], cl_seq = 2, cl_pending = [(1, 0)], cl_closing = False, cl_shutdown = False,
      cl_heap = heap(0 := \<lparr>ca_Seq = 1, ca_ServiceMethod = sm, ca_Args = v, ca_Reply = None, ca_Error = None, ca_chan = 0, ca_cap = 1\<rparr>), cl_next = 1, cl_blocked = False\<rparr>,
    lk_serving = \<lparr>sg_server = srv, sg_codec = ?C [] [] out, sg_running = [], sg_loop = True, sg_panic = False\<rparr>\<rparr>"
  let ?H = "Hdr (call_header sm 1)"
  note d = link_register_def Go_register_def registerCall_def upd_call_def client_moves_def new_client_def serve_init_def
    NewGobCodec_def conn_of_def popped_def link_send_def enc_item_def buf_Flush_def Let_def fresh_link_def request_header_def call_header_def
  have "link_register sm v (fresh_link srv heap) = Some (0, ?lk [] [])" by (simp add: d)
  moreover have "link_send ccf 0 Enc_header (?lk [] []) = (Some Enc_body, ?lk [?H] [])" by (simp add: d)
  moreover have "link_send ccf 0 Enc_body (?lk [?H] []) = (Some (Flush_buf None), ?lk [?H, Val v] [])" by (simp add: d c)
  moreover have "link_send ccf 0 (Flush_buf None) (?lk [?H, Val v] []) = (None, ?lk [] [?H, Val v])" by (simp add: d)
  ultimately show ?thesis by (rule that) simp_all
qed

lemma lost_request:
  assumes sys: "sys_ok sy {s} [c]" and x: "xc_clients xc = []" "xc_next xc = 0"
  shows "\<exists>st1 st2. (calls_step sy [c] Calm)\<^sup>*\<^sup>* (calls_init xc [Chosen s] conns) st1 \<and> calls_step sy [c] (Options_read 2) st1 st2 \<and>
    cs_jobs st2 = [Waiting 0 0] \<and> (\<forall>ev st'. \<not> calls_step sy [c] ev st2 st')"
proof -
  let ?st0 = "calls_init xc [Chosen s] conns" and ?l0 = "fresh_link (sy_server sy s) (nw_heap (sy_nw sy))" and ?go = "calls_step sy [c] Calm"
  have r: "reaches (sy_nw sy) s" and e: "cc_encodable (sy_ccf sy) (snd c)"
    using sys by (simp_all add: sys_ok_def callable_def split: prod.splits)
  have z: "map_of (xc_clients (cs_xc ?st0)) s = None" "xc_next (cs_xc ?st0) = 0" using x by (simp_all add: calls_init_def)
  note f = job_dial_new [where j = 0, OF z(1) r, unfolded z(2)]
  let ?st1 = "job_dial sy s 0 ?st0"
  have f1: "cs_jobs ?st1 = [Dialled 0]" "link_at ?st1 0 = ?l0" "xc_next (cs_xc ?st1) = 1" "cs_ready ?st1 = {}"
    using f(1-5) by (simp_all add: fresh_link_def calls_init_def)
  obtain lk1 lk2 lk3 lk4 where l: "link_register (fst c) (snd c) ?l0 = Some (0, lk1)" "link_send (sy_ccf sy) 0 Enc_header lk1 = (Some Enc_body, lk2)"
    "link_send (sy_ccf sy) 0 Enc_body lk2 = (Some (Flush_buf None), lk3)" "link_send (sy_ccf sy) 0 (Flush_buf None) lk3 = (None, lk4)"
    "length (sg_in (lk_serving lk4)) = 2" "sg_running (lk_serving lk4) = []" "cl_in (lk_client lk4) = []" "ca_chan (cl_heap (lk_client lk4) 0) = 0"
    by (rule lost_link [OF e])
  let ?st2 = "set_job 0 (Sending 0 0 Enc_header) (set_link 0 lk1 ?st1)"
  let ?st3 = "set_job 0 (Sending 0 0 Enc_body) (set_link 0 lk2 ?st2)"
  let ?st4 = "set_job 0 (Sending 0 0 (Flush_buf None)) (set_link 0 lk3 ?st3)"
  let ?st5 = "set_job 0 (Waiting 0 0) (set_link 0 lk4 ?st4)" and ?st6 = "options_read 0 2 (set_job 0 (Waiting 0 0) (set_link 0 lk4 ?st4))"
  have "?go ?st0 ?st1" by (rule calls_step.dial) (simp_all add: calls_init_def)
  moreover have "?go ?st1 ?st2" by (rule calls_step.register) (use l(1) in \<open>simp_all add: f1\<close>)
  moreover have "?go ?st2 ?st3" "?go ?st3 ?st4" "?go ?st4 ?st5"
    using calls_step.send [of 0 ?st2 0 0 Enc_header sy "Some Enc_body" lk2 "[c]"] calls_step.send [of 0 ?st3 0 0 Enc_body sy "Some (Flush_buf None)" lk3 "[c]"]
      calls_step.send [of 0 ?st4 0 0 "Flush_buf None" sy None lk4 "[c]"] l(2-4) by (simp_all add: f1)
  ultimately have run: "?go\<^sup>*\<^sup>* ?st0 ?st5" by auto
  have at: "cs_conns (set_link 0 lk4 ?st4) 0 = lk_serving lk4" by (simp add: set_link_def)
  have opt: "calls_step sy [c] (Options_read 2) ?st5 ?st6" by (rule calls_step.options) (simp_all add: f1 at l(5))
  have g: "cs_jobs ?st6 = [Waiting 0 0]" "xc_next (cs_xc ?st6) = 1" "0 \<in> cs_ready ?st6" "lk_client (link_at ?st6 0) = lk_client lk4"
    "sg_in (cs_conns ?st6 0) = []" "sg_running (cs_conns ?st6 0) = []"
    using l(5,6) by (simp_all add: options_read_def link_at_def set_link_def set_job_def f1 Let_def)
  have "\<not> calls_step sy [c] ev ?st6 st'" for ev st'
  proof
    have sg: "sg_in (lk_serving (link_at ?st6 0)) = []" "sg_running (lk_serving (link_at ?st6 0)) = []" using g(5,6) by (simp_all add: link_at_def)
    assume "calls_step sy [c] ev ?st6 st'"
    then show False
    proof (cases rule: calls_step.cases)
      case (run a lk)
      then have "a = 0" using g(2) by simp
      then show ?thesis using run(5) sg g(4) l(7) by (auto elim: link_step.cases)
    next
      case (return j a i r lk)
      then have "j = 0" using g(1) by simp
      then have "a = 0" "i = 0" using return(4) g(1) by simp_all
      then show ?thesis using return(5) g(4) l(8) by (simp add: link_completed_def Call_completed_def)
    qed (use g in \<open>auto simp: less_Suc_eq\<close>)
  qed
  then show ?thesis using run opt g(1) by blast
qed

subsection \<open>Properties\<close>

text \<open>C36: calls through a registry return, when goroutines do not send on the same client at the same time. Any number of goroutines call through one \<^verbatim>\<open>XClient\<close> that asks a
  registry, with contexts that do not end; the registry lists
  servers whose leases do not end meanwhile, the servers can be reached and have the methods, and the methods
  return values. Consider the interleavings of the goroutines, piece by piece of \<^verbatim>\<open>send\<close>, with the connections, the servers' handlers and the
  clients' receiving loops, with three things left out: that two goroutines are in \<^verbatim>\<open>send\<close> on the same client (on different clients they may be), that the timeout
  of a handler fires, and that a server loses requests with the options (\<^const>\<open>calm_step\<close>). In every state of such a run each further step reduces the work
  that is left, so all these runs end; and when nothing
  can move every goroutine has returned, without an error, with what its own method yields for its own argument on one of the
  listed servers. A goroutine that was given its server (as by \<^verbatim>\<open>Broadcast\<close>) has the result of that server. (Nothing in the code keeps
  goroutines apart in \<^verbatim>\<open>send\<close>; what happens when they are not is the next property.)\<close>

theorem XClient_calls_return:
  assumes "draws intn" and "registry_steady window servers reg" and "window \<noteq> {}"
    and "sys_ok sy (set servers) calls" and "sy_get sy = gd_get_at intn" and "sy_times sy = window \<times> UNIV"
    and "start_ok (set servers) jobs" and "length jobs = length calls"
  shows "ends_in (calm_step sy calls) fine_work
    (calls_init (NewXClient (gd_New intn r url timeout, reg) RandomSelect opt heap) jobs conns)
    (\<lambda>st. \<forall>j < length calls. \<exists>s \<in> set servers. (jobs ! j = Begin \<or> jobs ! j = Chosen s) \<and>
       cs_jobs st ! j = Returned (Inr (rpc_result (sy_server sy s) (fst (calls ! j)) (snd (calls ! j)))))"
proof -
  let ?xc = "NewXClient (gd_New intn r url timeout, reg) RandomSelect opt heap"
  have "gd_live intn window servers (xc_d ?xc)" using assms(1,2) by (simp add: NewXClient_def gd_live_def gd_New_def Let_def)
  then have inv: "gdl.calm_inv intn window servers sy jobs calls (calls_init ?xc jobs conns)"
    by (intro gdl.calm_inv_init assms(7,8)) (simp_all add: NewXClient_def)
  have "window \<times> (UNIV :: int set) \<noteq> {}" using assms(3) by auto
  from gdl.calm_calls_return [OF assms(4,5,6) this inv] show ?thesis unfolding may_use_def Bex_def conj_assoc .
qed

text \<open>C38: sends that overlap ruin calls. Two goroutines call methods that a server has, through one \<^verbatim>\<open>XClient\<close> and hence one client, with arguments that can be sent, and nothing
  else goes wrong: no timeout fires and nothing is lost with the options. There is a run in which both are in \<^verbatim>\<open>send\<close> at the same time, so that both headers are encoded
  before both bodies, and in which at the end the first call has returned an error of gob, the second has returned no error although its reply
  was never set, and the client cannot be used any more.\<close>

theorem overlapping_sends:
  assumes "sys_ok sy {s} [c1, c2]" and "xc_clients xc = []" and "xc_next xc = 0"
  shows "\<exists>st. (\<lambda>st st'. calls_step sy [c1, c2] Calm st st' \<or> calls_step sy [c1, c2] (Options_read 0) st st')\<^sup>*\<^sup>*
      (calls_init xc [Chosen s, Chosen s] conns) st \<and>
    cs_jobs st = [Returned (Inl err_mismatch), Returned (Inr None)] \<and> \<not> Client_IsAvailable (xc_heap (cs_xc st) 0)"
proof -
  let ?calls = "[c1, c2]" and ?st0 = "calls_init xc [Chosen s, Chosen s] conns"
  have r: "reaches (sy_nw sy) s" and c: "callable (sy_ccf sy) (sy_cf sy) (sy_server sy s) (fst c1, snd c1)"
    "callable (sy_ccf sy) (sy_cf sy) (sy_server sy s) (fst c2, snd c2)"
    using assms(1) by (simp_all add: sys_ok_def)
  from overlap_link [OF c, where heap = "nw_heap (sy_nw sy)"] obtain lk1 lk2 lk3 lk4 lk5 lk6 lk7 lk8 lk9 lk10 lk11 lk12 where l:
    "link_register (fst c1) (snd c1) (fresh_link (sy_server sy s) (nw_heap (sy_nw sy))) = Some (0, lk1)" "link_register (fst c2) (snd c2) lk1 = Some (1, lk2)"
    "link_send (sy_ccf sy) 0 Enc_header lk2 = (Some Enc_body, lk3)" "link_send (sy_ccf sy) 1 Enc_header lk3 = (Some Enc_body, lk4)"
    "link_send (sy_ccf sy) 0 Enc_body lk4 = (Some (Flush_buf None), lk5)" "link_send (sy_ccf sy) 1 Enc_body lk5 = (Some (Flush_buf None), lk6)"
    "link_send (sy_ccf sy) 0 (Flush_buf None) lk6 = (None, lk7)" "link_send (sy_ccf sy) 1 (Flush_buf None) lk7 = (None, lk8)"
    "link_step (sy_ccf sy) (untimed (sy_cf sy)) lk8 lk9" "link_step (sy_ccf sy) (untimed (sy_cf sy)) lk9 lk10"
    "link_completed 0 lk10 = Some (Inl err_mismatch, lk11)" "link_completed 1 lk11 = Some (Inr None, lk12)"
    "\<not> Client_IsAvailable (lk_client lk12)" .
  have "gets_to sy ?calls ?st0 [Sending 0 0 Enc_header, Sending 0 1 Enc_header] lk2"
    using gets_to_step(1) [OF gets_to_step(1) [OF gets_to_dialled [OF r assms(2,3)], of 0 ?calls 0 lk1], of 1 1 lk2] l(1,2) by simp
  then have "gets_to sy ?calls ?st0 [Sending 0 0 Enc_body, Sending 0 1 Enc_body] lk4"
    using gets_to_step(2) [OF gets_to_step(2), of sy ?calls ?st0 "[Sending 0 0 Enc_header, Sending 0 1 Enc_header]" lk2 0 0 Enc_header "Some Enc_body" lk3
        1 1 Enc_header "Some Enc_body" lk4] l(3,4) by simp
  then have "gets_to sy ?calls ?st0 [Sending 0 0 (Flush_buf None), Sending 0 1 (Flush_buf None)] lk6"
    using gets_to_step(2) [OF gets_to_step(2), of sy ?calls ?st0 "[Sending 0 0 Enc_body, Sending 0 1 Enc_body]" lk4 0 0 Enc_body "Some (Flush_buf None)" lk5
        1 1 Enc_body "Some (Flush_buf None)" lk6] l(5,6) by simp
  then have "gets_to sy ?calls ?st0 [Waiting 0 0, Waiting 0 1] lk8"
    using gets_to_step(2) [OF gets_to_step(2), of sy ?calls ?st0 "[Sending 0 0 (Flush_buf None), Sending 0 1 (Flush_buf None)]" lk6 0 0 "Flush_buf None" None lk7
        1 1 "Flush_buf None" None lk8] l(7,8) by simp
  from gets_to_step(3) [OF gets_to_step(3) [OF this l(9)] l(10)] have "gets_to sy ?calls ?st0 [Waiting 0 0, Waiting 0 1] lk10" .
  then have "gets_to sy ?calls ?st0 [Returned (Inl err_mismatch), Returned (Inr None)] lk12"
    using gets_to_step(4) [OF gets_to_step(4), of sy ?calls ?st0 "[Waiting 0 0, Waiting 0 1]" lk10 0 0 "Inl err_mismatch" lk11 1 1 "Inr None" lk12] l(11,12) by simp
  then show ?thesis using l(13) by (auto simp: gets_to_def any_step_def [abs_def] link_at_def)
qed

subsection \<open>Examples\<close>

text \<open>Memory before anything is allocated.\<close>

definition blank_heap :: "nat \<Rightarrow> int client" where
  "blank_heap a = new_client (NewGobCodec (conn_of [])) (\<lambda>_. no_call)"

definition blank_conns :: "nat \<Rightarrow> int serving" where
  "blank_conns a = serve_init NewServer (NewGobCodec (conn_of []))"

text \<open>A registry with one server, asked between the times 1 and 9.\<close>

definition one_registry :: registry where
  "one_registry = rg_run (rg_New rg_defaultTimeout) [(0, ''POST'', ''tcp@a'')]"

definition one_sys :: "(int \<times> int, unit gee_disc \<times> registry, int) calls_sys" where
  "one_sys = \<lparr>sy_get = gd_get_at (\<lambda>n r. (0, r)), sy_times = {1..9} \<times> UNIV, sy_nw = ok_network, sy_ccf = any_cfg, sy_cf = foo_cfg,
     sy_server = (\<lambda>s. [''Foo'' \<mapsto> foo_service])\<rparr>"

lemma one_registry_steady: "registry_steady {1..9} [''tcp@a''] one_registry"
  by (auto simp: registry_steady_def one_registry_def rg_run_def rg_New_def rg_ServeHTTP_def rg_putServer_def rg_aliveServers_def
      rg_defaultTimeout_def minute_def clean_addr_def is_space_def)

lemma one_sys_ok: "sys_ok one_sys (set [''tcp@a'']) [(''Foo.Sum'', 3), (''Foo.Sum'', 5)]"
proof -
  let ?srv = "[''Foo'' \<mapsto> foo_service]"
  have "rpc_result ?srv ''Foo.Sum'' v = Some (v + v)" for v by (simp add: rpc_result_def foo_found)
  then have "callable any_cfg foo_cfg ?srv (''Foo.Sum'', v)" for v by (simp add: callable_def any_cfg_def foo_good)
  moreover have "reaches ok_network (''tcp@'' @ ''a'')" by (rule reaches_tcp) (simp_all add: ok_network_def)
  ultimately show ?thesis by (auto simp: sys_ok_def one_sys_def)
qed

theorem overlapping_sends_witness:
  "\<exists>st. (\<lambda>st st'. calls_step one_sys [(''Foo.Sum'', 3), (''Foo.Sum'', 5)] Calm st st' \<or>
         calls_step one_sys [(''Foo.Sum'', 3), (''Foo.Sum'', 5)] (Options_read 0) st st')\<^sup>*\<^sup>*
      (calls_init (NewXClient (gd_New (\<lambda>n r. (0, r)) () ''http://r'' 0, one_registry) RandomSelect None blank_heap)
         [Chosen ''tcp@a'', Chosen ''tcp@a''] blank_conns) st \<and>
    cs_jobs st ! 0 = Returned (Inl ''gob: type mismatch'') \<and> cs_jobs st ! 1 = Returned (Inr None)"
proof -
  let ?xc = "NewXClient (gd_New (\<lambda>n r. (0, r)) () ''http://r'' 0, one_registry) RandomSelect None blank_heap"
  have "sys_ok one_sys {''tcp@a''} [(''Foo.Sum'', 3), (''Foo.Sum'', 5)]" using one_sys_ok by simp
  moreover have "xc_clients ?xc = []" "xc_next ?xc = 0" by (simp_all add: NewXClient_def)
  ultimately show ?thesis using overlapping_sends [of one_sys "''tcp@a''" "(''Foo.Sum'', 3)" "(''Foo.Sum'', 5)" ?xc blank_conns]
    unfolding err_mismatch_def by fastforce
qed

theorem XClient_calls_return_witness:
  "\<exists>st. (calm_step one_sys [(''Foo.Sum'', 3), (''Foo.Sum'', 5)])\<^sup>*\<^sup>*
       (calls_init (NewXClient (gd_New (\<lambda>n r. (0, r)) () ''http://r'' 0, one_registry) RandomSelect None blank_heap) [Begin, Chosen ''tcp@a''] blank_conns) st \<and>
     cs_jobs st ! 0 = Returned (Inr (Some 6)) \<and> cs_jobs st ! 1 = Returned (Inr (Some 10))"
proof -
  let ?intn = "\<lambda>n r. (0 :: int, r :: unit)" and ?calls = "[(''Foo.Sum'', 3), (''Foo.Sum'', 5)] :: (string \<times> int) list"
    and ?jobs = "[Begin, Chosen ''tcp@a''] :: int phase list"
  let ?xc = "NewXClient (gd_New ?intn () ''http://r'' 0, one_registry) RandomSelect None blank_heap"
  have d: "draws ?intn" by (simp add: draws_def)
  have sy: "sy_get one_sys = gd_get_at ?intn" "sy_times one_sys = {1..9} \<times> UNIV" by (simp_all add: one_sys_def)
  have j: "start_ok (set [''tcp@a'']) ?jobs" "length ?jobs = length ?calls" by (simp_all add: start_ok_def)
  have w: "{1..9} \<noteq> ({} :: int set)" by simp
  obtain st where st: "(calm_step one_sys ?calls)\<^sup>*\<^sup>* (calls_init ?xc ?jobs blank_conns) st"
    "\<forall>k < length ?calls. \<exists>s \<in> set [''tcp@a'']. (?jobs ! k = Begin \<or> ?jobs ! k = Chosen s) \<and>
       cs_jobs st ! k = Returned (Inr (rpc_result (sy_server one_sys s) (fst (?calls ! k)) (snd (?calls ! k))))"
    using ends_in_run [OF XClient_calls_return [OF d one_registry_steady w one_sys_ok sy j]] by blast
  have r: "rpc_result (sy_server one_sys s) ''Foo.Sum'' v = Some (v + v)" for s v by (simp add: one_sys_def rpc_result_def foo_found)
  have "cs_jobs st ! 0 = Returned (Inr (Some 6))" "cs_jobs st ! 1 = Returned (Inr (Some 10))"
    using st(2) [rule_format, of 0] st(2) [rule_format, of 1] by (simp_all add: r)
  with st(1) show ?thesis by blast
qed

end
