(* ===== verification/Rpc_Debug.thy ===== *)
theory Rpc_Debug
  imports Rpcx_Server "HOL-Library.Sublist"
begin

section \<open>Call counters and the debug pages (\<^verbatim>\<open>rpc/debug.go\<close>, \<^verbatim>\<open>rpcx/debug.go\<close>)\<close>

text \<open>
  Every method has a counter of its calls, and a page that lists the services of a server shows them. The two files
  differ in the title of the page. The template is rendered as \<^verbatim>\<open>html/template\<close> does it: text as it is, map
  entries in the order of their keys, values escaped. How \<^verbatim>\<open>reflect\<close> writes a type is an argument, and so is
  the order in which \<^verbatim>\<open>Range\<close> visits the services.
\<close>

subsection \<open>The template\<close>

text \<open>The escaper of \<^verbatim>\<open>html/template\<close> for text.\<close>

definition html_escape_char :: "char \<Rightarrow> string" where
  "html_escape_char c =
     (if c = CHR 0x00 then [CHR 0xEF, CHR 0xBF, CHR 0xBD]
      else if c = CHR 0x22 then ''&#34;''
      else if c = CHR ''&'' then ''&amp;''
      else if c = CHR 0x27 then ''&#39;''
      else if c = CHR ''+'' then ''&#43;''
      else if c = CHR ''<'' then ''&lt;''
      else if c = CHR ''>'' then ''&gt;''
      else [c])"

definition html_escape :: "string \<Rightarrow> string" where
  "html_escape s = concat (map html_escape_char s)"

text \<open>A new line of the template that starts with \<open>n\<close> tabs.\<close>

definition nl :: "nat \<Rightarrow> string" where
  "nl n = CHR 0x0A # replicate n CHR 0x09"

record 'v debugService =
  ds_Name :: string
  ds_Method :: "(string, 'v method_type) gomap"

definition debug_row :: "(gotype \<Rightarrow> string) \<Rightarrow> string \<Rightarrow> 'v method_type \<Rightarrow> string" where
  "debug_row ty_String name mtype =
     nl 3 @ ''<tr>'' @
     nl 3 @ ''<td align=left font=fixed>'' @ html_escape name @ ''('' @ html_escape (ty_String (mt_ArgType mtype)) @ '', '' @
       html_escape (ty_String (mt_ReplyType mtype)) @ '') error</td>'' @
     nl 3 @ ''<td align=center>'' @ strconv_Itoa (unat (mt_NumCalls mtype)) @ ''</td>'' @
     nl 3 @ ''</tr>'' @ nl 2"

definition debug_service :: "(gotype \<Rightarrow> string) \<Rightarrow> 'v debugService \<Rightarrow> string" where
  "debug_service ty_String svc =
     nl 1 @ ''<hr>'' @ nl 1 @ ''Service '' @ html_escape (ds_Name svc) @ nl 1 @ ''<hr>'' @ nl 2 @ ''<table>'' @
     nl 2 @ ''<th align=center>Method</th><th align=center>Calls</th>'' @ nl 2 @
     concat (map (\<lambda>(name, mtype). debug_row ty_String name mtype) (sort_key fst (ds_Method svc))) @
     nl 2 @ ''</table>'' @ nl 1"

text \<open>The templates of the two files differ in the title.\<close>

definition debug_text :: "string \<Rightarrow> (gotype \<Rightarrow> string) \<Rightarrow> 'v debugService list \<Rightarrow> string" where
  "debug_text title ty_String services =
     ''<html>'' @ nl 1 @ ''<body>'' @ nl 1 @ ''<title>'' @ title @ ''</title>'' @ nl 1 @
     concat (map (debug_service ty_String) services) @ nl 1 @ ''</body>'' @ nl 1 @ ''</html>''"

definition debugText :: "(gotype \<Rightarrow> string) \<Rightarrow> 'v debugService list \<Rightarrow> string" where
  "debugText ty_String services = debug_text ''GeeRPC Services'' ty_String services"

definition x_debugText :: "(gotype \<Rightarrow> string) \<Rightarrow> 'v debugService list \<Rightarrow> string" where
  "x_debugText ty_String services = debug_text ''RPC Services'' ty_String services"

text \<open>\<^verbatim>\<open>Range\<close> visits the names in some order; the handler collects what it finds. Executing the template on these
  values does not fail.\<close>

definition debug_collect :: "'v server \<Rightarrow> string list \<Rightarrow> 'v debugService list" where
  "debug_collect srv order =
     foldl (\<lambda>services name. case srv name of
              None \<Rightarrow> services
            | Some svc \<Rightarrow> services @ [\<lparr>ds_Name = name, ds_Method = sv_method svc\<rparr>]) [] order"

definition debugHTTP_ServeHTTP :: "(gotype \<Rightarrow> string) \<Rightarrow> 'v server \<Rightarrow> string list \<Rightarrow> string" where
  "debugHTTP_ServeHTTP ty_String srv order = debugText ty_String (debug_collect srv order)"

definition x_debugHTTP_ServeHTTP :: "(gotype \<Rightarrow> string) \<Rightarrow> 'v server \<Rightarrow> string list \<Rightarrow> string" where
  "x_debugHTTP_ServeHTTP ty_String srv order = x_debugText ty_String (debug_collect srv order)"

subsection \<open>What the page shows\<close>

lemma debug_collect_eq:
  "debug_collect srv order =
     List.map_filter (\<lambda>name. map_option (\<lambda>svc. \<lparr>ds_Name = name, ds_Method = sv_method svc\<rparr>) (srv name)) order"
proof -
  let ?f = "\<lambda>name. map_option (\<lambda>svc. \<lparr>ds_Name = name, ds_Method = sv_method svc\<rparr>) (srv name)"
  have "foldl (\<lambda>services name. case srv name of None \<Rightarrow> services
      | Some svc \<Rightarrow> services @ [\<lparr>ds_Name = name, ds_Method = sv_method svc\<rparr>]) acc order = acc @ List.map_filter ?f order" for acc
    by (induction order arbitrary: acc) (auto simp: map_filter_simps split: option.splits)
  then show ?thesis by (simp add: debug_collect_def)
qed

lemma sublist_concat: "x \<in> set xs \<Longrightarrow> sublist x (concat xs)"
  by (metis concat.simps(2) concat_append in_set_conv_decomp sublist_appendI)

lemma sublist_trans_mid: "sublist x y \<Longrightarrow> sublist x (a @ y @ b)"
  by (meson sublist_appendI sublist_order.order.trans)


text \<open>A page shows a service with a method: the block of the service, under its name, is on the page, and the row of the method is in the
  block.\<close>

definition page_shows :: "(gotype \<Rightarrow> string) \<Rightarrow> string \<Rightarrow> string \<Rightarrow> string \<Rightarrow> 'v method_type \<Rightarrow> bool" where
  "page_shows ty_String page sname mname mtype \<longleftrightarrow> (\<exists>methods. map_of methods mname = Some mtype \<and>
     sublist (debug_row ty_String mname mtype) (debug_service ty_String \<lparr>ds_Name = sname, ds_Method = methods\<rparr>) \<and>
     sublist (debug_service ty_String \<lparr>ds_Name = sname, ds_Method = methods\<rparr>) page)"

lemma debug_page_row:
  assumes svc: "srv sname = Some svc" "sname \<in> set order" and m: "map_of (sv_method svc) mname = Some mtype"
  shows "page_shows ty_String (debugHTTP_ServeHTTP ty_String srv order) sname mname mtype"
    "page_shows ty_String (x_debugHTTP_ServeHTTP ty_String srv order) sname mname mtype"
proof -
  let ?row = "debug_row ty_String mname mtype" and ?ds = "\<lparr>ds_Name = sname, ds_Method = sv_method svc\<rparr>"
  have "(mname, mtype) \<in> set (sort_key fst (ds_Method ?ds))" using m by (simp add: map_of_SomeD)
  then have "?row \<in> set (map (\<lambda>(name, mtype). debug_row ty_String name mtype) (sort_key fst (ds_Method ?ds)))" by force
  from sublist_concat [OF this] have row: "sublist ?row (debug_service ty_String ?ds)"
    unfolding debug_service_def by (simp only: append_assoc [symmetric]) (meson sublist_trans_mid append_assoc sublist_append_rightI sublist_order.order.trans sublist_append_leftI)
  have "?ds \<in> set (debug_collect srv order)"
    unfolding debug_collect_eq using svc by (force simp: List.map_filter_def)
  then have block: "sublist (debug_service ty_String ?ds) (concat (map (debug_service ty_String) (debug_collect srv order)))"
    by (intro sublist_concat) simp
  have "sublist (debug_service ty_String ?ds) (debug_text title ty_String (debug_collect srv order))" for title
    using sublist_trans_mid [OF block] unfolding debug_text_def by (simp only: append_assoc [symmetric]) (metis append_assoc)
  then have "page_shows ty_String (debug_text title ty_String (debug_collect srv order)) sname mname mtype" for title
    unfolding page_shows_def using row m by blast
  then show "page_shows ty_String (debugHTTP_ServeHTTP ty_String srv order) sname mname mtype"
    "page_shows ty_String (x_debugHTTP_ServeHTTP ty_String srv order) sname mname mtype"
    by (simp_all only: debugHTTP_ServeHTTP_def x_debugHTTP_ServeHTTP_def debugText_def x_debugText_def)
qed

subsection \<open>Counting\<close>

definition numCalls_of :: "'v server \<Rightarrow> string \<times> string \<Rightarrow> uint64 option" where
  "numCalls_of srv = (\<lambda>(sname, mname).
     case srv sname of None \<Rightarrow> None | Some svc \<Rightarrow> map_option mt_numCalls (map_of (sv_method svc) mname))"

text \<open>The method a request is for.\<close>

definition target :: "'v server \<Rightarrow> header \<times> 'v \<Rightarrow> (string \<times> string) option" where
  "target srv = (\<lambda>(h, v). case found srv (h_ServiceMethod h) of Inl _ \<Rightarrow> None | Inr (s, n, _) \<Rightarrow> Some (s, n))"

definition requests_for :: "'v server \<Rightarrow> string \<times> string \<Rightarrow> (header \<times> 'v) list \<Rightarrow> nat" where
  "requests_for srv k reqs = length (filter (\<lambda>q. target srv q = Some k) reqs)"

definition running_for :: "string \<times> string \<Rightarrow> 'v request list \<Rightarrow> nat" where
  "running_for k reqs = length (filter (\<lambda>req. (rq_service req, rq_mname req) = k) reqs)"

lemma numCalls_count_call:
  "numCalls_of (count_call srv s n v) k = (if k = (s, n) then map_option (\<lambda>c. c + 1) (numCalls_of srv k) else numCalls_of srv k)"
proof (cases "srv s")
  case (Some svc)
  then show ?thesis
    by (cases k; cases "map_of (sv_method svc) n")
       (auto simp: numCalls_of_def count_call_def service_call_def update_conv split: option.splits)
qed (auto simp: numCalls_of_def count_call_def)

lemma running_for_remove:
  assumes "i < length reqs"
  shows "running_for k reqs = running_for k (take i reqs @ drop (Suc i) reqs) +
    (if (rq_service (reqs ! i), rq_mname (reqs ! i)) = k then 1 else 0)"
proof -
  have "running_for k reqs = running_for k (take i reqs @ reqs ! i # drop (Suc i) reqs)"
    by (simp only: id_take_nth_drop [OF assms, symmetric])
  then show ?thesis by (simp add: running_for_def)
qed

lemma calls_stream_Nil_iff [simp]: "calls_stream ps = [] \<longleftrightarrow> ps = []"
  by (cases ps) auto

lemma calls_stream_inj: "calls_stream ps = calls_stream qs \<Longrightarrow> ps = qs"
proof (induction ps arbitrary: qs)
  case Nil
  then show ?case by (cases qs) auto
next
  case (Cons p ps)
  obtain h v where p: "p = (h, v)" by (cases p)
  with Cons.prems obtain qs' where "qs = (h, v) # qs'" "calls_stream ps = calls_stream qs'" by (cases qs) auto
  with Cons.IH p show ?case by simp
qed

lemma readRequest_target:
  assumes "readRequest cf srv c = (GoodReq req, c')" "wire_ok c" "cn_in (cd_conn c) = Hdr h # rest"
  shows "target srv (h, v) = Some (rq_service req, rq_mname req)"
  using assms
  by (auto simp: readRequest_def readRequestHeader_def gob_ReadHeader_def dec_header_def dec_next_simps target_def found_def
      split: sum.splits if_splits prod.splits)

text \<open>Requests counted, being handled and still to be read add up, whether methods return in time or not.\<close>

definition count_inv :: "'v server_cfg \<Rightarrow> 'v server \<Rightarrow> (header \<times> 'v) list \<Rightarrow> 'v serving \<Rightarrow> bool" where
  "count_inv cf srv reqs s \<longleftrightarrow> \<not> sg_panic s \<and> found (sg_server s) = found srv \<and> (sg_loop s \<longrightarrow> wire_ok (sg_codec s)) \<and>
     (\<forall>req \<in> set (sg_running s). \<exists>r. answers cf (rq_mtype req) (rq_argv req) r) \<and>
     (\<exists>rest. cn_in (cd_conn (sg_codec s)) = calls_stream rest \<and> (sg_loop s \<or> rest = []) \<and> (\<forall>q \<in> set rest. good_call cf srv q) \<and>
       (\<forall>k. map_option (\<lambda>c. c + of_nat (running_for k (sg_running s) + requests_for srv k rest)) (numCalls_of (sg_server s) k) =
            map_option (\<lambda>c. c + of_nat (requests_for srv k reqs)) (numCalls_of srv k)))"

lemma count_invI:
  assumes "\<not> sg_panic s" "found (sg_server s) = found srv" "sg_loop s \<Longrightarrow> wire_ok (sg_codec s)"
    "\<And>req. req \<in> set (sg_running s) \<Longrightarrow> \<exists>r. answers cf (rq_mtype req) (rq_argv req) r"
    "cn_in (cd_conn (sg_codec s)) = calls_stream rest" "sg_loop s \<or> rest = []" "\<And>q. q \<in> set rest \<Longrightarrow> good_call cf srv q"
    "\<And>k. map_option (\<lambda>c. c + of_nat (running_for k (sg_running s) + requests_for srv k rest)) (numCalls_of (sg_server s) k) =
       map_option (\<lambda>c. c + of_nat (requests_for srv k reqs)) (numCalls_of srv k)"
  shows "count_inv cf srv reqs s"
  unfolding count_inv_def using assms by blast

lemma count_invE:
  assumes "count_inv cf srv reqs s"
  obtains rest where "\<not> sg_panic s" "found (sg_server s) = found srv" "sg_loop s \<Longrightarrow> wire_ok (sg_codec s)"
    "\<And>req. req \<in> set (sg_running s) \<Longrightarrow> \<exists>r. answers cf (rq_mtype req) (rq_argv req) r"
    "cn_in (cd_conn (sg_codec s)) = calls_stream rest" "sg_loop s \<or> rest = []" "\<And>q. q \<in> set rest \<Longrightarrow> good_call cf srv q"
    "\<And>k. map_option (\<lambda>c. c + of_nat (running_for k (sg_running s) + requests_for srv k rest)) (numCalls_of (sg_server s) k) =
       map_option (\<lambda>c. c + of_nat (requests_for srv k reqs)) (numCalls_of srv k)"
  using assms unfolding count_inv_def by blast

lemma target_found: "found srv' = found srv \<Longrightarrow> target srv' = target srv"
  by (simp add: target_def)

lemma count_inv_read:
  assumes cnt: "count_inv cf srv reqs s" and on: "sg_loop s"
  shows "count_inv cf srv reqs (serve_read cf s)"
proof -
  let ?c = "sg_codec s"
  obtain rest where i: "\<not> sg_panic s" "found (sg_server s) = found srv" "sg_loop s \<Longrightarrow> wire_ok ?c"
    "\<And>req. req \<in> set (sg_running s) \<Longrightarrow> \<exists>r. answers cf (rq_mtype req) (rq_argv req) r"
    "cn_in (cd_conn (sg_codec s)) = calls_stream rest" "sg_loop s \<or> rest = []" "\<And>q. q \<in> set rest \<Longrightarrow> good_call cf srv q"
    "\<And>k. map_option (\<lambda>c. c + of_nat (running_for k (sg_running s) + requests_for srv k rest)) (numCalls_of (sg_server s) k) =
       map_option (\<lambda>c. c + of_nat (requests_for srv k reqs)) (numCalls_of srv k)"
    using cnt by (rule count_invE) blast
  note w = i(3) [OF on]
  show ?thesis
  proof (cases rest)
    case Nil
    then have "serve_read cf s = s\<lparr>sg_loop := False\<rparr>"
      using w i(5) readRequest_end [of ?c cf "sg_server s"] by (simp add: serve_read_def)
    then show ?thesis using i Nil by (intro count_invI [where rest = "[]"]) simp_all
  next
    case (Cons q rest')
    obtain h v where q: "q = (h, v)" by (cases q)
    have inp: "cn_in (cd_conn (sg_codec s)) = Hdr h # Val v # calls_stream rest'" using i(5) Cons q by simp
    have "good_call cf (sg_server s) (h, v)" using i(7) Cons q by (simp add: good_call_found [OF i(2)])
    then obtain req where req: "readRequest cf (sg_server s) ?c = (GoodReq req, popped ?c (calls_stream rest'))"
      "\<exists>r. answers cf (rq_mtype req) (rq_argv req) r"
      using readRequest_good [OF w inp] by blast
    then have sr: "serve_read cf s = s\<lparr>sg_codec := popped ?c (calls_stream rest'), sg_running := sg_running s @ [req]\<rparr>"
      by (simp add: serve_read_def)
    have t: "target srv (h, v) = Some (rq_service req, rq_mname req)"
      using readRequest_target [OF req(1) w inp, of v] target_found [OF i(2)] by simp
    have "running_for k (sg_running s @ [req]) + requests_for srv k rest' = running_for k (sg_running s) + requests_for srv k rest" for k
      by (auto simp: running_for_def requests_for_def Cons q t)
    then show ?thesis unfolding sr using i on req(2) by (intro count_invI [where rest = rest']) (auto simp: Cons)
  qed
qed

lemma handleCallError_in: "cn_in (cd_conn (handleCallError cf c h r)) = cn_in (cd_conn c)"
  by (cases r) (simp_all add: handleCallError_def sendResponse_def gob_Write_def enc_item_def buf_Flush_def codec_Close_def Let_def)

lemma count_inv_finish:
  assumes cnt: "count_inv cf srv reqs s" and k: "k < length (sg_running s)" and r: "\<And>x. r = Inr x \<Longrightarrow> cf_encodable cf x"
  shows "count_inv cf srv reqs (handleRequest cf s k r)"
proof -
  let ?run = "take k (sg_running s) @ drop (Suc k) (sg_running s)" and ?req = "sg_running s ! k" and ?s = "handleRequest cf s k r"
  obtain rest where i: "\<not> sg_panic s" "found (sg_server s) = found srv" "sg_loop s \<Longrightarrow> wire_ok (sg_codec s)"
    "\<And>req. req \<in> set (sg_running s) \<Longrightarrow> \<exists>r. answers cf (rq_mtype req) (rq_argv req) r"
    "cn_in (cd_conn (sg_codec s)) = calls_stream rest" "sg_loop s \<or> rest = []" "\<And>q. q \<in> set rest \<Longrightarrow> good_call cf srv q"
    "\<And>k. map_option (\<lambda>c. c + of_nat (running_for k (sg_running s) + requests_for srv k rest)) (numCalls_of (sg_server s) k) =
       map_option (\<lambda>c. c + of_nat (requests_for srv k reqs)) (numCalls_of srv k)"
    using cnt by (rule count_invE) blast
  have f: "sg_running ?s = ?run" "sg_server ?s = count_call (sg_server s) (rq_service ?req) (rq_mname ?req) (rq_argv ?req)"
    "cn_in (cd_conn (sg_codec ?s)) = cn_in (cd_conn (sg_codec s))" "sg_loop ?s = sg_loop s" "sg_panic ?s = sg_panic s"
    "sg_codec ?s = handleCallError cf (sg_codec s) (rq_header ?req) r"
    by (simp_all add: handleRequest_def handleCallError_in Let_def)
  have counts: "map_option (\<lambda>c. c + of_nat (running_for m ?run + requests_for srv m rest))
      (numCalls_of (count_call (sg_server s) (rq_service ?req) (rq_mname ?req) (rq_argv ?req)) m) =
      map_option (\<lambda>c. c + of_nat (requests_for srv m reqs)) (numCalls_of srv m)" for m
    unfolding i(8) [symmetric] numCalls_count_call running_for_remove [OF k]
    by (auto simp: option.map_comp comp_def add_ac)
  have w: "wire_ok (sg_codec ?s)" if "sg_loop s"
  proof -
    have "handleCallError cf (sg_codec s) (rq_header ?req) r = sent (sg_codec s) (pair_items (reply_pair (rq_header ?req) r))"
      by (rule handleCallError_ok [OF i(3) [OF that]]) (rule r)
    then show ?thesis using i(3) [OF that] by (simp add: f)
  qed
  have sub: "set ?run \<subseteq> set (sg_running s)" by (auto dest: in_set_takeD in_set_dropD)
  show ?thesis
  proof (rule count_invI [where rest = rest])
    show "\<not> sg_panic ?s" "found (sg_server ?s) = found srv" using i(1,2) by (simp_all add: f found_count_call)
    show "sg_loop ?s \<Longrightarrow> wire_ok (sg_codec ?s)" by (rule w) (simp add: f(4))
    show "req \<in> set (sg_running ?s) \<Longrightarrow> \<exists>r. answers cf (rq_mtype req) (rq_argv req) r" for req
      using i(4) sub unfolding f(1) by blast
    show "cn_in (cd_conn (sg_codec ?s)) = calls_stream rest" "sg_loop ?s \<or> rest = []" unfolding f(3,4) by (rule i(5), rule i(6))
    show "q \<in> set rest \<Longrightarrow> good_call cf srv q" for q by (rule i(7))
    show "map_option (\<lambda>c. c + of_nat (running_for m (sg_running ?s) + requests_for srv m rest)) (numCalls_of (sg_server ?s) m) =
       map_option (\<lambda>c. c + of_nat (requests_for srv m reqs)) (numCalls_of srv m)" for m
      unfolding f(1,2) by (rule counts)
  qed
qed

lemma count_inv_step:
  assumes cnt: "count_inv cf srv reqs s" and st: "serve_step cf s s'"
  shows "count_inv cf srv reqs s'"
  using st
proof (cases rule: serve_step.cases)
  case read
  then show ?thesis using count_inv_read [OF cnt] by simp
next
  case (finish i r)
  have "\<exists>r. answers cf (rq_mtype (sg_running s ! i)) (rq_argv (sg_running s ! i)) r"
    using cnt finish(3) by (auto simp: count_inv_def)
  then show ?thesis unfolding finish(1) using finish(4) by (intro count_inv_finish [OF cnt finish(3)]) (auto simp: answers_def)
next
  case (timeout i)
  then show ?thesis using count_inv_finish [OF cnt timeout(3), of "Inl (timeout_error cf)"] by simp
next
  case close
  from cnt close(3) show ?thesis unfolding close(1)
    by (elim count_invE) (rule count_invI, auto simp: serve_close_def gob_Close_def codec_Close_def)
qed

lemma count_inv_steps: "(serve_step cf)\<^sup>*\<^sup>* s s' \<Longrightarrow> count_inv cf srv reqs s \<Longrightarrow> count_inv cf srv reqs s'"
  by (induction rule: rtranclp_induct) (auto intro: count_inv_step)

text \<open>A connection on which nothing can be done any more has been served to its end.\<close>

lemma count_inv_over:
  assumes cnt: "count_inv cf srv reqs s" and stuck: "\<And>s'. \<not> serve_step cf s s'"
  shows "\<not> sg_loop s" "sg_running s = []" "cn_in (cd_conn (sg_codec s)) = []"
proof -
  have np: "\<not> sg_panic s" using cnt by (simp add: count_inv_def)
  show l: "\<not> sg_loop s" using serve_step.read [OF _ np] stuck by blast
  then show "cn_in (cd_conn (sg_codec s)) = []" using cnt by (auto simp: count_inv_def)
  show "sg_running s = []"
  proof (rule ccontr)
    assume "sg_running s \<noteq> []"
    then have z: "0 < length (sg_running s)" by simp
    then have "\<exists>r. answers cf (rq_mtype (sg_running s ! 0)) (rq_argv (sg_running s ! 0)) r" using cnt by (simp add: count_inv_def)
    then show False using serve_step.finish [OF np z] stuck by (auto simp: answers_def)
  qed
qed

text \<open>Serving changes nothing but the counters.\<close>

definition method_of :: "'v server \<Rightarrow> string \<times> string \<Rightarrow> 'v method_type option" where
  "method_of srv = (\<lambda>(sname, mname). case srv sname of None \<Rightarrow> None | Some svc \<Rightarrow> map_of (sv_method svc) mname)"

definition no_count :: "'v method_type \<Rightarrow> 'v method_type" where
  "no_count m = m\<lparr>mt_numCalls := 0\<rparr>"

lemma numCalls_of_method: "numCalls_of srv k = map_option mt_numCalls (method_of srv k)"
  by (cases k) (simp add: numCalls_of_def method_of_def split: option.splits)

lemma method_of_count_call: "map_option no_count (method_of (count_call srv s n v) k) = map_option no_count (method_of srv k)"
proof (cases "srv s")
  case (Some svc)
  then show ?thesis
    by (cases k; cases "map_of (sv_method svc) n")
       (auto simp: method_of_def count_call_def service_call_def update_conv no_count_def split: option.splits)
qed (simp add: count_call_def)

lemma serve_read_server [simp]: "sg_server (serve_read cf s) = sg_server s"
  by (simp add: serve_read_def split: prod.splits read_result.splits)

lemma method_of_steps:
  assumes "(serve_step cf)\<^sup>*\<^sup>* s s'"
  shows "map_option no_count (method_of (sg_server s') k) = map_option no_count (method_of (sg_server s) k)"
  using assms
proof (induction rule: rtranclp_induct)
  case (step y z)
  from step(2) have "map_option no_count (method_of (sg_server z) k) = map_option no_count (method_of (sg_server y) k)"
    by (cases rule: serve_step.cases) (simp_all add: handleRequest_def serve_close_def Let_def method_of_count_call)
  with step(3) show ?case by simp
qed simp

subsection \<open>Properties\<close>



end
