(* ===== verification/Rpc_Process.thy ===== *)
theory Rpc_Process
  imports Rpcx_System Rpc_Dial Rpc_Debug Rpc_Registry Registry_Server
begin

section \<open>HTTP handlers and default instances of a process\<close>

text \<open>
  What a process registers with \<^verbatim>\<open>http.Handle\<close>, and the package-level functions that work on a default server or
  registry (\<^verbatim>\<open>rpc/server.go\<close>, \<^verbatim>\<open>rpc/registry/registry.go\<close>, \<^verbatim>\<open>rpcx/server.go\<close>, \<^verbatim>\<open>rpcx/default_server.go\<close>,
  \<^verbatim>\<open>rpcx/registry_server\<close>). Servers and registries are objects with addresses; the default instance is the one at
  address 0. A pattern matches its own path: the program registers none that ends in a slash. Panics are messages, on the
  left.
\<close>

subsection \<open>http.ServeMux\<close>

datatype endpoint = RpcAt nat | DebugAt nat | RegistryAt nat | XRpcAt nat | XDebugAt nat | RegistryServerAt nat

type_synonym mux = "(string, endpoint) gomap"

definition http_Handle :: "string \<Rightarrow> endpoint \<Rightarrow> mux \<Rightarrow> string + mux" where
  "http_Handle pattern h m =
     (if pattern = '''' then Inl ''http: invalid pattern''
      else if map_of m pattern \<noteq> None then Inl (''http: multiple registrations for '' @ pattern)
      else Inr (m @ [(pattern, h)]))"

subsection \<open>\<^verbatim>\<open>rpc\<close>\<close>

definition defaultRPCPath :: string where "defaultRPCPath = ''/_geeprc_''"
definition defaultDebugPath :: string where "defaultDebugPath = ''/debug/geerpc''"

definition Server_HandleHTTP :: "nat \<Rightarrow> mux \<Rightarrow> string + mux" where
  "Server_HandleHTTP server m = and_then (http_Handle defaultRPCPath (RpcAt server) m) (http_Handle defaultDebugPath (DebugAt server))"

text \<open>The servers of a process, and its default server.\<close>

type_synonym 'v servers = "nat \<Rightarrow> 'v server"

definition DefaultServer :: nat where "DefaultServer = 0"

definition rpc_Accept :: "(string + 'v conn) list \<Rightarrow> 'v conn list" where
  "rpc_Accept accepted = Server_Accept accepted"

definition rpc_Register :: "'v servers \<Rightarrow> 'v receiver \<Rightarrow> (string option \<times> 'v servers) option" where
  "rpc_Register ss rcvr = map_option (\<lambda>(err, srv). (err, ss(DefaultServer := srv))) (Server_Register (ss DefaultServer) rcvr)"

definition rpc_HandleHTTP :: "mux \<Rightarrow> string + mux" where
  "rpc_HandleHTTP m = Server_HandleHTTP DefaultServer m"

subsection \<open>\<^verbatim>\<open>rpc/registry\<close>\<close>

definition rg_defaultPath :: string where "rg_defaultPath = ''/_geerpc_/registry''"

definition DefaultGeeRegister :: registry where
  "DefaultGeeRegister = rg_New rg_defaultTimeout"

definition rg_HandleHTTP :: "nat \<Rightarrow> string \<Rightarrow> mux \<Rightarrow> string + mux" where
  "rg_HandleHTTP r registryPath m = http_Handle registryPath (RegistryAt r) m"

definition registry_HandleHTTP :: "mux \<Rightarrow> string + mux" where
  "registry_HandleHTTP m = rg_HandleHTTP 0 rg_defaultPath m"

subsection \<open>\<^verbatim>\<open>rpcx\<close>\<close>

definition x_defaultRPCPath :: string where "x_defaultRPCPath = ''/_rpc_''"
definition x_defaultDebugPath :: string where "x_defaultDebugPath = ''/debug/rpc''"

definition x_HandleHTTP :: "nat \<Rightarrow> string \<Rightarrow> string \<Rightarrow> mux \<Rightarrow> string + mux" where
  "x_HandleHTTP server rpcPath debugPath m = and_then (http_Handle rpcPath (XRpcAt server) m) (http_Handle debugPath (XDebugAt server))"

text \<open>The default server has no name and no registry.\<close>

definition x_DefaultServer :: server_options where
  "x_DefaultServer = x_NewServer []"

definition x_default_Accept ::
  "'w registry_http \<Rightarrow> 'v servers \<Rightarrow> string \<Rightarrow> string \<Rightarrow> (string + 'v conn) list \<Rightarrow> 'w \<Rightarrow> (server_options \<times> 'v serving list \<times> 'w) option" where
  "x_default_Accept http ss network addr accepted w = x_Accept http x_DefaultServer (ss 0) network addr accepted w"

definition x_default_HandleHTTP :: "mux \<Rightarrow> string + mux" where
  "x_default_HandleHTTP m = x_HandleHTTP 0 x_defaultRPCPath x_defaultDebugPath m"

definition x_default_Register :: "'v servers \<Rightarrow> 'v receiver \<Rightarrow> (string option \<times> 'v servers) option" where
  "x_default_Register ss rcvr = map_option (\<lambda>(err, srv). (err, ss(0 := srv))) (x_Register (ss 0) rcvr)"

definition x_default_RegisterName :: "'v servers \<Rightarrow> string \<Rightarrow> 'v receiver \<Rightarrow> (string option \<times> 'v servers) option" where
  "x_default_RegisterName ss name rcvr = map_option (\<lambda>(err, srv). (err, ss(0 := srv))) (x_RegisterName (ss 0) name rcvr)"

definition x_default_ServeCodec :: "'v servers \<Rightarrow> 'v codec \<Rightarrow> 'v serving" where
  "x_default_ServeCodec ss c = serve_init (ss 0) c"

definition x_default_ServeConn :: "'v servers \<Rightarrow> 'v conn \<Rightarrow> 'v serving" where
  "x_default_ServeConn ss conn = x_ServeConn (ss 0) conn"

subsection \<open>\<^verbatim>\<open>rpcx/registry_server\<close>\<close>

definition hs_defaultAddr :: string where "hs_defaultAddr = '':9999''"
definition hs_defaultPath :: string where "hs_defaultPath = ''/_rpc_/registry''"
definition hs_defaultTimeout :: int where "hs_defaultTimeout = minute * 5"

definition DefaultHttpRegisteryerver :: http_registry_server where
  "DefaultHttpRegisteryerver = NewHttpRegistryServer hs_defaultTimeout"

text \<open>\<open>listen\<close> is \<^verbatim>\<open>net.Listen\<close> for \<^verbatim>\<open>tcp\<close>: an error or nothing. The result: the error that is returned at once, or the address
  that is served until the listener fails, with the handlers.\<close>

definition hs_HandleHTTP :: "(string \<Rightarrow> string option) \<Rightarrow> nat \<Rightarrow> string \<Rightarrow> string \<Rightarrow> mux \<Rightarrow> string + ((string + string) \<times> mux)" where
  "hs_HandleHTTP listen r addr registryPath m =
     (let addr = (if addr = '''' then hs_defaultAddr else addr)
      in case listen addr of
           Some err \<Rightarrow> Inr (Inl err, m)
         | None \<Rightarrow> and_then (http_Handle registryPath (RegistryServerAt r) m) (\<lambda>m'. Inr (Inr addr, m')))"

definition hs_default_HandleHTTP :: "(string \<Rightarrow> string option) \<Rightarrow> string \<Rightarrow> mux \<Rightarrow> string + ((string + string) \<times> mux)" where
  "hs_default_HandleHTTP listen addr m = hs_HandleHTTP listen 0 addr hs_defaultPath m"

text \<open>\<^verbatim>\<open>rpcx/register_main/main.go\<close>: an error of \<^verbatim>\<open>HandleHTTP\<close> is a panic.\<close>

definition startHttpRegistryServer :: "(string \<Rightarrow> string option) \<Rightarrow> string \<Rightarrow> mux \<Rightarrow> string + (string \<times> mux)" where
  "startHttpRegistryServer listen addr m =
     and_then (hs_default_HandleHTTP listen addr m) (\<lambda>(r, m'). case r of Inl err \<Rightarrow> Inl err | Inr a \<Rightarrow> Inr (a, m'))"

definition register_main :: "(string \<Rightarrow> string option) \<Rightarrow> string + (string \<times> mux)" where
  "register_main listen = startHttpRegistryServer listen '':8080'' []"

subsection \<open>Requests\<close>

text \<open>A request that reaches the process: what its handler does with the servers and registries. The arguments are those of
  the handlers: method, path, the result of hijacking the connection and of decoding the options, the header \<^verbatim>\<open>X-Rpc-Server\<close>, the
  time, how types are written and the order of \<^verbatim>\<open>Range\<close>.\<close>

record 'v http_request =
  hq_Method :: string
  hq_Path :: string
  hq_hijack :: "string + 'v conn"
  hq_opt :: "string + rpc_option"
  hq_server :: string
  hq_now :: int

datatype 'v handled = Served "'v http_served" | Page string | Listed registry http_resp | NotFound

definition mux_ServeHTTP ::
  "(gotype \<Rightarrow> string) \<Rightarrow> ('v server \<Rightarrow> string list) \<Rightarrow> mux \<Rightarrow> 'v servers \<Rightarrow> (nat \<Rightarrow> registry) \<Rightarrow> 'v http_request \<Rightarrow> 'v handled" where
  "mux_ServeHTTP ty_String order m ss rs q =
     (case map_of m (hq_Path q) of
        Some (RpcAt a) \<Rightarrow> Served (Server_ServeHTTP (ss a) (hq_Method q) (hq_hijack q) (hq_opt q))
      | Some (DebugAt a) \<Rightarrow> Page (debugHTTP_ServeHTTP ty_String (ss a) (order (ss a)))
      | Some (RegistryAt r) \<Rightarrow> (case rg_ServeHTTP (rs r) (hq_now q) (hq_Method q) (hq_server q) of (r', resp) \<Rightarrow> Listed r' resp)
      | Some (XRpcAt a) \<Rightarrow> Served (x_ServeHTTP (ss a) (hq_Method q) (hq_hijack q))
      | Some (XDebugAt a) \<Rightarrow> Page (x_debugHTTP_ServeHTTP ty_String (ss a) (order (ss a)))
      | _ \<Rightarrow> NotFound)"

subsection \<open>Facts\<close>

lemmas path_defs = defaultRPCPath_def defaultDebugPath_def rg_defaultPath_def x_defaultRPCPath_def x_defaultDebugPath_def hs_defaultPath_def

lemma http_Handle_Inr:
  "http_Handle p h m = Inr m' \<longleftrightarrow> p \<noteq> '''' \<and> map_of m p = None \<and> m' = m @ [(p, h)]"
  by (auto simp: http_Handle_def)

lemma http_Handle_again: "p \<noteq> '''' \<Longrightarrow> map_of m p = Some h' \<Longrightarrow> http_Handle p h m = Inl (''http: multiple registrations for '' @ p)"
  by (simp add: http_Handle_def)

text \<open>Registration never changes where a path leads.\<close>

lemma http_Handle_keeps: "http_Handle p h m = Inr m' \<Longrightarrow> map_of m q = Some e \<Longrightarrow> map_of m' q = Some e"
  by (auto simp: http_Handle_Inr map_add_def)

subsection \<open>Properties\<close>

text \<open>The handlers of a process. In a process without handlers the default server, the registry and the default server of \<^verbatim>\<open>rpcx\<close> can
  all be registered. Afterwards a \<^verbatim>\<open>CONNECT\<close> at the path of the server is answered with the status line that
  clients expect, and the connection is served with the options that come on it; any other method is refused; the debug
  paths show the page of their own server; the registry's path reaches the registry; and other paths are not
  found. Registering a server once more, the same or another one, panics.\<close>

theorem process_handlers:
  shows "\<exists>m. and_then (and_then (rpc_HandleHTTP []) registry_HandleHTTP) x_default_HandleHTTP = Inr m \<and>
    (\<forall>q. hq_Path q = defaultRPCPath \<longrightarrow> mux_ServeHTTP ty_String order m ss rs q =
       Served (if hq_Method q \<noteq> ''CONNECT''
         then Refused 405 [(''Content-Type'', ''text/plain; charset=utf-8'')] (''405 must CONNECT'' @ [CHR 0x0A])
         else case hq_hijack q of Inl _ \<Rightarrow> Dropped
           | Inr conn \<Rightarrow> Hijacked (''HTTP/1.0 '' @ connected @ [CHR 0x0A, CHR 0x0A]) (ServeConn (ss DefaultServer) conn (hq_opt q)))) \<and>
    (\<forall>q. hq_Path q = defaultDebugPath \<longrightarrow> mux_ServeHTTP ty_String order m ss rs q =
       Page (debugHTTP_ServeHTTP ty_String (ss DefaultServer) (order (ss DefaultServer)))) \<and>
    (\<forall>q. hq_Path q = rg_defaultPath \<and> hq_Method q = ''POST'' \<and> hq_server q \<noteq> '''' \<longrightarrow>
       (\<exists>resp. mux_ServeHTTP ty_String order m ss rs q = Listed (rg_putServer (rs 0) (hq_now q) (hq_server q)) resp \<and> rs_code resp = 200)) \<and>
    (\<forall>q. hq_Path q \<notin> {defaultRPCPath, defaultDebugPath, rg_defaultPath, x_defaultRPCPath, x_defaultDebugPath} \<longrightarrow>
       mux_ServeHTTP ty_String order m ss rs q = NotFound) \<and>
    (\<forall>a. Server_HandleHTTP a m = Inl (''http: multiple registrations for '' @ defaultRPCPath))"
proof -
  let ?m = "[(defaultRPCPath, RpcAt DefaultServer), (defaultDebugPath, DebugAt DefaultServer), (rg_defaultPath, RegistryAt 0),
    (x_defaultRPCPath, XRpcAt 0), (x_defaultDebugPath, XDebugAt 0)]"
  have m: "and_then (and_then (rpc_HandleHTTP []) registry_HandleHTTP) x_default_HandleHTTP = Inr ?m"
    by (simp add: rpc_HandleHTTP_def registry_HandleHTTP_def rg_HandleHTTP_def x_default_HandleHTTP_def x_HandleHTTP_def Server_HandleHTTP_def
        http_Handle_def path_defs)
  have l: "map_of ?m defaultRPCPath = Some (RpcAt DefaultServer)" "map_of ?m defaultDebugPath = Some (DebugAt DefaultServer)"
    "map_of ?m rg_defaultPath = Some (RegistryAt 0)" by (simp_all add: path_defs)
  have n: "map_of ?m p = None" if "p \<notin> {defaultRPCPath, defaultDebugPath, rg_defaultPath, x_defaultRPCPath, x_defaultDebugPath}" for p
    using that by auto
  have again: "Server_HandleHTTP a ?m = Inl (''http: multiple registrations for '' @ defaultRPCPath)" for a
    using http_Handle_again [OF _ l(1), of "RpcAt a"] by (simp add: Server_HandleHTTP_def defaultRPCPath_def)
  show ?thesis
    by (intro exI [of _ ?m] conjI m allI impI again)
      (simp_all only: mux_ServeHTTP_def l n option.case endpoint.case Server_ServeHTTP_def rg_ServeHTTP_def,
       auto simp: rg_ServeHTTP_def)
qed

text \<open>A heartbeat and a request for a page that nobody serves.\<close>

theorem process_handlers_witness:
  "\<exists>m resp. and_then (and_then (rpc_HandleHTTP []) registry_HandleHTTP) x_default_HandleHTTP = Inr m \<and>
    mux_ServeHTTP ty_Name (\<lambda>_. []) m (\<lambda>_. Map.empty :: int server) (\<lambda>_. DefaultGeeRegister)
      \<lparr>hq_Method = ''POST'', hq_Path = ''/_geerpc_/registry'', hq_hijack = Inl '''', hq_opt = Inl '''', hq_server = ''tcp@a'', hq_now = 7\<rparr> =
      Listed (rg_putServer DefaultGeeRegister 7 ''tcp@a'') resp \<and>
    mux_ServeHTTP ty_Name (\<lambda>_. []) m (\<lambda>_. Map.empty :: int server) (\<lambda>_. DefaultGeeRegister)
      \<lparr>hq_Method = ''GET'', hq_Path = ''/index.html'', hq_hijack = Inl '''', hq_opt = Inl '''', hq_server = '''', hq_now = 7\<rparr> = NotFound \<and>
    Server_HandleHTTP 5 m = Inl ''http: multiple registrations for /_geeprc_''"
proof -
  let ?post = "\<lparr>hq_Method = ''POST'', hq_Path = ''/_geerpc_/registry'', hq_hijack = Inl '''', hq_opt = Inl '''', hq_server = ''tcp@a'', hq_now = 7\<rparr> :: int http_request"
  let ?get = "\<lparr>hq_Method = ''GET'', hq_Path = ''/index.html'', hq_hijack = Inl '''', hq_opt = Inl '''', hq_server = '''', hq_now = 7\<rparr> :: int http_request"
  let ?serve = "\<lambda>m. mux_ServeHTTP ty_Name (\<lambda>_. []) m (\<lambda>_. Map.empty :: int server) (\<lambda>_. DefaultGeeRegister)"
  have p: "hq_Path ?post = rg_defaultPath \<and> hq_Method ?post = ''POST'' \<and> hq_server ?post \<noteq> ''''"
    "hq_Path ?get \<notin> {defaultRPCPath, defaultDebugPath, rg_defaultPath, x_defaultRPCPath, x_defaultDebugPath}"
    by (simp_all add: path_defs)
  from process_handlers [of ty_Name "\<lambda>_. []" "\<lambda>_. Map.empty :: int server" "\<lambda>_. DefaultGeeRegister"]
  obtain m where m: "and_then (and_then (rpc_HandleHTTP []) registry_HandleHTTP) x_default_HandleHTTP = Inr m"
    "\<forall>q. hq_Path q = rg_defaultPath \<and> hq_Method q = ''POST'' \<and> hq_server q \<noteq> '''' \<longrightarrow>
       (\<exists>resp. ?serve m q = Listed (rg_putServer DefaultGeeRegister (hq_now q) (hq_server q)) resp \<and> rs_code resp = 200)"
    "\<forall>q. hq_Path q \<notin> {defaultRPCPath, defaultDebugPath, rg_defaultPath, x_defaultRPCPath, x_defaultDebugPath} \<longrightarrow> ?serve m q = NotFound"
    "\<forall>a. Server_HandleHTTP a m = Inl (''http: multiple registrations for '' @ defaultRPCPath)"
    by (elim exE conjE)
  obtain resp where r: "?serve m ?post = Listed (rg_putServer DefaultGeeRegister 7 ''tcp@a'') resp"
    using m(2) [rule_format, OF p(1)] by auto
  show ?thesis
    by (rule exI [of _ m], rule exI [of _ resp], intro conjI m(1) r m(3) [rule_format, OF p(2)])
      (simp add: m(4) defaultRPCPath_def)
qed

end
