(* ===== verification/Rpc_Demo.thy ===== *)
theory Rpc_Demo
  imports Rpc_Returns Rpc_Callers Rpc_Process
begin

section \<open>The demonstration of \<^verbatim>\<open>rpc\<close> (\<^verbatim>\<open>rpc/main/main.go\<close>)\<close>

text \<open>
  A registry, two servers of a service \<^verbatim>\<open>Foo\<close> that announce themselves there, and goroutines that call it through the registry.
  The addresses that the servers listen at, the times and the network are arguments. The goroutines run as
  in \<open>Rpc_Calls\<close>; here is what they call and what they print, in the runs in which sends do not overlap on a client, no timeout fires and nothing is
  lost with the options. Sleeping is not modelled beyond its length, so of \<^verbatim>\<open>Foo.Sleep\<close> the result
  is, and the second requests of the broadcasts,
  which call it with a timeout, are left out. \<^verbatim>\<open>main\<close> does not use \<^verbatim>\<open>call\<close>, \<^verbatim>\<open>call2\<close> and \<^verbatim>\<open>broadcast\<close>; they are here too.
\<close>

subsection \<open>\<^verbatim>\<open>Foo\<close>\<close>

record args =
  Num1 :: int64
  Num2 :: int64

text \<open>The values on the wire.\<close>

datatype foo_val = VArgs args | VInt int64

definition Foo_Sum :: "args \<Rightarrow> string + int64" where
  "Foo_Sum args = Inr (Num1 args + Num2 args)"

text \<open>The nanoseconds that \<^verbatim>\<open>Sleep\<close> sleeps (the product can wrap around; a negative duration is none), and its result.\<close>

definition Foo_Sleep :: "args \<Rightarrow> int \<times> (string + int64)" where
  "Foo_Sleep args = (max 0 (sint (1000000000 * Num1 args)), Inr (Num1 args + Num2 args))"

definition main_Foo :: gotype where "main_Foo = TNamed ''main'' ''Foo'' (TBasic ''int'')"
definition main_Args :: gotype where "main_Args = TNamed ''main'' ''Args'' TStruct"

definition foo_method :: "string \<Rightarrow> (args \<Rightarrow> string + int64) \<Rightarrow> foo_val reflect_method" where
  "foo_method name f = \<lparr>rm_Name = name, rm_IsExported = True, rm_In = [TPtr main_Foo, main_Args, TPtr (TBasic ''int'')], rm_Out = [error_type],
     rm_Func = (\<lambda>v. case v of VArgs args \<Rightarrow> Some (case f args of Inl err \<Rightarrow> Inl err | Inr n \<Rightarrow> Inr (VInt n)) | VInt _ \<Rightarrow> None)\<rparr>"

definition foo_receiver :: "foo_val receiver" where
  "foo_receiver = \<lparr>rc_name = ''Foo'', rc_methods = [foo_method ''Sleep'' (\<lambda>a. snd (Foo_Sleep a)), foo_method ''Sum'' Foo_Sum]\<rparr>"

text \<open>gob: a struct is decoded into a struct, an integer into an integer.\<close>

definition demo_cf :: "(int \<Rightarrow> string) \<Rightarrow> foo_val server_cfg" where
  "demo_cf dur = \<lparr>cf_fits = (\<lambda>t v. t = main_Args \<and> (case v of VArgs _ \<Rightarrow> True | VInt _ \<Rightarrow> False)), cf_encodable = (\<lambda>_. True),
     cf_timeout = op_HandleTimeout DefaultOption, cf_dur = dur\<rparr>"

definition demo_ccf :: "foo_val client_cfg" where
  "demo_ccf = \<lparr>cc_fits = (\<lambda>v. case v of VInt _ \<Rightarrow> True | VArgs _ \<Rightarrow> False), cc_encodable = (\<lambda>_. True)\<rparr>"

subsection \<open>Registry and servers\<close>

text \<open>\<open>listen\<close> is \<^verbatim>\<open>net.Listen\<close>; its error is ignored, and serving on a listener that is nil panics.\<close>

definition startRegistry :: "(string \<Rightarrow> string option) \<Rightarrow> mux \<Rightarrow> string + mux" where
  "startRegistry listen m =
     and_then (registry_HandleHTTP m)
       (\<lambda>m'. if listen '':9999'' = None then Inr m' else Inl ''runtime error: invalid memory address or nil pointer dereference'')"

text \<open>The server that accepts connections at \<open>laddr\<close>, and what its heartbeats (the first and \<open>n\<close> more) do.\<close>

definition startServer :: "'w post_client \<Rightarrow> string \<Rightarrow> string \<Rightarrow> int \<Rightarrow> nat \<Rightarrow> 'w \<Rightarrow> (foo_val server \<times> 'w) option" where
  "startServer post registryAddr laddr now n w =
     (case Server_Register NewServer foo_receiver of
        None \<Rightarrow> None
      | Some (_, server) \<Rightarrow> Some (server, rg_Heartbeat post registryAddr (''tcp@'' @ laddr) 0 now n w))"

subsection \<open>Clients\<close>

definition fmt_d :: "int64 \<Rightarrow> string" where
  "fmt_d n = (if sint n < 0 then ''-'' @ strconv_Itoa (nat (- sint n)) else strconv_Itoa (nat (sint n)))"

text \<open>\<^verbatim>\<open>request\<close>: the line that is printed, for what \<^verbatim>\<open>Call\<close> and \<^verbatim>\<open>Broadcast\<close> return (an error, or the value in \<^verbatim>\<open>reply\<close>).\<close>

definition request_line :: "string \<Rightarrow> string \<Rightarrow> args \<Rightarrow> string + int64 \<Rightarrow> string + int64 \<Rightarrow> string" where
  "request_line typ serviceMethod args call bcast =
     (let r = (if typ = ''call'' then call else if typ = ''broadcast'' then bcast else Inr 0)
      in case r of
           Inl err \<Rightarrow> typ @ '' '' @ serviceMethod @ '' error: '' @ err
         | Inr reply \<Rightarrow> typ @ '' '' @ serviceMethod @ '' success: '' @ fmt_d (Num1 args) @ '' + '' @ fmt_d (Num2 args) @ '' = '' @ fmt_d reply)"

definition reply_int :: "foo_val option \<Rightarrow> int64" where
  "reply_int r = (case r of Some (VInt n) \<Rightarrow> n | _ \<Rightarrow> 0)"

text \<open>What \<^verbatim>\<open>Call\<close> has returned to a goroutine.\<close>

fun outcome :: "foo_val phase \<Rightarrow> string + int64" where
  "outcome (Returned (Inl err)) = Inl err"
| "outcome (Returned (Inr r)) = Inr (reply_int r)"
| "outcome _ = Inl ''still running''"

definition demo_args :: "nat \<Rightarrow> args" where
  "demo_args i = \<lparr>Num1 = of_nat i, Num2 = of_nat i * of_nat i\<rparr>"

definition demo_calls :: "(string \<times> foo_val) list" where
  "demo_calls = map (\<lambda>i. (''Foo.Sum'', VArgs (demo_args i))) [0..<5]"

text \<open>\<^verbatim>\<open>callR\<close> and \<^verbatim>\<open>call2\<close>: the state in which the five goroutines start, what they have printed, and the deferred \<^verbatim>\<open>Close\<close>.\<close>

definition callR :: "'r intn \<Rightarrow> 'r \<Rightarrow> string \<Rightarrow> registry \<Rightarrow> (nat \<Rightarrow> foo_val client) \<Rightarrow> (nat \<Rightarrow> foo_val serving) \<Rightarrow>
    ('r gee_disc \<times> registry, foo_val) calls_state" where
  "callR intn r registry reg heap conns =
     calls_init (NewXClient (gd_New intn r registry 0, reg) RandomSelect None heap) (replicate 5 Begin) conns"

definition call2 :: "'r intn \<Rightarrow> 'r \<Rightarrow> string \<Rightarrow> string \<Rightarrow> (nat \<Rightarrow> foo_val client) \<Rightarrow> (nat \<Rightarrow> foo_val serving) \<Rightarrow>
    ('r multi_disc, foo_val) calls_state" where
  "call2 intn r addr1 addr2 heap conns =
     calls_init (NewXClient (ms_New intn r [''tcp@'' @ addr1, ''tcp@'' @ addr2]) RandomSelect None heap) (replicate 5 Begin) conns"

definition call_lines :: "('d, foo_val) calls_state \<Rightarrow> string list" where
  "call_lines st = map (\<lambda>i. request_line ''call'' ''Foo.Sum'' (demo_args i) (outcome (cs_jobs st ! i)) (Inr 0)) [0..<5]"

definition demo_end :: "('d, foo_val) calls_state \<Rightarrow> ('d, foo_val) xclient" where
  "demo_end st = XClient_Close (cs_xc st)"

text \<open>\<^verbatim>\<open>call\<close>: five goroutines on one client that was dialled by HTTP, and what each prints. The error of dialling is dropped, and the
  client that is nil then panics; \<open>server\<close> is the one at the address. An error of a call ends the process after its line.\<close>

definition demo_call :: "foo_val network \<Rightarrow> string \<Rightarrow> foo_val server \<Rightarrow> string + (foo_val link, foo_val) callers" where
  "demo_call nw addr server =
     (case fst (DialHTTP nw ''tcp'' addr []) of
        Inl err \<Rightarrow> Inl ''runtime error: invalid memory address or nil pointer dereference''
      | Inr (cl, opt) \<Rightarrow> Inr (callers_init \<lparr>lk_client = cl, lk_serving = serve_init server (NewGobCodec (conn_of []))\<rparr> demo_calls))"

definition demo_call_line :: "nat \<Rightarrow> foo_val turn \<Rightarrow> string" where
  "demo_call_line i t =
     (case t of
        Told (Inl err) \<Rightarrow> ''call Foo.Sum error:'' @ err
      | Told (Inr r) \<Rightarrow> strconv_Itoa i @ '': '' @ fmt_d (Num1 (demo_args i)) @ '' + '' @ fmt_d (Num2 (demo_args i)) @ '' = '' @ fmt_d (reply_int r)
      | _ \<Rightarrow> [])"

text \<open>The first requests of \<^verbatim>\<open>broadcastR\<close> and \<^verbatim>\<open>broadcast\<close>: each of five goroutines gets the list of servers and starts a
  goroutine for each. The \<open>k\<close>-th server's call in the \<open>i\<close>-th broadcast is number \<open>i * length servers + k\<close>; they
  end in the order \<open>order i\<close>.\<close>

definition broadcast_calls :: "string list \<Rightarrow> (string \<times> foo_val) list" where
  "broadcast_calls servers = concat (map (\<lambda>i. map (\<lambda>s. (''Foo.Sum'', VArgs (demo_args i))) servers) [0..<5])"

definition broadcast_jobs :: "string list \<Rightarrow> foo_val phase list" where
  "broadcast_jobs servers = concat (replicate 5 (map Chosen servers))"

definition demo_broadcast :: "'r intn \<Rightarrow> 'r \<Rightarrow> string \<Rightarrow> string \<Rightarrow> (nat \<Rightarrow> foo_val client) \<Rightarrow> (nat \<Rightarrow> foo_val serving) \<Rightarrow>
    ('r multi_disc, foo_val) calls_state" where
  "demo_broadcast intn r addr1 addr2 heap conns =
     (let d = ms_New intn r [''tcp@'' @ addr1, ''tcp@'' @ addr2]
      in calls_init (NewXClient d RandomSelect None heap) (case ms_GetAll d of Inl err \<Rightarrow> [] | Inr servers \<Rightarrow> broadcast_jobs servers) conns)"

text \<open>The phases of the two calls of each broadcast, in the order in which they ended, and what is printed.\<close>

definition ended_in :: "('d, foo_val) calls_state \<Rightarrow> (nat \<Rightarrow> foo_val phase list) \<Rightarrow> bool" where
  "ended_in st order \<longleftrightarrow> (\<forall>i < 5. mset (order i) = mset (map (\<lambda>k. cs_jobs st ! (i * 2 + k)) [0..<2]))"

definition bcast_result :: "foo_val phase list \<Rightarrow> string + int64" where
  "bcast_result ended =
     (let b = Broadcast_wait True (map outcome ended)
      in case bc_e b of Some err \<Rightarrow> Inl err | None \<Rightarrow> Inr (case bc_reply b of Some n \<Rightarrow> n | None \<Rightarrow> 0))"

definition broadcast_lines :: "(nat \<Rightarrow> foo_val phase list) \<Rightarrow> string list" where
  "broadcast_lines order = map (\<lambda>i. request_line ''broadcast'' ''Foo.Sum'' (demo_args i) (Inr 0) (bcast_result (order i))) [0..<5]"

text \<open>The lists that goroutines get from a registry, each at its time, and the discovery afterwards.\<close>

fun get_lists :: "(int \<times> int) list \<Rightarrow> ('r gee_disc \<times> registry, foo_val) xclient \<Rightarrow>
    (string + string list) list \<times> ('r gee_disc \<times> registry, foo_val) xclient" where
  "get_lists [] xc = ([], xc)"
| "get_lists ((t, t') # ts) xc =
     (let (l, xc1) = Broadcast_servers (gd_get_all (registry_get t) t t') xc; (ls, xc2) = get_lists ts xc1
      in (l # ls, xc2))"

definition broadcastR :: "'r intn \<Rightarrow> 'r \<Rightarrow> string \<Rightarrow> registry \<Rightarrow> (int \<times> int) list \<Rightarrow> (nat \<Rightarrow> foo_val client) \<Rightarrow> (nat \<Rightarrow> foo_val serving) \<Rightarrow>
    ('r gee_disc \<times> registry, foo_val) calls_state" where
  "broadcastR intn r registry reg ts heap conns =
     (let (lists, xc) = get_lists ts (NewXClient (gd_New intn r registry 0, reg) RandomSelect None heap)
      in calls_init xc (concat (map (\<lambda>l. case l of Inl err \<Rightarrow> [] | Inr servers \<Rightarrow> map Chosen servers) lists)) conns)"

text \<open>\<^verbatim>\<open>main\<close>, up to its two calls: the handlers, the servers and the registry.\<close>

definition demo_registryAddr :: string where "demo_registryAddr = ''http://localhost:9999/_geerpc_/registry''"

definition rpc_main :: "(string \<Rightarrow> string option) \<Rightarrow> string \<Rightarrow> int \<Rightarrow> string \<Rightarrow> int \<Rightarrow>
    string + mux \<times> (string \<times> foo_val server) list \<times> registry" where
  "rpc_main listen laddr1 t1 laddr2 t2 =
     and_then (startRegistry listen [])
       (\<lambda>m. case startServer rg_post demo_registryAddr laddr1 t1 0 DefaultGeeRegister of
              None \<Rightarrow> Inl ''exit status 1''
            | Some (server1, reg1) \<Rightarrow>
                (case startServer rg_post demo_registryAddr laddr2 t2 0 reg1 of
                   None \<Rightarrow> Inl ''exit status 1''
                 | Some (server2, reg2) \<Rightarrow> Inr (m, [(''tcp@'' @ laddr1, server1), (''tcp@'' @ laddr2, server2)], reg2)))"

text \<open>The system that \<^verbatim>\<open>main\<close> has set up, for calls at the times of \<open>window\<close>.\<close>

definition foo_sys :: "('t \<Rightarrow> 'd \<Rightarrow> int \<Rightarrow> ('d \<times> (string + string)) option) \<Rightarrow> 't set \<Rightarrow> foo_val network \<Rightarrow> (int \<Rightarrow> string) \<Rightarrow>
    (string \<times> foo_val server) list \<Rightarrow> ('t, 'd, foo_val) calls_sys" where
  "foo_sys get tms nw dur servers = \<lparr>sy_get = get, sy_times = tms, sy_nw = nw, sy_ccf = demo_ccf, sy_cf = demo_cf dur,
     sy_server = (\<lambda>s. case map_of servers s of Some server \<Rightarrow> server | None \<Rightarrow> NewServer)\<rparr>"

definition demo_sys :: "'r intn \<Rightarrow> int set \<Rightarrow> foo_val network \<Rightarrow> (int \<Rightarrow> string) \<Rightarrow> (string \<times> foo_val server) list \<Rightarrow>
    (int \<times> int, 'r gee_disc \<times> registry, foo_val) calls_sys" where
  "demo_sys intn window nw dur servers = foo_sys (gd_get_at intn) (window \<times> UNIV) nw dur servers"

subsection \<open>Facts\<close>

definition foo_server :: "foo_val server" where
  "foo_server = [''Foo'' \<mapsto> \<lparr>sv_name = ''Foo'',
     sv_method = [(''Sleep'', method_entry (foo_method ''Sleep'' (\<lambda>a. snd (Foo_Sleep a)))), (''Sum'', method_entry (foo_method ''Sum'' Foo_Sum))]\<rparr>]"

lemma foo_server_registered: "Server_Register NewServer foo_receiver = Some (None, foo_server)"
  by (simp add: Server_Register_def newService_def foo_receiver_def registerMethods_def register_method_def foo_method_def isExportedOrBuiltinType_def
      main_Args_def main_Foo_def error_type_def ast_IsExported_def foo_server_def NewServer_def method_entry_def Let_def)

lemma foo_server_found: "found foo_server ''Foo.Sum'' = Inr (''Foo'', ''Sum'', method_entry (foo_method ''Sum'' Foo_Sum))"
  by (simp add: found_def findService_def foo_server_def method_entry_def Let_def)

lemma foo_server_result: "rpc_result foo_server ''Foo.Sum'' (VArgs a) = Some (VInt (Num1 a + Num2 a))"
  by (simp add: rpc_result_def foo_server_found method_entry_def foo_method_def Foo_Sum_def)

lemma foo_server_callable: "callable demo_ccf (demo_cf dur) foo_server (''Foo.Sum'', VArgs a)"
  by (simp add: callable_def demo_ccf_def demo_cf_def foo_server_result good_call_def foo_server_found answers_def method_entry_def foo_method_def
      mt_newArgv_def mt_newReplyv_def main_Args_def Foo_Sum_def)

text \<open>The registry after both servers have announced themselves.\<close>

definition demo_registry :: "string \<Rightarrow> int \<Rightarrow> string \<Rightarrow> int \<Rightarrow> registry" where
  "demo_registry s1 t1 s2 t2 = rg_run (rg_New rg_defaultTimeout) [(t1, ''POST'', s1), (t2, ''POST'', s2)]"

definition demo_window :: "int \<Rightarrow> int \<Rightarrow> int set" where
  "demo_window t1 t2 = {max t1 t2..<min t1 t2 + 5 * minute}"

lemma demo_registry_steady:
  assumes "s1 \<noteq> s2" "clean_addr s1" "clean_addr s2"
  shows "registry_steady (demo_window t1 t2) (sort [s1, s2]) (demo_registry s1 t1 s2 t2)"
proof -
  have "s1 \<noteq> ''''" "s2 \<noteq> ''''" using assms by (auto simp: clean_addr_def)
  moreover have "list_all clean_addr (sort [s1, s2])" using assms by (simp add: list_all_iff)
  ultimately show ?thesis using assms(1)
    by (auto simp: registry_steady_def demo_window_def demo_registry_def rg_run_def rg_New_def rg_ServeHTTP_def rg_putServer_def
        rg_aliveServers_def rg_defaultTimeout_def)
qed

lemma rpc_main_ok:
  assumes "listen '':9999'' = None"
  shows "rpc_main listen laddr1 t1 laddr2 t2 = Inr ([(rg_defaultPath, RegistryAt 0)], [(''tcp@'' @ laddr1, foo_server), (''tcp@'' @ laddr2, foo_server)],
    demo_registry (''tcp@'' @ laddr1) t1 (''tcp@'' @ laddr2) t2)"
proof -
  have "startRegistry listen [] = Inr [(rg_defaultPath, RegistryAt 0)]"
    using assms by (simp add: startRegistry_def registry_HandleHTTP_def rg_HandleHTTP_def http_Handle_def rg_defaultPath_def)
  then show ?thesis
    by (simp add: rpc_main_def startServer_def foo_server_registered rg_Heartbeat_run [OF refl] DefaultGeeRegister_def demo_registry_def rg_run_def)
qed

text \<open>An address as \<^verbatim>\<open>l.Addr().String()\<close> writes it.\<close>

definition listen_addr :: "string \<Rightarrow> bool" where
  "listen_addr a \<longleftrightarrow> a \<noteq> '''' \<and> CHR '','' \<notin> set a \<and> CHR ''@'' \<notin> set a \<and> \<not> is_space (last a)"

lemma listen_addr_clean: "listen_addr a \<Longrightarrow> clean_addr (''tcp@'' @ a)"
  by (simp add: listen_addr_def clean_addr_def is_space_def)

text \<open>The servers in the order in which the registry lists them.\<close>

definition demo_servers :: "string \<Rightarrow> string \<Rightarrow> string list" where
  "demo_servers a1 a2 = sort [''tcp@'' @ a1, ''tcp@'' @ a2]"

lemma demo_servers_set: "set (demo_servers a1 a2) = {''tcp@'' @ a1, ''tcp@'' @ a2}"
  unfolding demo_servers_def by (simp only: set_sort list.set)

definition foo_servers :: "string \<Rightarrow> string \<Rightarrow> (string \<times> foo_val server) list" where
  "foo_servers a1 a2 = [(''tcp@'' @ a1, foo_server), (''tcp@'' @ a2, foo_server)]"

lemma foo_sys_simps:
  "sy_get (foo_sys get tms nw dur servers) = get" "sy_times (foo_sys get tms nw dur servers) = tms"
  "sy_nw (foo_sys get tms nw dur servers) = nw" "sy_ccf (foo_sys get tms nw dur servers) = demo_ccf"
  "sy_cf (foo_sys get tms nw dur servers) = demo_cf dur"
  by (simp_all add: foo_sys_def)

lemma foo_sys_server:
  assumes "s \<in> {''tcp@'' @ a1, ''tcp@'' @ a2}"
  shows "sy_server (foo_sys get tms nw dur (foo_servers a1 a2)) s = foo_server"
  using assms by (auto simp: foo_sys_def foo_servers_def)

text \<open>The two servers can be dialled.\<close>

definition dials :: "foo_val network \<Rightarrow> string \<Rightarrow> string \<Rightarrow> bool" where
  "dials nw a1 a2 \<longleftrightarrow> (\<forall>a \<in> {a1, a2}. listen_addr a \<and> nw_dial nw ''tcp'' a 0 = Inr (conn_of []))"

definition sums_only :: "(string \<times> foo_val) list \<Rightarrow> bool" where
  "sums_only calls \<longleftrightarrow> length calls < 2 ^ 63 \<and> (\<forall>c \<in> set calls. \<exists>a. c = (''Foo.Sum'', VArgs a))"

lemma foo_sys_ok:
  assumes "dials nw a1 a2" "sums_only calls"
  shows "sys_ok (foo_sys get tms nw dur (foo_servers a1 a2)) {''tcp@'' @ a1, ''tcp@'' @ a2} calls"
proof -
  let ?sy = "foo_sys get tms nw dur (foo_servers a1 a2)" and ?S = "{''tcp@'' @ a1, ''tcp@'' @ a2}"
  have "reaches nw (''tcp@'' @ a1)" "reaches nw (''tcp@'' @ a2)"
    by (rule reaches_tcp; use assms(1) in \<open>simp add: listen_addr_def dials_def\<close>)+
  then have r: "\<forall>s \<in> ?S. reaches nw s" by blast
  have "\<forall>s \<in> ?S. \<forall>c \<in> set calls. callable demo_ccf (demo_cf dur) (sy_server ?sy s) c"
  proof (intro ballI)
    fix s c
    assume s: "s \<in> ?S" and "c \<in> set calls"
    then obtain a where c: "c = (''Foo.Sum'', VArgs a)" using assms(2) unfolding sums_only_def by blast
    show "callable demo_ccf (demo_cf dur) (sy_server ?sy s) c" unfolding foo_sys_server [OF s] c by (rule foo_server_callable)
  qed
  with r show ?thesis using assms(2) unfolding sys_ok_def sums_only_def foo_sys_simps by blast
qed

text \<open>What is printed.\<close>

definition demo_lines :: "string \<Rightarrow> string list" where
  "demo_lines typ = map (\<lambda>l. typ @ '' Foo.Sum success: '' @ l) [''0 + 0 = 0'', ''1 + 1 = 2'', ''2 + 4 = 6'', ''3 + 9 = 12'', ''4 + 16 = 20'']"

lemma Itoa_values: "strconv_Itoa 0 = ''0''" "strconv_Itoa 1 = ''1''" "strconv_Itoa 2 = ''2''" "strconv_Itoa 3 = ''3''" "strconv_Itoa 4 = ''4''"
  "strconv_Itoa 6 = ''6''" "strconv_Itoa 9 = ''9''" "strconv_Itoa 12 = ''12''" "strconv_Itoa 16 = ''16''" "strconv_Itoa 20 = ''20''"
  by code_simp+

lemmas demo_itoa = Itoa_values Itoa_values(2) [unfolded One_nat_def]

lemma demo_lines_eq:
  "map (\<lambda>i. request_line ''call'' ''Foo.Sum'' (demo_args i) (Inr (of_nat i + of_nat i * of_nat i)) b) [0..<5] = demo_lines ''call''"
  "map (\<lambda>i. request_line ''broadcast'' ''Foo.Sum'' (demo_args i) b (Inr (of_nat i + of_nat i * of_nat i))) [0..<5] = demo_lines ''broadcast''"
  by (simp_all add: upt_conv_Cons request_line_def demo_args_def demo_lines_def fmt_d_def demo_itoa)

text \<open>The lists that the broadcasts get.\<close>

lemma get_lists_live:
  assumes "gd_live intn window servers (xc_d xc)" "\<forall>(t, t') \<in> set ts. t \<in> window"
  shows "\<exists>d. get_lists ts xc = (replicate (length ts) (Inr servers), xc\<lparr>xc_d := d\<rparr>) \<and> gd_live intn window servers d"
  using assms
proof (induction ts xc rule: get_lists.induct)
  case (1 xc)
  show ?case by (rule exI [of _ "xc_d xc"]) (use 1 in simp)
next
  case (2 t t' ts xc)
  obtain d reg where dr: "xc_d xc = (d, reg)" by (cases "xc_d xc")
  obtain d' where d': "gd_Refresh (registry_get t) d t t' reg = (d', None, reg)" "ms_servers (gd_multi d') = servers"
    using gd_Refresh_live [of intn window servers d reg t t'] 2(2,3) dr by auto
  let ?xc = "xc\<lparr>xc_d := (d', reg)\<rparr>"
  have b: "Broadcast_servers (gd_get_all (registry_get t) t t') xc = (Inr servers, ?xc)"
    by (simp add: Broadcast_servers_def gd_get_all_def gd_GetAll_def dr d' ms_GetAll_def)
  have "gd_live intn window servers (xc_d ?xc)" using 2(2) d'(2) dr by (simp add: gd_live_def)
  then obtain e where "get_lists ts ?xc = (replicate (length ts) (Inr servers), ?xc\<lparr>xc_d := e\<rparr>)" "gd_live intn window servers e"
    using 2(1) [OF b [symmetric] refl] 2(3) by auto
  then show ?case using b by (intro exI [of _ e]) simp
qed

lemma demo_calls_nth: "i < 5 \<Longrightarrow> demo_calls ! i = (''Foo.Sum'', VArgs (demo_args i))"
  by (simp add: demo_calls_def)

lemma concat_nth:
  "i < m \<Longrightarrow> k < length xs \<Longrightarrow> concat (map (\<lambda>i. map (f i) xs) [0..<m]) ! (i * length xs + k) = f i (xs ! k)"
proof (induction m)
  case (Suc m)
  have len: "length (concat (map (\<lambda>i. map (f i) xs) [0..<m])) = m * length xs" by (simp add: length_concat sum_list_triv comp_def)
  show ?case
  proof (cases "i = m")
    case True
    then show ?thesis using Suc.prems len by (simp add: nth_append)
  next
    case False
    then have "i < m" using Suc.prems(1) by simp
    then have "Suc i * length xs \<le> m * length xs" by (intro mult_le_mono1) simp
    then have "i * length xs + k < m * length xs" using Suc.prems(2) by simp
    then show ?thesis using Suc.IH [OF \<open>i < m\<close>] Suc.prems(2) len by (simp add: nth_append)
  qed
qed simp

text \<open>A system in which only \<^verbatim>\<open>Foo.Sum\<close> is called, by goroutines that may choose among the two servers.\<close>

definition demo_setup :: "'r intn \<Rightarrow> foo_val network \<Rightarrow> string \<Rightarrow> int \<Rightarrow> string \<Rightarrow> int \<Rightarrow> bool" where
  "demo_setup intn nw laddr1 t1 laddr2 t2 \<longleftrightarrow> draws intn \<and> laddr1 \<noteq> laddr2 \<and> dials nw laddr1 laddr2 \<and> \<bar>t1 - t2\<bar> < 5 * minute"

lemma demo_live:
  assumes "demo_setup intn nw laddr1 t1 laddr2 t2"
  shows "gd_live intn (demo_window t1 t2) (demo_servers laddr1 laddr2)
    (gd_New intn r url timeout, demo_registry (''tcp@'' @ laddr1) t1 (''tcp@'' @ laddr2) t2)"
proof -
  have "registry_steady (demo_window t1 t2) (demo_servers laddr1 laddr2) (demo_registry (''tcp@'' @ laddr1) t1 (''tcp@'' @ laddr2) t2)"
    unfolding demo_servers_def by (rule demo_registry_steady) (use assms listen_addr_clean in \<open>auto simp: demo_setup_def dials_def\<close>)
  then show ?thesis using assms by (simp add: gd_live_def gd_New_def Let_def demo_setup_def)
qed

lemma demo_window_nonempty: "demo_setup intn nw laddr1 t1 laddr2 t2 \<Longrightarrow> demo_window t1 t2 \<times> (UNIV :: int set) \<noteq> {}"
  by (auto simp: demo_window_def demo_setup_def)

lemma bcast_all:
  assumes "order \<noteq> []" "\<forall>p \<in> set order. outcome p = Inr v"
  shows "bcast_result order = Inr v"
proof -
  have rs: "map outcome order = replicate (length order) (Inr v)" using assms(2) by (intro replicate_eqI) auto
  have "errs (replicate n (Inr v :: string + int64)) = []" "vals (replicate n (Inr v :: string + int64)) = replicate n v" for n
    by (induction n) simp_all
  then have ev: "errs (map outcome order) = []" "vals (map outcome order) = replicate (length order) v" unfolding rs by simp_all
  have "bc_e (Broadcast_wait True (map outcome order)) = first_of None (errs (map outcome order))"
    "bc_reply (Broadcast_wait True (map outcome order)) = first_of None (vals (map outcome order))"
    by (simp_all add: Broadcast_wait_def Broadcast_e Broadcast_reply Broadcast_init_def)
  then show ?thesis using assms(1) unfolding ev by (cases order) (simp_all add: bcast_result_def first_of_def)
qed

text \<open>Whatever discovery is used: sums are what is returned.\<close>

context live_discovery
begin

lemma sums_return:
  assumes net: "dials nw a1 a2" and calls: "sums_only calls" and S: "servers = {''tcp@'' @ a1, ''tcp@'' @ a2}" and ne: "times \<noteq> {}"
    and inv: "calm_inv (foo_sys get times nw dur (foo_servers a1 a2)) jobs calls st0"
  shows "ends_in (calm_step (foo_sys get times nw dur (foo_servers a1 a2)) calls) fine_work st0
    (\<lambda>st. \<forall>j < length calls. \<forall>a. calls ! j = (''Foo.Sum'', VArgs a) \<longrightarrow> outcome (cs_jobs st ! j) = Inr (Num1 a + Num2 a))"
proof -
  let ?sy = "foo_sys get times nw dur (foo_servers a1 a2)"
  have "sys_ok ?sy servers calls" unfolding S by (rule foo_sys_ok [OF net calls])
  from calm_calls_return [OF this foo_sys_simps(1,2) ne inv] show ?thesis
  proof (rule ends_in_mono, intro allI impI)
    fix st j a
    assume ret: "\<forall>j < length calls. \<exists>s. may_use servers (jobs ! j) s \<and>
        cs_jobs st ! j = Returned (Inr (rpc_result (sy_server ?sy s) (fst (calls ! j)) (snd (calls ! j))))"
      and j: "j < length calls" "calls ! j = (''Foo.Sum'', VArgs a)"
    obtain s where s: "s \<in> {''tcp@'' @ a1, ''tcp@'' @ a2}" "cs_jobs st ! j = Returned (Inr (rpc_result (sy_server ?sy s) ''Foo.Sum'' (VArgs a)))"
      using ret [rule_format, OF j(1)] unfolding j(2) may_use_def S fst_conv snd_conv by blast
    show "outcome (cs_jobs st ! j) = Inr (Num1 a + Num2 a)"
      unfolding s(2) foo_sys_server [OF s(1)] foo_server_result by (simp add: reply_int_def)
  qed
qed

text \<open>The five calls, and the five broadcasts to two servers.\<close>

lemma five_calls:
  assumes "dials nw a1 a2" "servers = {''tcp@'' @ a1, ''tcp@'' @ a2}" "times \<noteq> {}"
    and "calm_inv (foo_sys get times nw dur (foo_servers a1 a2)) jobs demo_calls st0"
  shows "ends_in (calm_step (foo_sys get times nw dur (foo_servers a1 a2)) demo_calls) fine_work st0 (\<lambda>st. call_lines st = demo_lines ''call'')"
proof -
  have c: "sums_only demo_calls" "length demo_calls = 5" by (auto simp: sums_only_def demo_calls_def)
  from sums_return [OF assms(1) c(1) assms(2-4)] show ?thesis
  proof (rule ends_in_mono)
    fix st :: "('d, foo_val) calls_state"
    assume r: "\<forall>j < length demo_calls. \<forall>a. demo_calls ! j = (''Foo.Sum'', VArgs a) \<longrightarrow> outcome (cs_jobs st ! j) = Inr (Num1 a + Num2 a)"
    have "outcome (cs_jobs st ! i) = Inr (of_nat i + of_nat i * of_nat i)" if "i < 5" for i
      using r [rule_format, OF _ demo_calls_nth] that c(2) by (simp add: demo_args_def)
    then show "call_lines st = demo_lines ''call''" unfolding call_lines_def demo_lines_eq(1) [of "Inr 0", symmetric] by (intro map_cong) auto
  qed
qed

lemma five_broadcasts:
  assumes "dials nw a1 a2" "servers = {''tcp@'' @ a1, ''tcp@'' @ a2}" "times \<noteq> {}" and n: "length S = 2"
    and "calm_inv (foo_sys get times nw dur (foo_servers a1 a2)) jobs (broadcast_calls S) st0"
  shows "ends_in (calm_step (foo_sys get times nw dur (foo_servers a1 a2)) (broadcast_calls S)) fine_work st0
    (\<lambda>st. \<forall>order. ended_in st order \<longrightarrow> broadcast_lines order = demo_lines ''broadcast'')"
proof -
  let ?calls = "broadcast_calls S"
  have c: "sums_only ?calls" "length ?calls = 10" by (auto simp: sums_only_def broadcast_calls_def length_concat comp_def sum_list_triv n)
  from sums_return [OF assms(1) c(1) assms(2,3,5)] show ?thesis
  proof (rule ends_in_mono, intro allI impI)
    fix st :: "('d, foo_val) calls_state" and order
    assume r: "\<forall>j < length ?calls. \<forall>a. ?calls ! j = (''Foo.Sum'', VArgs a) \<longrightarrow> outcome (cs_jobs st ! j) = Inr (Num1 a + Num2 a)"
      and order: "ended_in st order"
    have "bcast_result (order i) = Inr (of_nat i + of_nat i * of_nat i)" if i: "i < 5" for i
    proof (rule bcast_all)
      have "outcome (cs_jobs st ! (i * 2 + k)) = Inr (of_nat i + of_nat i * of_nat i)" if k: "k < 2" for k
      proof -
        have "?calls ! (i * 2 + k) = (''Foo.Sum'', VArgs (demo_args i))"
          using concat_nth [OF i, of k S "\<lambda>i s. (''Foo.Sum'', VArgs (demo_args i))"] k by (simp add: broadcast_calls_def n)
        moreover have "i * 2 + k < length ?calls" using i k c(2) by simp
        ultimately show ?thesis using r by (simp add: demo_args_def)
      qed
      moreover have set: "set (order i) = (\<lambda>k. cs_jobs st ! (i * 2 + k)) ` {0..<2}"
        using order i unfolding ended_in_def by (metis mset_eq_setD set_map set_upt)
      ultimately show "\<forall>p \<in> set (order i). outcome p = Inr (of_nat i + of_nat i * of_nat i)" by auto
      show "order i \<noteq> []" using set by auto
    qed
    then show "broadcast_lines order = demo_lines ''broadcast''"
      unfolding broadcast_lines_def demo_lines_eq(2) [of "Inr 0", symmetric] by (intro map_cong) auto
  qed
qed

end

subsection \<open>\<^verbatim>\<open>callR\<close> and \<^verbatim>\<open>broadcastR\<close>\<close>

lemma rpc_demo_callR:
  assumes "listen '':9999'' = None" and "demo_setup intn nw laddr1 t1 laddr2 t2"
  shows "\<exists>m servers reg. rpc_main listen laddr1 t1 laddr2 t2 = Inr (m, servers, reg) \<and>
    ends_in (calm_step (demo_sys intn (demo_window t1 t2) nw dur servers) demo_calls) fine_work
      (callR intn r demo_registryAddr reg heap conns) (\<lambda>st. call_lines st = demo_lines ''call'')"
proof -
  let ?reg = "demo_registry (''tcp@'' @ laddr1) t1 (''tcp@'' @ laddr2) t2"
  let ?xc = "NewXClient (gd_New intn r demo_registryAddr 0, ?reg) RandomSelect None heap"
  have "gdl.calm_inv intn (demo_window t1 t2) (demo_servers laddr1 laddr2) sy (replicate 5 Begin) demo_calls
      (callR intn r demo_registryAddr ?reg heap conns)" for sy
    unfolding callR_def using demo_live [OF assms(2)]
    by (intro gdl.calm_inv_init) (simp_all add: start_ok_def demo_calls_def NewXClient_def)
  from gdl.five_calls [OF _ demo_servers_set demo_window_nonempty [OF assms(2)] this, of nw dur] show ?thesis
    using rpc_main_ok [of listen laddr1 t1 laddr2 t2] assms unfolding demo_sys_def demo_setup_def foo_servers_def by blast
qed

lemma rpc_demo_broadcasts:
  assumes "listen '':9999'' = None" and "demo_setup intn nw laddr1 t1 laddr2 t2"
    and "length ts = 5" and "\<forall>(t, t') \<in> set ts. t \<in> demo_window t1 t2"
  shows "\<exists>m servers reg. rpc_main listen laddr1 t1 laddr2 t2 = Inr (m, servers, reg) \<and>
    ends_in (calm_step (demo_sys intn (demo_window t1 t2) nw dur servers) (broadcast_calls (demo_servers laddr1 laddr2))) fine_work
      (broadcastR intn r demo_registryAddr reg ts heap conns)
      (\<lambda>st. \<forall>order. ended_in st order \<longrightarrow> broadcast_lines order = demo_lines ''broadcast'')"
proof -
  let ?S = "demo_servers laddr1 laddr2" and ?reg = "demo_registry (''tcp@'' @ laddr1) t1 (''tcp@'' @ laddr2) t2"
  let ?xc0 = "NewXClient (gd_New intn r demo_registryAddr 0, ?reg) RandomSelect None heap"
  have n: "length ?S = 2" by (simp add: demo_servers_def)
  have "gd_live intn (demo_window t1 t2) ?S (xc_d ?xc0)" using demo_live [OF assms(2)] by (simp add: NewXClient_def)
  then obtain d where d: "get_lists ts ?xc0 = (replicate 5 (Inr ?S), ?xc0\<lparr>xc_d := d\<rparr>)" "gd_live intn (demo_window t1 t2) ?S d"
    using get_lists_live [OF _ assms(4)] assms(3) by metis
  let ?xc = "?xc0\<lparr>xc_d := d\<rparr>"
  have start: "broadcastR intn r demo_registryAddr ?reg ts heap conns = calls_init ?xc (broadcast_jobs ?S) conns"
    using d(1) by (simp add: broadcastR_def broadcast_jobs_def)
  have "gdl.calm_inv intn (demo_window t1 t2) ?S sy (broadcast_jobs ?S) (broadcast_calls ?S) (broadcastR intn r demo_registryAddr ?reg ts heap conns)" for sy
    unfolding start using d(2)
    by (intro gdl.calm_inv_init)
      (auto simp: start_ok_def broadcast_calls_def broadcast_jobs_def NewXClient_def length_concat comp_def sum_list_triv sum_list_replicate)
  from gdl.five_broadcasts [OF _ demo_servers_set demo_window_nonempty [OF assms(2)] n this, of nw dur] show ?thesis
    using rpc_main_ok [of listen laddr1 t1 laddr2 t2] assms unfolding demo_sys_def demo_setup_def foo_servers_def by blast
qed

text \<open>The functions that use a fixed list of servers do the same.\<close>

lemma rpc_demo_lists:
  assumes "draws intn" and "dials nw addr1 addr2"
  shows "ends_in (calm_step (foo_sys (\<lambda>_ :: unit. ms_Get intn) UNIV nw dur (foo_servers addr1 addr2)) demo_calls) fine_work
      (call2 intn r addr1 addr2 heap conns) (\<lambda>st. call_lines st = demo_lines ''call'')"
    "ends_in (calm_step (foo_sys (\<lambda>_ :: unit. ms_Get intn) UNIV nw dur (foo_servers addr1 addr2)) (broadcast_calls [''tcp@'' @ addr1, ''tcp@'' @ addr2])) fine_work
      (demo_broadcast intn r addr1 addr2 heap conns) (\<lambda>st. \<forall>order. ended_in st order \<longrightarrow> broadcast_lines order = demo_lines ''broadcast'')"
proof -
  let ?S = "[''tcp@'' @ addr1, ''tcp@'' @ addr2]"
  have S: "set ?S = {''tcp@'' @ addr1, ''tcp@'' @ addr2}" "length ?S = 2" "UNIV \<noteq> ({} :: unit set)" by simp_all
  have d: "md_live intn ?S (ms_New intn r ?S)" using assms(1) by (simp add: md_live_def ms_New_def split: prod.splits)
  have "mdl.calm_inv intn ?S sy (replicate 5 Begin) demo_calls (call2 intn r addr1 addr2 heap conns)" for sy
    unfolding call2_def using d by (intro mdl.calm_inv_init) (simp_all add: start_ok_def demo_calls_def NewXClient_def)
  from mdl.five_calls [OF assms(2) S(1,3) this]
  show "ends_in (calm_step (foo_sys (\<lambda>_ :: unit. ms_Get intn) UNIV nw dur (foo_servers addr1 addr2)) demo_calls) fine_work
      (call2 intn r addr1 addr2 heap conns) (\<lambda>st. call_lines st = demo_lines ''call'')" .
  have "ms_GetAll (ms_New intn r ?S) = Inr ?S" using d by (simp add: md_live_def ms_GetAll_def)
  then have b: "demo_broadcast intn r addr1 addr2 heap conns = calls_init (NewXClient (ms_New intn r ?S) RandomSelect None heap) (broadcast_jobs ?S) conns"
    by (simp add: demo_broadcast_def)
  have "mdl.calm_inv intn ?S sy (broadcast_jobs ?S) (broadcast_calls ?S) (demo_broadcast intn r addr1 addr2 heap conns)" for sy
    unfolding b using d
    by (intro mdl.calm_inv_init)
      (auto simp: start_ok_def broadcast_calls_def broadcast_jobs_def NewXClient_def length_concat comp_def sum_list_triv sum_list_replicate)
  from mdl.five_broadcasts [OF assms(2) S(1,3,2) this]
  show "ends_in (calm_step (foo_sys (\<lambda>_ :: unit. ms_Get intn) UNIV nw dur (foo_servers addr1 addr2)) (broadcast_calls [''tcp@'' @ addr1, ''tcp@'' @ addr2])) fine_work
      (demo_broadcast intn r addr1 addr2 heap conns) (\<lambda>st. \<forall>order. ended_in st order \<longrightarrow> broadcast_lines order = demo_lines ''broadcast'')" .
qed

text \<open>So does the function that has one client, when each goroutine goes through \<^verbatim>\<open>send\<close> undisturbed, which is the step \<^const>\<open>link_Go\<close>.\<close>

lemma rpc_demo_call:
  assumes "nw_dial nw ''tcp'' addr 0 = Inr (conn_of [])" and "nw_status nw = Inr connected"
  shows "\<exists>st. demo_call nw addr foo_server = Inr st \<and>
    ends_in (callers_step (link_Go demo_ccf) (link_step demo_ccf (untimed (demo_cf dur))) link_completed at_once demo_calls) (callers_work link_work) st
      (\<lambda>st. map (\<lambda>i. demo_call_line i (cr_turns st ! i)) [0..<5] =
         [''0: 0 + 0 = 0'', ''1: 1 + 1 = 2'', ''2: 2 + 4 = 6'', ''3: 3 + 9 = 12'', ''4: 4 + 16 = 20''])"
proof -
  let ?lk = "\<lparr>lk_client = new_client (NewGobCodec (conn_of [])) (nw_heap nw), lk_serving = serve_init foo_server (NewGobCodec (conn_of []))\<rparr>"
  have "fst (DialHTTP nw ''tcp'' addr []) = Inr (new_client (NewGobCodec (conn_of [])) (nw_heap nw), DefaultOption)"
    using assms by (simp add: DialHTTP_def dialTimeout_def parseOptions_def NewHTTPClient_def NewClient_def DefaultOption_def conn_of_def Let_def)
  then have d: "demo_call nw addr foo_server = Inr (callers_init ?lk demo_calls)" by (simp add: demo_call_def)
  have good: "\<forall>c \<in> set demo_calls. callable demo_ccf (demo_cf dur) foo_server c" by (auto simp: demo_calls_def foo_server_callable)
  have len: "length demo_calls < 2 ^ 63" by (simp add: demo_calls_def)
  have res: "map (\<lambda>c. Told (Inr (case c of (sm, v) \<Rightarrow> rpc_result foo_server sm v))) demo_calls =
      map (\<lambda>i. Told (Inr (Some (VInt (of_nat i + of_nat i * of_nat i))))) [0..<5]"
    by (simp add: demo_calls_def foo_server_result demo_args_def comp_def)
  have lines: "map (\<lambda>i. demo_call_line i (map (\<lambda>i. Told (Inr (Some (VInt (of_nat i + of_nat i * of_nat i))))) [0..<5] ! i)) [0..<5] =
      [''0: 0 + 0 = 0'', ''1: 1 + 1 = 2'', ''2: 2 + 4 = 6'', ''3: 3 + 9 = 12'', ''4: 4 + 16 = 20'']"
    by code_simp
  from rpc_conn.calls_answered [OF link_init [of demo_ccf "demo_cf dur" foo_server "nw_heap nw"] len good at_once_opens]
  show ?thesis unfolding d res by (intro exI [of _ "callers_init ?lk demo_calls"] conjI refl) (rule ends_in_mono, assumption, simp only: lines)
qed

subsection \<open>Properties\<close>

text \<open>C37: what the demonstration prints, when sends do not overlap. \<^verbatim>\<open>main\<close> starts the registry and two servers, at different addresses that can be dialled, less
  than five minutes apart. Then it runs \<^verbatim>\<open>callR\<close>, in which five goroutines call \<^verbatim>\<open>Foo.Sum\<close> through one \<^verbatim>\<open>XClient\<close>, and \<^verbatim>\<open>broadcastR\<close>, in which five goroutines
  broadcast it to both servers, ten calls over two connections, all while the leases of both servers last. (The second request of each broadcast, which calls \<^verbatim>\<open>Foo.Sleep\<close> with a
  timeout, is left out.) Whatever the random choices and however the goroutines, the connections and the servers interleave, as long as no two
  goroutines are in \<^verbatim>\<open>send\<close> on the same client, no timeout of a handler (ten seconds) fires and no request is lost with the options (\<^const>\<open>calm_step\<close>): every run comes to
  an end, and then the calls have printed the right sums; and in whatever order the two calls of a broadcast ended, it has printed the right sum and no
  error.\<close>

theorem rpc_demo_calls:
  assumes "listen '':9999'' = None" and "demo_setup intn nw laddr1 t1 laddr2 t2"
    and "length ts = 5" and "\<forall>(t, t') \<in> set ts. t \<in> demo_window t1 t2"
  shows "\<exists>m servers reg. rpc_main listen laddr1 t1 laddr2 t2 = Inr (m, servers, reg) \<and>
    ends_in (calm_step (demo_sys intn (demo_window t1 t2) nw dur servers) demo_calls) fine_work
      (callR intn r demo_registryAddr reg heap conns) (\<lambda>st. call_lines st = demo_lines ''call'') \<and>
    ends_in (calm_step (demo_sys intn (demo_window t1 t2) nw dur servers) (broadcast_calls (demo_servers laddr1 laddr2))) fine_work
      (broadcastR intn r demo_registryAddr reg ts heap conns)
      (\<lambda>st. \<forall>order. ended_in st order \<longrightarrow> broadcast_lines order = demo_lines ''broadcast'')"
proof -
  note c = rpc_demo_callR [where listen = listen, OF assms(1,2), where dur = dur and r = r and heap = heap and conns = conns]
  note b = rpc_demo_broadcasts [where listen = listen, OF assms, where dur = dur and r = r and heap = heap and conns = conns]
  show ?thesis using c b by auto
qed

subsection \<open>Examples\<close>

definition demo_network :: "foo_val network" where
  "demo_network = \<lparr>nw_dial = (\<lambda>n a t. Inr (conn_of [])), nw_status = Inr connected, nw_slow = False, nw_dur = (\<lambda>d. ''10s''),
     nw_heap = (\<lambda>_. \<lparr>ca_Seq = 0, ca_ServiceMethod = '''', ca_Args = VInt 0, ca_Reply = None, ca_Error = None, ca_chan = 0, ca_cap = 0\<rparr>)\<rparr>"

definition demo_heap :: "nat \<Rightarrow> foo_val client" where
  "demo_heap a = new_client (NewGobCodec (conn_of [])) (nw_heap demo_network)"

definition demo_conns :: "nat \<Rightarrow> foo_val serving" where
  "demo_conns a = serve_init NewServer (NewGobCodec (conn_of []))"

definition demo_intn :: "int intn" where "demo_intn n r = (r mod n, r + 1)"

definition demo_dur :: "int \<Rightarrow> string" where "demo_dur d = ''10s''"

lemma demo_setup_ok: "demo_setup demo_intn demo_network ''127.0.0.1:7001'' 0 ''127.0.0.1:7002'' 5"
  by (simp add: demo_setup_def draws_def listen_addr_def is_space_def demo_network_def minute_def dials_def demo_intn_def)

theorem rpc_demo_calls_witness:
  "\<exists>m servers reg st st'. rpc_main (\<lambda>_. None) ''127.0.0.1:7001'' 0 ''127.0.0.1:7002'' 5 = Inr (m, servers, reg) \<and>
     (calm_step (demo_sys demo_intn (demo_window 0 5) demo_network demo_dur servers) demo_calls)\<^sup>*\<^sup>*
       (callR demo_intn 3 demo_registryAddr reg demo_heap demo_conns) st \<and>
     call_lines st ! 4 = ''call Foo.Sum success: 4 + 16 = 20'' \<and>
     (calm_step (demo_sys demo_intn (demo_window 0 5) demo_network demo_dur servers)
         (broadcast_calls (demo_servers ''127.0.0.1:7001'' ''127.0.0.1:7002'')))\<^sup>*\<^sup>*
       (broadcastR demo_intn 3 demo_registryAddr reg (replicate 5 (7, 8)) demo_heap demo_conns) st' \<and>
     broadcast_lines (\<lambda>i. [cs_jobs st' ! (i * 2 + 1), cs_jobs st' ! (i * 2)]) ! 3 = ''broadcast Foo.Sum success: 3 + 9 = 12''"
proof -
  let ?calls = "broadcast_calls (demo_servers ''127.0.0.1:7001'' ''127.0.0.1:7002'')"
  have w: "length (replicate 5 (7 :: int, 8 :: int)) = 5" "\<forall>(t, t') \<in> set (replicate 5 (7, 8)). t \<in> demo_window 0 5"
    by (simp_all add: demo_window_def minute_def)
  obtain m servers reg where m: "rpc_main (\<lambda>_. None) ''127.0.0.1:7001'' 0 ''127.0.0.1:7002'' 5 = Inr (m, servers, reg)"
    "ends_in (calm_step (demo_sys demo_intn (demo_window 0 5) demo_network demo_dur servers) demo_calls) fine_work
       (callR demo_intn 3 demo_registryAddr reg demo_heap demo_conns) (\<lambda>st. call_lines st = demo_lines ''call'')"
    "ends_in (calm_step (demo_sys demo_intn (demo_window 0 5) demo_network demo_dur servers) ?calls) fine_work
       (broadcastR demo_intn 3 demo_registryAddr reg (replicate 5 (7, 8)) demo_heap demo_conns)
       (\<lambda>st. \<forall>order. ended_in st order \<longrightarrow> broadcast_lines order = demo_lines ''broadcast'')"
    using rpc_demo_calls [of "\<lambda>_. None", OF refl demo_setup_ok w] by blast
  from ends_in_run [OF m(2)] obtain st
    where st: "(calm_step (demo_sys demo_intn (demo_window 0 5) demo_network demo_dur servers) demo_calls)\<^sup>*\<^sup>*
       (callR demo_intn 3 demo_registryAddr reg demo_heap demo_conns) st" "call_lines st = demo_lines ''call''" by blast
  have l: "call_lines st ! 4 = ''call Foo.Sum success: 4 + 16 = 20''" unfolding st(2) by code_simp
  from ends_in_run [OF m(3)] obtain st' where st': "(calm_step (demo_sys demo_intn (demo_window 0 5) demo_network demo_dur servers) ?calls)\<^sup>*\<^sup>*
       (broadcastR demo_intn 3 demo_registryAddr reg (replicate 5 (7, 8)) demo_heap demo_conns) st'"
    "\<forall>order. ended_in st' order \<longrightarrow> broadcast_lines order = demo_lines ''broadcast''" by blast
  have "ended_in st' (\<lambda>i. [cs_jobs st' ! (i * 2 + 1), cs_jobs st' ! (i * 2)])" by (simp add: ended_in_def upt_conv_Cons)
  then have b: "broadcast_lines (\<lambda>i. [cs_jobs st' ! (i * 2 + 1), cs_jobs st' ! (i * 2)]) = demo_lines ''broadcast''" by (rule st'(2) [rule_format])
  have l': "broadcast_lines (\<lambda>i. [cs_jobs st' ! (i * 2 + 1), cs_jobs st' ! (i * 2)]) ! 3 = ''broadcast Foo.Sum success: 3 + 9 = 12''"
    unfolding b by code_simp
  show ?thesis by (rule exI, rule exI, rule exI, rule exI, rule exI, rule conjI [OF m(1) conjI [OF st(1) conjI [OF l conjI [OF st'(1) l']]]])
qed

end
