(* ===== verification/Rpcx_Link.thy ===== *)
theory Rpcx_Link
  imports Rpc_Callers Rpcx_System
begin

section \<open>A connection of \<^verbatim>\<open>rpcx\<close> with both its ends at work\<close>

text \<open>
  As in \<open>Rpc_Link\<close>, with the client of \<^verbatim>\<open>rpcx/client.go\<close> and the server of \<^verbatim>\<open>rpcx/server.go\<close>. As long as all headers are those that
  this client sends, the two connections have the same steps, so this one keeps the promises of the other; what is
  to be shown is that only such headers arrive.
\<close>

subsection \<open>Steps\<close>

definition x_link_Go :: "'v client_cfg \<Rightarrow> string \<Rightarrow> 'v \<Rightarrow> 'v link \<Rightarrow> (nat \<times> 'v link) option" where
  "x_link_Go ccf sm v lk = map_option (\<lambda>(i, cl). (i, client_moves lk cl)) (x_Go ccf sm v (Some 1) (lk_client lk))"

definition x_link_completed :: "nat \<Rightarrow> 'v link \<Rightarrow> ((string + 'v option) \<times> 'v link) option" where
  "x_link_completed i lk =
     map_option (\<lambda>(err, cl). (case err of None \<Rightarrow> Inr (ca_Reply (cl_heap cl i)) | Some e \<Rightarrow> Inl e, client_moves lk cl))
       (x_Call_completed i (lk_client lk))"

definition x_client_round :: "'v client_cfg \<Rightarrow> 'v client \<Rightarrow> 'v client" where
  "x_client_round ccf cl =
     (case x_receive_round ccf cl of (Continue, cl') \<Rightarrow> cl' | (Break err, cl') \<Rightarrow> x_terminateCalls err cl')"

inductive x_link_step :: "'v client_cfg \<Rightarrow> 'v server_cfg \<Rightarrow> 'v link \<Rightarrow> 'v link \<Rightarrow> bool" for ccf cf where
  serve: "sg_loop (lk_serving lk) \<Longrightarrow> \<not> sg_panic (lk_serving lk) \<Longrightarrow> 2 \<le> length (sg_in (lk_serving lk)) \<Longrightarrow>
    x_link_step ccf cf lk (server_moves lk (x_serve_read cf (lk_serving lk)))"
| finish: "\<not> sg_panic (lk_serving lk) \<Longrightarrow> i < length (sg_running (lk_serving lk)) \<Longrightarrow>
    rm_Func (mt_method (rq_mtype (sg_running (lk_serving lk) ! i))) (rq_argv (sg_running (lk_serving lk) ! i)) = Some r \<Longrightarrow>
    x_link_step ccf cf lk (server_moves lk (x_handleRequest cf (lk_serving lk) i r))"
| receive: "\<not> cl_shutdown (lk_client lk) \<Longrightarrow> \<not> cl_blocked (lk_client lk) \<Longrightarrow> 2 \<le> length (cl_in (lk_client lk)) \<Longrightarrow>
    x_link_step ccf cf lk (client_moves lk (x_client_round ccf (lk_client lk)))"

subsection \<open>The invariant\<close>

definition x_link_inv :: "'v client_cfg \<Rightarrow> 'v server_cfg \<Rightarrow> 'v server \<Rightarrow> (string \<times> 'v) list \<Rightarrow> nat set \<Rightarrow> 'v link \<Rightarrow> bool" where
  "x_link_inv ccf cf srv log taken lk \<longleftrightarrow> link_inv ccf cf srv log taken lk \<and> plain_inv (lk_serving lk)"

lemma x_link_completed_eq: "x_link_completed = link_completed"
  unfolding fun_eq_iff x_link_completed_def link_completed_def x_Call_completed_def by simp

lemma x_client_round_eq: "x_client_round = client_round"
  unfolding fun_eq_iff x_client_round_def client_round_def x_receive_round_eq x_terminateCalls_def by simp

lemma server_moves_serving [simp]: "lk_serving (server_moves lk s) = s"
  by (simp add: server_moves_def Let_def)

lemma link_inv_serving:
  assumes "link_inv ccf cf srv log taken lk"
  shows "serve_inv cf srv (requests_from 1 log) (lk_serving lk)" "wire_ok (cl_codec (lk_client lk))"
  using assms by (auto simp: link_inv_def client_side_def)

text \<open>On such traffic the steps are those of \<open>Rpc_Link\<close>.\<close>

lemma x_link_step_iff:
  assumes inv: "x_link_inv ccf cf srv log taken lk"
  shows "x_link_step ccf cf lk lk' \<longleftrightarrow> link_step ccf (untimed cf) lk lk'"
proof -
  have s: "serve_inv cf srv (requests_from 1 log) (lk_serving lk)" and p: "plain_inv (lk_serving lk)"
    using inv link_inv_serving by (auto simp: x_link_inv_def)
  show ?thesis
  proof
    assume "x_link_step ccf cf lk lk'"
    then show "link_step ccf (untimed cf) lk lk'"
    proof (cases rule: x_link_step.cases)
      case serve
      then show ?thesis using x_read_eq(1) [OF s p] link_step.serve [of lk ccf "untimed cf"] by simp
    next
      case (finish i r)
      then show ?thesis using x_handle_eq(1) [OF s p finish(3,4)] link_step.finish [where ccf = ccf and cf = "untimed cf", OF finish(2-4)] by simp
    next
      case receive
      then show ?thesis using link_step.receive [of lk ccf "untimed cf"] by (simp add: x_client_round_eq)
    qed
  next
    assume "link_step ccf (untimed cf) lk lk'"
    then show "x_link_step ccf cf lk lk'"
    proof (cases rule: link_step.cases)
      case serve
      then show ?thesis using x_read_eq(1) [OF s p] x_link_step.serve [of lk ccf cf] by simp
    next
      case (finish i r)
      then show ?thesis using x_handle_eq(1) [OF s p finish(3,4)] x_link_step.finish [where ccf = ccf and cf = cf, OF finish(2-4)] by simp
    next
      case receive
      then show ?thesis using x_link_step.receive [of lk ccf cf] by (simp add: x_client_round_eq)
    qed simp
  qed
qed

lemma x_link_step_inv:
  assumes inv: "x_link_inv ccf cf srv log taken lk" and st: "x_link_step ccf cf lk lk'"
  shows "x_link_inv ccf cf srv log taken lk'" "link_work lk' < link_work lk"
proof -
  have l: "link_inv ccf cf srv log taken lk" and p: "plain_inv (lk_serving lk)" using inv by (auto simp: x_link_inv_def)
  note s = link_inv_serving(1) [OF l]
  have st': "link_step ccf (untimed cf) lk lk'" using st x_link_step_iff [OF inv] by blast
  have "plain_inv (lk_serving lk')"
    using st'
  proof (cases rule: link_step.cases)
    case serve
    then show ?thesis using x_read_eq(2) [OF s p] by simp
  next
    case (finish i r)
    then show ?thesis using x_handle_eq(2) [OF s p finish(3,4)] by simp
  next
    case receive
    then show ?thesis using link_inv_receive(2) [OF l receive(4)] p by auto
  qed simp
  then show "x_link_inv ccf cf srv log taken lk'" using link_step_inv(1) [OF l st'] by (simp add: x_link_inv_def)
  show "link_work lk' < link_work lk" by (rule link_step_inv(2) [OF l st'])
qed

lemma x_link_Go_inv:
  assumes inv: "x_link_inv ccf cf srv log taken lk" and len: "length log + 1 < 2 ^ 63" and ok: "callable ccf cf srv (sm, v)"
  shows "\<exists>lk'. x_link_Go ccf sm v lk = Some (length log, lk') \<and> x_link_inv ccf cf srv (log @ [(sm, v)]) taken lk' \<and>
    link_work lk' \<le> link_work lk + 6"
proof -
  have l: "link_inv ccf cf srv log taken lk" and p: "plain_inv (lk_serving lk)" using inv by (auto simp: x_link_inv_def)
  have "cc_encodable ccf v" using ok by (simp add: callable_def)
  then have eq: "x_link_Go ccf sm v lk = link_Go ccf sm v lk"
    by (simp add: x_link_Go_def link_Go_def x_Go_eq(1) [OF link_inv_serving(2) [OF l]])
  obtain lk' where lk': "link_Go ccf sm v lk = Some (length log, lk')" "link_inv ccf cf srv (log @ [(sm, v)]) taken lk'"
    "link_work lk' \<le> link_work lk + 6"
    "lk_serving lk' = (lk_serving lk)\<lparr>sg_codec := popped (sg_codec (lk_serving lk))
       (sg_in (lk_serving lk) @ [Hdr (call_header sm (1 + of_nat (length log))), Val v])\<rparr>"
    using link_Go_inv [OF l len ok] by (auto simp: link_work_def)
  have "plain_inv (lk_serving lk')"
    using p by (auto simp: lk'(4) plain_inv_def plain_header_def call_header_def)
  then show ?thesis using lk' eq by (simp add: x_link_inv_def)
qed

lemma x_link_init:
  "x_link_inv ccf cf srv [] {} \<lparr>lk_client = new_client (NewGobCodec (conn_of [])) heap, lk_serving = x_ServeConn srv (conn_of [])\<rparr>"
  using link_init [of ccf cf srv heap]
  by (simp add: x_link_inv_def x_ServeConn_def plain_inv_def serve_init_def NewGobCodec_def conn_of_def)

interpretation rpcx_conn: connection "x_link_Go ccf" "x_link_step ccf cf" x_link_completed "x_link_inv ccf cf srv" link_work
  "callable ccf cf srv" "\<lambda>(sm, v). rpc_result srv sm v"
proof (unfold_locales, goal_cases)
  case (1 log taken lk sm v)
  then show ?case by (rule x_link_Go_inv)
next
  case (2 log taken lk)
  then show ?case by (simp add: x_link_inv_def link_inv_def)
next
  case (3 log taken lk lk')
  then show ?case by (rule x_link_step_inv(1))
next
  case (4 log taken lk lk')
  then show ?case by (rule x_link_step_inv(2))
next
  case (5 log taken lk i)
  have l: "link_inv ccf cf srv log taken lk" using 5(1) by (simp add: x_link_inv_def)
  have "call_over lk i" using 5(2) x_link_step_iff [OF 5(1)] by (intro link_quiet [OF l _ 5(3)]) blast
  then show ?case using link_completed_inv(1) [OF l 5(3,4)] by (simp add: x_link_completed_eq)
next
  case (6 log taken lk i r lk')
  have l: "link_inv ccf cf srv log taken lk" using 6(1) by (simp add: x_link_inv_def)
  note c = link_completed_inv(2) [OF l 6(2,3) 6(4) [unfolded x_link_completed_eq]]
  have "lk_serving lk' = lk_serving lk"
    using 6(4) by (auto simp: x_link_completed_def x_Call_completed_def Call_completed_def upd_call_def client_moves_def popped_id
        split: if_splits)
  then show ?case using c 6(1) by (simp add: case_prod_beta x_link_inv_def)
qed

end
