(* ===== verification/Rpcx_Demo.thy ===== *)
theory Rpcx_Demo
  imports Rpcx_Link Rpc_Demo
begin

section \<open>The demonstration of \<^verbatim>\<open>rpcx\<close> (\<^verbatim>\<open>rpcx/main/main.go\<close>)\<close>

text \<open>
  Two servers of a service \<^verbatim>\<open>Foo\<close> that announce themselves at the registry server of \<^verbatim>\<open>register_main\<close>, and a client that looks
  the service up and makes five calls, one after the other; all of it twice. \<^verbatim>\<open>Foo\<close>, \<^verbatim>\<open>Args\<close> and \<^verbatim>\<open>Sum\<close> are those of \<open>Rpc_Demo\<close>. What the
  listeners' addresses are, the times, the random numbers and dialling are arguments. \<^verbatim>\<open>main\<close> does not use
  \<^verbatim>\<open>startHttpRegistryClient\<close> and \<^verbatim>\<open>testTcpCall\<close>, which are here too.
\<close>

subsection \<open>Servers\<close>

definition x_foo_receiver :: "foo_val receiver" where
  "x_foo_receiver = \<lparr>rc_name = ''Foo'', rc_methods = [foo_method ''Sum'' Foo_Sum]\<rparr>"

definition x_demo_url :: "string \<Rightarrow> string" where
  "x_demo_url registryServerAddr = ''http://127.0.0.1'' @ registryServerAddr @ ''/_rpc_/registry''"

definition x_demo_registry :: "string \<Rightarrow> http_registry" where
  "x_demo_registry registryServerAddr = NewRegistry [Addrs [x_demo_url registryServerAddr], Timeout minute]"

text \<open>\<^verbatim>\<open>startServer\<close> up to the loop of \<^verbatim>\<open>Accept\<close>: the address of the listener, the server, and the world. \<open>listen\<close> is \<^verbatim>\<open>net.Listen\<close>
  for \<^verbatim>\<open>tcp\<close> with the address that \<^verbatim>\<open>l.Addr()\<close> then has; its error is dropped, and the listener that is nil panics. Panics are on the left.\<close>

definition x_startServer :: "(string \<Rightarrow> string + string) \<Rightarrow> 'w registry_http \<Rightarrow> string \<Rightarrow> string \<Rightarrow> 'w \<Rightarrow> string + string \<times> foo_val server \<times> 'w" where
  "x_startServer listen http serverAddr registryServerAddr w =
     (let opts = x_NewServer [ServerName ''Foo'', ServerRegistry (x_demo_registry registryServerAddr)]
      in case x_Register NewServer x_foo_receiver of
           None \<Rightarrow> Inl ''exit status 1''
         | Some (_, server) \<Rightarrow>
             (case listen serverAddr of
                Inl err \<Rightarrow> Inl ''runtime error: invalid memory address or nil pointer dereference''
              | Inr laddr \<Rightarrow>
                  (case x_announce http opts ''tcp'' laddr w of
                     None \<Rightarrow> Inl ''runtime error: index out of range''
                   | Some (_, w') \<Rightarrow> Inr (laddr, server, w'))))"

text \<open>What follows when \<^verbatim>\<open>Accept\<close> returns, for the server at address \<open>a\<close>.\<close>

definition x_startServer_end :: "nat \<Rightarrow> mux \<Rightarrow> string + mux" where
  "x_startServer_end a m = x_HandleHTTP a ''/rpc'' ''/debug/rpc'' m"

text \<open>The goroutines of \<^verbatim>\<open>main\<close>, in the order in which they announce themselves, with the times at which they do.\<close>

fun x_start_servers ::
  "(string \<Rightarrow> string + string) \<Rightarrow> (int \<Rightarrow> 'w registry_http) \<Rightarrow> string \<Rightarrow> (int \<times> string) list \<Rightarrow> 'w \<Rightarrow> string + (string \<times> foo_val server) list \<times> 'w" where
  "x_start_servers listen http registryServerAddr [] w = Inr ([], w)"
| "x_start_servers listen http registryServerAddr ((t, addr) # starts) w =
     and_then (x_startServer listen (http t) addr registryServerAddr w) (\<lambda>(laddr, server, w1).
       and_then (x_start_servers listen http registryServerAddr starts w1) (\<lambda>(servers, w2). Inr ((laddr, server) # servers, w2)))"

subsection \<open>Clients\<close>

text \<open>\<^verbatim>\<open>testClientCall\<close>: making the client, whose error is a panic; the calls; and the lines that are printed for one.\<close>

definition x_testClientCall ::
  "'w registry_http \<Rightarrow> 'r intn \<Rightarrow> 'r \<Rightarrow> (string \<Rightarrow> string \<Rightarrow> string + foo_val conn) \<Rightarrow> (nat \<Rightarrow> foo_val rpc_call) \<Rightarrow> string \<Rightarrow> 'w \<Rightarrow>
   string + foo_val client \<times> 'w" where
  "x_testClientCall http intn seed dial heap registryServerAddr w =
     (case x_NewClient http intn seed dial heap
             [ClientName ''Foo'', ClientRegistry (x_demo_registry registryServerAddr), ClientBalancer bal_RandomSelect] w of
        None \<Rightarrow> Inl ''runtime error: invalid memory address or nil pointer dereference''
      | Some (Inl err, _, _) \<Rightarrow> Inl err
      | Some (Inr x, _, w') \<Rightarrow> Inr (xc_client x, w'))"

definition x_demo_args :: "nat \<Rightarrow> args" where
  "x_demo_args i = \<lparr>Num1 = of_nat i, Num2 = of_nat i\<rparr>"

definition x_demo_calls :: "(string \<times> foo_val) list" where
  "x_demo_calls = map (\<lambda>i. (''Foo.Sum'', VArgs (x_demo_args i))) [1..<6]"

definition x_call_lines :: "nat \<Rightarrow> foo_val turn \<Rightarrow> string list" where
  "x_call_lines i t =
     (let result = (\<lambda>reply. ''client call result:  {'' @ fmt_d (Num1 (x_demo_args i)) @ '' '' @ fmt_d (Num2 (x_demo_args i)) @ ''} '' @ fmt_d reply)
      in case t of
           Told (Inl err) \<Rightarrow> [''client call error: '' @ err, result 0]
         | Told (Inr r) \<Rightarrow> [result (reply_int r)]
         | _ \<Rightarrow> [])"

definition x_demo_output :: "foo_val turn list \<Rightarrow> string list" where
  "x_demo_output turns = concat (map (\<lambda>i. x_call_lines i (turns ! (i - 1))) [1..<6])"

text \<open>\<^verbatim>\<open>main\<close>: the servers, and the clients of its two calls of \<^verbatim>\<open>testClientCall\<close>, which are made at the times \<open>now1\<close> and \<open>now2\<close>. The calls that
  are made on the first client in between do not use the registry.\<close>

definition rpcx_main ::
  "(string \<Rightarrow> string + string) \<Rightarrow> (int \<Rightarrow> 'w registry_http) \<Rightarrow> (int \<times> string) list \<Rightarrow> 'r intn \<Rightarrow> (string \<Rightarrow> string \<Rightarrow> string + foo_val conn) \<Rightarrow>
   (nat \<Rightarrow> foo_val rpc_call) \<Rightarrow> int \<times> 'r \<Rightarrow> int \<times> 'r \<Rightarrow> 'w \<Rightarrow> string + (string \<times> foo_val server) list \<times> foo_val client list" where
  "rpcx_main listen http starts intn dial heap = (\<lambda>(now1, seed1) (now2, seed2) w.
     and_then (x_start_servers listen http '':8080'' starts w) (\<lambda>(servers, w1).
     and_then (x_testClientCall (http now1) intn seed1 dial heap '':8080'' w1) (\<lambda>(client1, w2).
     and_then (x_testClientCall (http now2) intn seed2 dial heap '':8080'' w2) (\<lambda>(client2, w3). Inr (servers, [client1, client2])))))"

text \<open>\<^verbatim>\<open>startHttpRegistryClient\<close>: a service is registered and looked up; the result is the list that it prints, or an error.\<close>

definition startHttpRegistryClient :: "'w registry_http \<Rightarrow> 'w registry_http \<Rightarrow> string \<Rightarrow> 'w \<Rightarrow> (string + xservice list) option" where
  "startHttpRegistryClient http http' addr w =
     (case xr_Register http (x_demo_registry addr) (service_of ''hello'' [Some (node_at ''tcp::9999'')]) [] w of
        None \<Rightarrow> None
      | Some (r, Some err, w') \<Rightarrow> None
      | Some (r, None, w') \<Rightarrow> map_option (\<lambda>(r', res, w''). res) (xr_GetService http' r ''hello'' [] w'))"

text \<open>\<^verbatim>\<open>testTcpCall\<close> uses the codec itself, one request after the other, and drops all errors; after an error of reading, the reply is zero. A
  connection that could not be dialled is nil, and using it panics. \<open>cn_in\<close> of the connection is what the server will have sent.\<close>

fun x_tcp_calls :: "nat list \<Rightarrow> foo_val codec \<Rightarrow> string list \<times> foo_val codec" where
  "x_tcp_calls [] c = ([], c)"
| "x_tcp_calls (i # is) c =
     (let args = x_demo_args i;
          c1 = snd (x_WriteRequest (\<lambda>_. True) (call_header ''Foo.Sum'' (of_nat i)) (Val (VArgs args)) c);
          c2 = snd (x_ReadResponseHeader c1);
          (body, c3) = x_ReadResponseBody (cc_fits demo_ccf) c2;
          reply = (case body of Inl _ \<Rightarrow> 0 | Inr v \<Rightarrow> reply_int (Some v));
          line = ''call result:  {'' @ fmt_d (Num1 args) @ '' '' @ fmt_d (Num2 args) @ ''} '' @ fmt_d reply;
          (lines, c4) = x_tcp_calls is c3
      in (line # lines, c4))"

definition x_testTcpCall :: "(string \<Rightarrow> string \<Rightarrow> string + foo_val conn) \<Rightarrow> string \<Rightarrow> string + string list \<times> foo_val conn" where
  "x_testTcpCall dial serverAddr =
     (case dial ''tcp'' serverAddr of
        Inl err \<Rightarrow> Inl ''runtime error: invalid memory address or nil pointer dereference''
      | Inr conn \<Rightarrow>
          (let (lines, cc) = x_tcp_calls [1..<6] (x_NewClientCodec conn)
           in Inr (lines, cd_conn (codec_Close cc))))"

subsection \<open>Facts\<close>

definition x_foo_server :: "foo_val server" where
  "x_foo_server = [''Foo'' \<mapsto> \<lparr>sv_name = ''Foo'', sv_method = [(''Sum'', method_entry (foo_method ''Sum'' Foo_Sum))]\<rparr>]"

text \<open>There are no options on a connection of \<^verbatim>\<open>rpcx\<close>, so no timeout.\<close>

definition x_demo_cf :: "(int \<Rightarrow> string) \<Rightarrow> foo_val server_cfg" where
  "x_demo_cf dur = (demo_cf dur)\<lparr>cf_timeout := 0\<rparr>"

lemma x_foo_server_registered: "x_Register NewServer x_foo_receiver = Some (None, x_foo_server)"
  by (simp add: x_Register_def x_newService_def x_foo_receiver_def x_registerMethods_def register_method_def foo_method_def x_isExportedOrBuiltinType_def
      main_Args_def main_Foo_def error_type_def ast_IsExported_def x_foo_server_def NewServer_def method_entry_def Let_def)

lemma x_foo_server_found: "found x_foo_server ''Foo.Sum'' = Inr (''Foo'', ''Sum'', method_entry (foo_method ''Sum'' Foo_Sum))"
  by (simp add: found_def findService_def x_foo_server_def method_entry_def Let_def)

lemma x_foo_server_result: "rpc_result x_foo_server ''Foo.Sum'' (VArgs a) = Some (VInt (Num1 a + Num2 a))"
  by (simp add: rpc_result_def x_foo_server_found method_entry_def foo_method_def Foo_Sum_def)

lemma x_foo_server_callable: "callable demo_ccf (x_demo_cf dur) x_foo_server (''Foo.Sum'', VArgs a)"
  by (simp add: callable_def demo_ccf_def x_demo_cf_def demo_cf_def x_foo_server_result good_call_def x_foo_server_found answers_def method_entry_def
      foo_method_def mt_newArgv_def mt_newReplyv_def main_Args_def Foo_Sum_def)

lemma x_demo_registry_client: "x_demo_registry addr = registry_client (x_demo_url addr) minute"
  by (simp add: x_demo_registry_def registry_client_def)

text \<open>Starting a server is one registration at the registry server.\<close>

definition foo_post :: "int \<Rightarrow> string \<Rightarrow> hs_req" where
  "foo_post t laddr = (t, ''POST'', '''', Param \<lparr>psp_Service = ''Foo'', psp_Addr = ''tcp'' @ AddressSpliter @ laddr\<rparr>)"

lemma x_startServer_ok:
  assumes "listen addr = Inr laddr"
  shows "x_startServer listen (hs_http (x_demo_url ra) t) addr ra (hs_run w reqs) = Inr (laddr, x_foo_server, hs_run w (reqs @ [foo_post t laddr]))"
proof -
  obtain opts where "x_announce (hs_http (x_demo_url ra) t) (x_NewServer [ServerName ''Foo'', ServerRegistry (x_demo_registry ra)]) ''tcp'' laddr (hs_run w reqs) =
      Some (opts, hs_run w (reqs @ [foo_post t laddr]))"
    using announce_posts unfolding x_demo_registry_client foo_post_def by blast
  then show ?thesis using assms by (simp add: x_startServer_def x_foo_server_registered)
qed

lemma hs_added_posts:
  "hs_added Map.empty [foo_post t1 l1, foo_post t2 l2] (''Foo'', a) =
     (if a = ''tcp'' @ AddressSpliter @ l2 then Some t2 else if a = ''tcp'' @ AddressSpliter @ l1 then Some t1 else None)"
  "hs_added Map.empty ([foo_post t1 l1, foo_post t2 l2] @ [(t, ''GET'', s, ReadError)]) =
     hs_added Map.empty [foo_post t1 l1, foo_post t2 l2]"
  by (simp_all add: hs_added_def foo_post_def)

lemma two_leases:
  "P t1 \<Longrightarrow> P t2 \<Longrightarrow> {a. \<exists>t. (if a = y then Some t2 else if a = x then Some t1 else None) = Some t \<and> P t} = {x, y}"
  by (auto split: if_splits)

lemma posts_alive:
  assumes "reqs \<in> {[foo_post t1 l1, foo_post t2 l2], [foo_post t1 l1, foo_post t2 l2] @ [(t, ''GET'', s, ReadError)]}"
    and "lease_alive timeout now t1" "lease_alive timeout now t2"
  shows "{a. \<exists>t. hs_added Map.empty reqs (''Foo'', a) = Some t \<and> lease_alive timeout now t} = (\<lambda>l. ''tcp'' @ AddressSpliter @ l) ` {l1, l2}"
proof -
  have eq: "hs_added Map.empty reqs = hs_added Map.empty [foo_post t1 l1, foo_post t2 l2]"
  proof -
    consider "reqs = [foo_post t1 l1, foo_post t2 l2]" | "reqs = [foo_post t1 l1, foo_post t2 l2] @ [(t, ''GET'', s, ReadError)]"
      using assms(1) by blast
    then show ?thesis by cases (simp only:, simp only: hs_added_posts(2))
  qed
  show ?thesis unfolding eq hs_added_posts(1) image_insert image_empty
    by (rule two_leases [where P = "lease_alive timeout now"]) (fact assms(2,3))+
qed

text \<open>A client finds a server when some are alive, and they are all of the form that announcing gives them.\<close>

lemma x_testClientCall_ok:
  assumes draws: "draws intn" and so: "sorted (map fst reqs @ [now])"
    and live: "{a. \<exists>t. hs_added Map.empty reqs (''Foo'', a) = Some t \<and> lease_alive timeout now t} = (\<lambda>l. ''tcp'' @ AddressSpliter @ l) ` L"
    and L: "L \<noteq> {}" "\<forall>l \<in> L. dial ''tcp'' l = Inr (conn_of [])"
  shows "x_testClientCall (hs_http (x_demo_url ra) now) intn seed dial heap ra (hs_run (NewHttpRegistryServer timeout) reqs) =
    Inr (new_client (NewGobCodec (conn_of [])) heap, hs_run (NewHttpRegistryServer timeout) (reqs @ [(now, ''GET'', ''Foo'', ReadError)]))"
proof -
  have u: "list_all unreserved ''Foo''" by (simp add: unreserved_def Let_def)
  obtain lst r' where g: "xr_GetService (hs_http (x_demo_url ra) now) (x_demo_registry ra) ''Foo'' [] (hs_run (NewHttpRegistryServer timeout) reqs) =
      Some (r', Inr [service_of ''Foo'' (map (\<lambda>a. Some (node_at a)) lst)],
        hs_run (NewHttpRegistryServer timeout) (reqs @ [(now, ''GET'', ''Foo'', ReadError)]))"
    "set lst = (\<lambda>l. ''tcp'' @ AddressSpliter @ l) ` L"
    using GetService_live [OF so u, of "x_demo_url ra" minute timeout] unfolding live x_demo_registry_client by blast
  have form: "\<exists>n d. CHR '':'' \<notin> set n \<and> a = n @ AddressSpliter @ d" if a: "a \<in> set lst" for a
  proof -
    obtain l where "a = ''tcp'' @ AddressSpliter @ l" using a unfolding g(2) by blast
    then show ?thesis by (intro exI [of _ "''tcp''"] exI [of _ l]) simp
  qed
  have "set lst \<noteq> {}" unfolding g(2) image_is_empty by (rule L(1))
  then have "lst \<noteq> []" by (simp only: set_empty not_False_eq_True)
  moreover have "\<And>n r. 0 < n \<Longrightarrow> 0 \<le> fst (intn n r) \<and> fst (intn n r) < n" using draws unfolding draws_def by blast
  moreover have "bal_RandomSelect \<in> {bal_RandomSelect, bal_RoundRobinSelect}" by (rule insertI1)
  ultimately have "\<exists>b b' n d. NewBalancer seed bal_RandomSelect = Some b \<and> CHR '':'' \<notin> set n \<and> n @ AddressSpliter @ d \<in> set lst \<and>
      getServerAddress intn b (service_of ''Foo'' (map (\<lambda>a. Some (node_at a)) lst)) = Some (b', Inr (n, d))"
    by (intro getServerAddress_chosen form) assumption+
  then obtain b b' n d where c: "NewBalancer seed bal_RandomSelect = Some b" "CHR '':'' \<notin> set n" "n @ AddressSpliter @ d \<in> set lst"
    "getServerAddress intn b (service_of ''Foo'' (map (\<lambda>a. Some (node_at a)) lst)) = Some (b', Inr (n, d))"
    by (elim exE conjE) (rule that, assumption+)
  obtain l where l: "l \<in> L" "n @ AddressSpliter @ d = ''tcp'' @ AddressSpliter @ l" using c(3) g(2) by auto
  have "Some (n, d) = Some (''tcp'', l)"
    unfolding parseAddress_join [OF c(2), symmetric] l(2) by (rule parseAddress_join) simp
  then have "dial n d = Inr (conn_of [])" using L(2) l(1) by simp
  then show ?thesis
    by (simp add: x_testClientCall_def x_NewClient_def apply_options_def ClientName_def ClientRegistry_def ClientBalancer_def Let_def g(1) c(1,4))
qed

lemma x_demo_calls_answered:
  "ends_in (callers_step (x_link_Go demo_ccf) (x_link_step demo_ccf (x_demo_cf dur)) x_link_completed in_turn x_demo_calls) (callers_work link_work)
     (callers_init \<lparr>lk_client = new_client (NewGobCodec (conn_of [])) heap, lk_serving = x_ServeConn x_foo_server (conn_of [])\<rparr> x_demo_calls)
     (\<lambda>st. x_demo_output (cr_turns st) =
        [''client call result:  {1 1} 2'', ''client call result:  {2 2} 4'', ''client call result:  {3 3} 6'',
         ''client call result:  {4 4} 8'', ''client call result:  {5 5} 10''])"
proof -
  have good: "\<forall>c \<in> set x_demo_calls. callable demo_ccf (x_demo_cf dur) x_foo_server c" by (auto simp: x_demo_calls_def x_foo_server_callable)
  have len: "length x_demo_calls < 2 ^ 63" by (simp add: x_demo_calls_def)
  have res: "map (\<lambda>c. Told (Inr (case c of (sm, v) \<Rightarrow> rpc_result x_foo_server sm v))) x_demo_calls =
      map (\<lambda>i. Told (Inr (Some (VInt (of_nat i + of_nat i))))) [1..<6]"
    by (simp add: x_demo_calls_def x_foo_server_result x_demo_args_def comp_def)
  have lines: "x_demo_output (map (\<lambda>i. Told (Inr (Some (VInt (of_nat i + of_nat i))))) [1..<6]) =
      [''client call result:  {1 1} 2'', ''client call result:  {2 2} 4'', ''client call result:  {3 3} 6'',
       ''client call result:  {4 4} 8'', ''client call result:  {5 5} 10'']"
    by code_simp
  from rpcx_conn.calls_answered [OF x_link_init [of demo_ccf "x_demo_cf dur" x_foo_server heap] len good in_turn_opens]
  show ?thesis unfolding res by (rule ends_in_mono) (simp only: lines)
qed

subsection \<open>Properties\<close>

text \<open>C40: what the demonstration of \<^verbatim>\<open>rpcx\<close> prints. The registry server of \<^verbatim>\<open>register_main\<close> serves the address and path that the program
  asks. The two servers listen, announce themselves there, in either order, and can be dialled; the two clients are made while both leases
  last. Then both clients are connected to one of the servers, whatever the random choices; and
  whichever it is, and however the client, the server's loop and its handlers interleave, every run of the five calls comes to an end with
  the right sums printed in order.\<close>

theorem rpcx_demo_calls:
  assumes "listen_reg '':8080'' = None" and "mset (map snd starts) = {#'':9999'', '':9898''#}"
    and "sorted (map fst starts @ [now1, now2])" and "\<forall>(t, addr) \<in> set starts. lease_alive hs_defaultTimeout now2 t"
    and "\<forall>(t, addr) \<in> set starts. listen addr = Inr (laddr addr) \<and> dial ''tcp'' (laddr addr) = Inr (conn_of [])" and "draws intn"
  shows "\<exists>m servers clients. register_main listen_reg = Inr ('':8080'', m) \<and>
    x_demo_url '':8080'' = ''http://127.0.0.1'' @ '':8080'' @ hs_defaultPath \<and> map_of m hs_defaultPath = Some (RegistryServerAt 0) \<and>
    rpcx_main listen (hs_http (x_demo_url '':8080'')) starts intn dial heap (now1, seed1) (now2, seed2) DefaultHttpRegisteryerver = Inr (servers, clients) \<and>
    map fst servers = map (\<lambda>(t, addr). laddr addr) starts \<and> length clients = 2 \<and>
    (\<forall>client \<in> set clients. \<forall>(l, server) \<in> set servers.
      ends_in (callers_step (x_link_Go demo_ccf) (x_link_step demo_ccf (x_demo_cf dur)) x_link_completed in_turn x_demo_calls) (callers_work link_work)
        (callers_init \<lparr>lk_client = client, lk_serving = x_ServeConn server (conn_of [])\<rparr> x_demo_calls)
        (\<lambda>st. x_demo_output (cr_turns st) =
          [''client call result:  {1 1} 2'', ''client call result:  {2 2} 4'', ''client call result:  {3 3} 6'',
           ''client call result:  {4 4} 8'', ''client call result:  {5 5} 10'']))"
proof -
  have m: "register_main listen_reg = Inr ('':8080'', [(hs_defaultPath, RegistryServerAt 0)])"
    using assms(1) by (simp add: register_main_def startHttpRegistryServer_def hs_default_HandleHTTP_def hs_HandleHTTP_def http_Handle_def hs_defaultPath_def)
  have "length starts = 2" using arg_cong [OF assms(2), of size] by simp
  then obtain t1 a1 t2 a2 where s: "starts = [(t1, a1), (t2, a2)]" by (auto simp: length_Suc_conv numeral_2_eq_2)
  let ?l = "laddr a1" and ?l' = "laddr a2" and ?c = "new_client (NewGobCodec (conn_of [])) heap"
  have l: "listen a1 = Inr ?l" "listen a2 = Inr ?l'" "dial ''tcp'' ?l = Inr (conn_of [])" "dial ''tcp'' ?l' = Inr (conn_of [])"
    "lease_alive hs_defaultTimeout now2 t1" "lease_alive hs_defaultTimeout now2 t2" "t1 \<le> t2" "t2 \<le> now1" "now1 \<le> now2"
    using assms(3-5) by (auto simp: s)
  let ?w0 = "NewHttpRegistryServer hs_defaultTimeout" and ?p = "[foo_post t1 ?l, foo_post t2 ?l']"
  let ?g = "(now1, ''GET'', ''Foo'', ReadError)" and ?L = "{?l, ?l'}"
  have st: "x_start_servers listen (hs_http (x_demo_url '':8080'')) '':8080'' starts DefaultHttpRegisteryerver =
      Inr ([(?l, x_foo_server), (?l', x_foo_server)], hs_run ?w0 ?p)"
    using x_startServer_ok [where listen = listen and addr = a1 and laddr = ?l and ra = "'':8080''" and t = t1 and w = ?w0 and reqs = "[]", OF l(1)]
      x_startServer_ok [where listen = listen and addr = a2 and laddr = ?l' and ra = "'':8080''" and t = t2 and w = ?w0 and reqs = "[foo_post t1 ?l]", OF l(2)]
    by (simp add: s DefaultHttpRegisteryerver_def hs_run_def [of _ "[]"])
  have alive: "lease_alive hs_defaultTimeout now t" if "now \<le> now2" "t \<in> {t1, t2}" for now t
    using lease_alive_mono l(5,6) that by blast
  have add: "{a. \<exists>t. hs_added Map.empty reqs (''Foo'', a) = Some t \<and> lease_alive hs_defaultTimeout now t} = (\<lambda>l. ''tcp'' @ AddressSpliter @ l) ` ?L"
    if "reqs \<in> {?p, ?p @ [?g]}" "now \<le> now2" for reqs now
    by (rule posts_alive [OF that(1)]) (rule alive [OF that(2)], blast)+
  have d: "?L \<noteq> {}" "\<forall>l \<in> ?L. dial ''tcp'' l = Inr (conn_of [])" using l(3,4) by simp_all
  have so: "sorted (map fst ?p @ [now1])" "sorted (map fst (?p @ [?g]) @ [now2])" using l(7-9) by (auto simp: foo_post_def)
  have c1: "x_testClientCall (hs_http (x_demo_url '':8080'') now1) intn seed1 dial heap '':8080'' (hs_run ?w0 ?p) = Inr (?c, hs_run ?w0 (?p @ [?g]))"
    by (rule x_testClientCall_ok [where reqs = ?p and L = ?L and dial = dial, OF assms(6) so(1) _ d]) (rule add, simp_all only: insertI1 l(9))
  have c2: "x_testClientCall (hs_http (x_demo_url '':8080'') now2) intn seed2 dial heap '':8080'' (hs_run ?w0 (?p @ [?g])) =
      Inr (?c, hs_run ?w0 ((?p @ [?g]) @ [(now2, ''GET'', ''Foo'', ReadError)]))"
    by (rule x_testClientCall_ok [where reqs = "?p @ [?g]" and L = ?L and dial = dial, OF assms(6) so(2) _ d]) (rule add, simp_all only: insertI1 insertI2 order_refl)
  have main: "rpcx_main listen (hs_http (x_demo_url '':8080'')) starts intn dial heap (now1, seed1) (now2, seed2) DefaultHttpRegisteryerver =
      Inr ([(?l, x_foo_server), (?l', x_foo_server)], [?c, ?c])"
    by (simp add: rpcx_main_def st c1 c2 [unfolded append_Cons append_Nil])
  have u: "x_demo_url '':8080'' = ''http://127.0.0.1'' @ '':8080'' @ hs_defaultPath" by (simp add: x_demo_url_def hs_defaultPath_def)
  show ?thesis
    by (rule exI, rule exI, rule exI, rule conjI [OF m conjI [OF u conjI [OF _ conjI [OF main]]]])
      (auto simp: s x_demo_calls_answered)
qed

text \<open>\<^verbatim>\<open>startServer\<close> comes to its handlers only when \<^verbatim>\<open>Accept\<close> has returned, and the second server that gets there panics: both
  register the same paths in the table of the process.\<close>

lemma x_startServer_end_twice:
  "\<exists>m. x_startServer_end a [] = Inr m \<and> x_startServer_end b m = Inl ''http: multiple registrations for /rpc''"
  by (simp add: x_startServer_end_def x_HandleHTTP_def http_Handle_def)

text \<open>\<^verbatim>\<open>startHttpRegistryClient\<close> gets back what it has registered, from its own copy and without asking the server. The address has the
  network \<^verbatim>\<open>tcp\<close> and nothing but the port after it, not even a colon.\<close>

lemma startHttpRegistryClient_own:
  "startHttpRegistryClient (hs_http (x_demo_url addr) t) http' addr (hs_run w reqs) = Some (Inr [service_of ''hello'' [Some (node_at ''tcp::9999'')]])"
  "parseAddress ''tcp::9999'' = Some (''tcp'', ''9999'')"
proof -
  show "startHttpRegistryClient (hs_http (x_demo_url addr) t) http' addr (hs_run w reqs) = Some (Inr [service_of ''hello'' [Some (node_at ''tcp::9999'')]])"
    by (simp add: startHttpRegistryClient_def x_demo_registry_client xr_Register_def registry_client_fields service_of_def node_at_def xr_addServer_def
        hs_http_def hs_ServeHTTP_def xr_GetService_def Let_def)
  show "parseAddress ''tcp::9999'' = Some (''tcp'', ''9999'')"
    using parseAddress_join [of "''tcp''" "''9999''"] by (simp add: AddressSpliter_def)
qed

text \<open>One run: the second server is the first to announce itself.\<close>

theorem rpcx_demo_calls_witness:
  "\<exists>servers clients server st. rpcx_main (\<lambda>a. Inr (''[::]'' @ a)) (hs_http (x_demo_url '':8080'')) [(0, '':9898''), (1, '':9999'')] demo_intn
       (\<lambda>n a. Inr (conn_of [])) (nw_heap demo_network) (5, 3) (6, 4) DefaultHttpRegisteryerver = Inr (servers, clients) \<and>
     servers ! 1 = (''[::]:9999'', server) \<and>
     (callers_step (x_link_Go demo_ccf) (x_link_step demo_ccf (x_demo_cf demo_dur)) x_link_completed in_turn x_demo_calls)\<^sup>*\<^sup>*
       (callers_init \<lparr>lk_client = clients ! 0, lk_serving = x_ServeConn server (conn_of [])\<rparr> x_demo_calls) st \<and>
     x_demo_output (cr_turns st) ! 4 = ''client call result:  {5 5} 10''"
proof -
  let ?starts = "[(0, '':9898''), (1, '':9999'')] :: (int \<times> string) list" and ?listen = "\<lambda>a. Inr (''[::]'' @ a) :: string + string"
  let ?dial = "\<lambda>n a. Inr (conn_of []) :: string + foo_val conn"
  let ?step = "callers_step (x_link_Go demo_ccf) (x_link_step demo_ccf (x_demo_cf demo_dur)) x_link_completed in_turn x_demo_calls"
  have h: "mset (map snd ?starts) = {#'':9999'', '':9898''#}" "sorted (map fst ?starts @ [5, 6])"
    "\<forall>(t, addr) \<in> set ?starts. lease_alive hs_defaultTimeout 6 t"
    "\<forall>(t, addr) \<in> set ?starts. ?listen addr = Inr (''[::]'' @ addr) \<and> ?dial ''tcp'' (''[::]'' @ addr) = Inr (conn_of [])" "draws demo_intn"
    by (auto simp: lease_alive_def hs_defaultTimeout_def minute_def draws_def demo_intn_def)
  obtain m servers clients where m: "rpcx_main ?listen (hs_http (x_demo_url '':8080'')) ?starts demo_intn ?dial (nw_heap demo_network) (5, 3) (6, 4)
      DefaultHttpRegisteryerver = Inr (servers, clients)" "map fst servers = map (\<lambda>(t, addr). ''[::]'' @ addr) ?starts" "length clients = 2"
    "\<forall>client \<in> set clients. \<forall>(l, server) \<in> set servers. ends_in ?step (callers_work link_work)
        (callers_init \<lparr>lk_client = client, lk_serving = x_ServeConn server (conn_of [])\<rparr> x_demo_calls)
        (\<lambda>st. x_demo_output (cr_turns st) =
          [''client call result:  {1 1} 2'', ''client call result:  {2 2} 4'', ''client call result:  {3 3} 6'',
           ''client call result:  {4 4} 8'', ''client call result:  {5 5} 10''])"
    using rpcx_demo_calls [of "\<lambda>_. None", OF refl h(1-4,5), of "nw_heap demo_network" 3 4 demo_dur] by (elim exE conjE) (rule that, assumption+)
  have "length servers = 2" using arg_cong [OF m(2), of length] by simp
  then obtain s0 l server where s: "servers = [s0, (l, server)]" by (auto simp: length_Suc_conv numeral_2_eq_2)
  then have l: "servers ! 1 = (''[::]:9999'', server)" using m(2) by simp
  have "clients ! 0 \<in> set clients" "(l, server) \<in> set servers" using m(3) s by simp_all
  then have "ends_in ?step (callers_work link_work) (callers_init \<lparr>lk_client = clients ! 0, lk_serving = x_ServeConn server (conn_of [])\<rparr> x_demo_calls)
        (\<lambda>st. x_demo_output (cr_turns st) =
          [''client call result:  {1 1} 2'', ''client call result:  {2 2} 4'', ''client call result:  {3 3} 6'',
           ''client call result:  {4 4} 8'', ''client call result:  {5 5} 10''])"
    using m(4) by blast
  from ends_in_run [OF this] obtain st where
    st: "?step\<^sup>*\<^sup>* (callers_init \<lparr>lk_client = clients ! 0, lk_serving = x_ServeConn server (conn_of [])\<rparr> x_demo_calls) st"
    "x_demo_output (cr_turns st) = [''client call result:  {1 1} 2'', ''client call result:  {2 2} 4'', ''client call result:  {3 3} 6'',
           ''client call result:  {4 4} 8'', ''client call result:  {5 5} 10'']" by blast
  have o: "x_demo_output (cr_turns st) ! 4 = ''client call result:  {5 5} 10''" unfolding st(2) by simp
  show ?thesis by (rule exI, rule exI, rule exI, rule exI, rule conjI [OF m(1) conjI [OF l conjI [OF st(1) o]]])
qed

lemma x_demo_args_fields: "Num1 (x_demo_args i) = of_nat i" "Num2 (x_demo_args i) = of_nat i"
  by (simp_all add: x_demo_args_def)

lemma sent_popped: "sent (popped (sent c its) r) its' = sent (popped c r) (its @ its')"
  by (simp add: sent_def popped_def)

text \<open>Answers that come in the order of the requests are printed next to their arguments, and the five requests have been sent.\<close>

lemma x_tcp_calls_ok:
  assumes "wire_ok c" and "cn_in (cd_conn c) = stream (map (\<lambda>i. (hs i, Val (VInt (rs i)))) is) @ rest"
  shows "x_tcp_calls is c =
    (map (\<lambda>i. ''call result:  {'' @ fmt_d (of_nat i) @ '' '' @ fmt_d (of_nat i) @ ''} '' @ fmt_d (rs i)) is,
     sent (popped c rest) (calls_stream (map (\<lambda>i. (call_header ''Foo.Sum'' (of_nat i), VArgs (x_demo_args i))) is)))"
  using assms
proof (induction "is" arbitrary: c)
  case Nil
  then show ?case by (simp add: sent_def popped_def)
next
  case (Cons i ks)
  let ?it = "[Hdr (call_header ''Foo.Sum'' (of_nat i)), Val (VArgs (x_demo_args i))]"
  let ?r = "stream (map (\<lambda>i. (hs i, Val (VInt (rs i)))) ks) @ rest"
  have w: "x_WriteRequest (\<lambda>_. True) (call_header ''Foo.Sum'' (of_nat i)) (Val (VArgs (x_demo_args i))) c = (None, sent c ?it)"
    using Cons.prems(1) by (intro x_Write_ok(2)) (simp_all add: can_encode_def)
  have h: "x_ReadResponseHeader (sent c ?it) = (Inr (hs i), popped (sent c ?it) (Val (VInt (rs i)) # ?r))"
    using Cons.prems by (simp add: x_ReadResponseHeader_def dec_header_def dec_next_simps)
  have b: "x_ReadResponseBody (cc_fits demo_ccf) (popped (sent c ?it) (Val (VInt (rs i)) # ?r)) = (Inr (VInt (rs i)), popped (sent c ?it) ?r)"
    using Cons.prems by (simp add: x_ReadResponseBody_def dec_value_def dec_next_simps demo_ccf_def)
  have "x_tcp_calls ks (popped (sent c ?it) ?r) =
    (map (\<lambda>i. ''call result:  {'' @ fmt_d (of_nat i) @ '' '' @ fmt_d (of_nat i) @ ''} '' @ fmt_d (rs i)) ks,
     sent (popped (popped (sent c ?it) ?r) rest) (calls_stream (map (\<lambda>i. (call_header ''Foo.Sum'' (of_nat i), VArgs (x_demo_args i))) ks)))"
    using Cons.prems(1) by (intro Cons.IH) simp_all
  then show ?case by (simp add: w h b reply_int_def x_demo_args_fields sent_popped)
qed

lemma x_testTcpCall_ok:
  assumes "dial ''tcp'' addr = Inr (conn_of (stream (map (\<lambda>i. (hs i, Val (VInt (of_nat i + of_nat i)))) [1..<6])))"
  shows "\<exists>conn. x_testTcpCall dial addr =
      Inr ([''call result:  {1 1} 2'', ''call result:  {2 2} 4'', ''call result:  {3 3} 6'', ''call result:  {4 4} 8'', ''call result:  {5 5} 10''], conn) \<and>
    cn_out conn = calls_stream (requests_from 1 x_demo_calls) \<and> cn_closed conn"
proof -
  let ?c = "x_NewClientCodec (conn_of (stream (map (\<lambda>i. (hs i, Val (VInt (of_nat i + of_nat i)))) [1..<6])))"
  have "wire_ok ?c" "cn_in (cd_conn ?c) = stream (map (\<lambda>i. (hs i, Val (VInt (of_nat i + of_nat i)))) [1..<6]) @ []"
    by (simp_all add: wire_ok_def x_NewClientCodec_def conn_of_def)
  note ok = x_tcp_calls_ok [OF this]
  have lines: "map (\<lambda>i. ''call result:  {'' @ fmt_d (of_nat i) @ '' '' @ fmt_d (of_nat i) @ ''} '' @ fmt_d (of_nat i + of_nat i)) [1..<6] =
      [''call result:  {1 1} 2'', ''call result:  {2 2} 4'', ''call result:  {3 3} 6'', ''call result:  {4 4} 8'', ''call result:  {5 5} 10'']"
    by code_simp
  have reqs: "map (\<lambda>i. (call_header ''Foo.Sum'' (of_nat i), VArgs (x_demo_args i))) [1..<6] = requests_from 1 x_demo_calls"
    by (simp add: x_demo_calls_def upt_conv_Cons)
  show ?thesis
    using assms ok lines reqs by (simp add: x_testTcpCall_def codec_Close_def x_NewClientCodec_def conn_of_def del: upt.simps)
qed

end
