(* ===== verification/Web_Context.thy ===== *)
theory Web_Context
  imports Http_Lib
begin

section \<open>The context of a request (\<^verbatim>\<open>web/engine/context.go\<close>)\<close>

text \<open>
  A \<^verbatim>\<open>Context\<close> carries a request and its response through a chain of handlers. A handler is a program
  that calls methods of the context, \<^verbatim>\<open>Next\<close> among them, and may panic and recover. What it does besides
  (logs, tables of the application) is the component \<open>c_world\<close>. The chain and the position in it
  are private to the package, so handlers change them through \<^verbatim>\<open>Next\<close> only; they are kept apart
  from the rest of the context.
\<close>

subsection \<open>Responses as they are written\<close>

text \<open>\<^verbatim>\<open>http.ResponseWriter\<close>. \<open>w_code\<close> is the status once the header is written, \<open>w_sent\<close> the header fields at
  that moment.\<close>

record writer =
  w_header :: "(string, string) gomap"
  w_code :: "nat option"
  w_sent :: "(string, string) gomap"
  w_body :: bytes

definition new_writer :: writer where
  "new_writer = \<lparr>w_header = [], w_code = None, w_sent = [], w_body = []\<rparr>"

text \<open>The status is an error value (a panic) outside 100 to 999; a status of 1xx but 101 is sent at once and
  does not count as the header; a second header is ignored.\<close>

definition w_WriteHeader :: "nat \<Rightarrow> writer \<Rightarrow> string option \<times> writer" where
  "w_WriteHeader code w =
     (if w_code w \<noteq> None then (None, w)
      else if code < 100 \<or> 999 < code then (Some (''invalid WriteHeader code '' @ strconv_Itoa code), w)
      else if code \<le> 199 \<and> code \<noteq> 101 then (None, w)
      else (None, w\<lparr>w_code := Some code, w_sent := w_header w\<rparr>))"

definition body_allowed :: "nat \<Rightarrow> bool" where
  "body_allowed code \<longleftrightarrow> \<not> (100 \<le> code \<and> code \<le> 199) \<and> code \<noteq> 204 \<and> code \<noteq> 304"

definition w_Write :: "bytes \<Rightarrow> writer \<Rightarrow> writer" where
  "w_Write data w =
     (let w1 = snd (w_WriteHeader 200 w)
      in if body_allowed (the (w_code w1)) then w1\<lparr>w_body := w_body w1 @ data\<rparr> else w1)"

definition w_Set :: "string \<Rightarrow> string \<Rightarrow> writer \<Rightarrow> writer" where
  "w_Set k v w = w\<lparr>w_header := AList.update k v (w_header w)\<rparr>"

text \<open>\<^verbatim>\<open>http.Error\<close> on a writer.\<close>

definition w_Error :: "string \<Rightarrow> nat \<Rightarrow> writer \<Rightarrow> string option \<times> writer" where
  "w_Error msg code w =
     (let w1 = w_Set ''X-Content-Type-Options'' ''nosniff'' (w_Set ''Content-Type'' ''text/plain; charset=utf-8'' w)
      in case w_WriteHeader code w1 of
           (Some p, w2) \<Rightarrow> (Some p, w2)
         | (None, w2) \<Rightarrow> (None, w_Write (msg @ [CHR 0x0A]) w2))"

subsection \<open>The context and its methods\<close>

record web_request =
  q_Method :: string
  q_Path :: string
  q_RequestURI :: string
  q_query :: "(string, string) gomap"
  q_form :: "(string, string) gomap"
  q_params :: "(string, string) gomap"

record 'w wcontext =
  c_Res :: writer
  c_Req :: web_request
  c_Path :: string
  c_Method :: string
  c_StatusCode :: nat
  c_world :: 'w

text \<open>What running code leaves: the message of a panic or nothing, and the context.\<close>

type_synonym 'w outcome = "string option \<times> 'w wcontext"

definition newContext :: "writer \<Rightarrow> web_request \<Rightarrow> 'w \<Rightarrow> 'w wcontext" where
  "newContext res req w =
     \<lparr>c_Res = res, c_Req = req, c_Path = q_Path req, c_Method = q_Method req, c_StatusCode = 0, c_world = w\<rparr>"

text \<open>Missing keys read as the empty string.\<close>

definition first_value :: "(string, string) gomap \<Rightarrow> string \<Rightarrow> string" where
  "first_value m k = (case map_of m k of None \<Rightarrow> '''' | Some v \<Rightarrow> v)"

definition ctx_Param :: "'w wcontext \<Rightarrow> string \<Rightarrow> string" where
  "ctx_Param c key = first_value (q_params (c_Req c)) key"

definition ctx_PostForm :: "'w wcontext \<Rightarrow> string \<Rightarrow> string" where
  "ctx_PostForm c key = first_value (q_form (c_Req c)) key"

definition ctx_Query :: "'w wcontext \<Rightarrow> string \<Rightarrow> string" where
  "ctx_Query c key = first_value (q_query (c_Req c)) key"

definition ctx_Status :: "nat \<Rightarrow> 'w wcontext \<Rightarrow> 'w outcome" where
  "ctx_Status code c =
     (let c1 = c\<lparr>c_StatusCode := code\<rparr>; (p, w) = w_WriteHeader code (c_Res c1) in (p, c1\<lparr>c_Res := w\<rparr>))"

definition ctx_SetHeader :: "string \<Rightarrow> string \<Rightarrow> 'w wcontext \<Rightarrow> 'w wcontext" where
  "ctx_SetHeader key v c = c\<lparr>c_Res := w_Set key v (c_Res c)\<rparr>"

text \<open>The methods that send a body begin alike: a status (which may panic) and then the bytes.\<close>

definition ctx_Data :: "nat \<Rightarrow> bytes \<Rightarrow> 'w wcontext \<Rightarrow> 'w outcome" where
  "ctx_Data code data c =
     (case ctx_Status code c of
        (Some p, c1) \<Rightarrow> (Some p, c1)
      | (None, c1) \<Rightarrow> (None, c1\<lparr>c_Res := w_Write data (c_Res c1)\<rparr>))"

text \<open>\<open>text\<close> is what \<^verbatim>\<open>fmt.Sprintf(format, values...)\<close> yields.\<close>

definition ctx_String :: "nat \<Rightarrow> string \<Rightarrow> 'w wcontext \<Rightarrow> 'w outcome" where
  "ctx_String code text c =
     (case ctx_Status code (ctx_SetHeader ''Content-Type'' ''text/plain'' c) of
        (Some p, c1) \<Rightarrow> (Some p, c1)
      | (None, c1) \<Rightarrow> (None, c1\<lparr>c_Res := w_Write text (c_Res c1)\<rparr>))"

text \<open>\<open>enc\<close> is the JSON text of the object (with the newline of \<^verbatim>\<open>Encoder\<close>) or the error of encoding it.\<close>

definition ctx_JSON :: "nat \<Rightarrow> string + bytes \<Rightarrow> 'w wcontext \<Rightarrow> 'w outcome" where
  "ctx_JSON code enc c =
     (case ctx_Status code (ctx_SetHeader ''Content-Type'' ''application/json'' c) of
        (Some p, c1) \<Rightarrow> (Some p, c1)
      | (None, c1) \<Rightarrow>
          (case enc of
             Inr data \<Rightarrow> (None, c1\<lparr>c_Res := w_Write data (c_Res c1)\<rparr>)
           | Inl err \<Rightarrow> let (p, w) = w_Error err 500 (c_Res c1) in (p, c1\<lparr>c_Res := w\<rparr>)))"

definition ctx_HTML :: "nat \<Rightarrow> string \<Rightarrow> 'w wcontext \<Rightarrow> 'w outcome" where
  "ctx_HTML code html c =
     (case ctx_Status code (ctx_SetHeader ''Content-Type'' ''text/html'' c) of
        (Some p, c1) \<Rightarrow> (Some p, c1)
      | (None, c1) \<Rightarrow> (None, c1\<lparr>c_Res := w_Write html (c_Res c1)\<rparr>))"

definition ctx_Fail :: "nat \<Rightarrow> string \<Rightarrow> 'w wcontext \<Rightarrow> 'w outcome" where
  "ctx_Fail code html c =
     (case ctx_Status code (ctx_SetHeader ''Content-Type'' ''text/html'' c) of
        (Some p, c1) \<Rightarrow> (Some p, c1)
      | (None, c1) \<Rightarrow> (None, c1\<lparr>c_Res := w_Write html (c_Res c1)\<rparr>))"

subsection \<open>Handlers\<close>

text \<open>A \<^verbatim>\<open>HandlerFunc\<close> as a program. \<open>Defer f h\<close> is \<open>h\<close> with a deferred function that recovers and, when there
  was a panic, runs \<open>f\<close> on its message.\<close>

datatype 'w handler =
    Return
  | Do "'w wcontext \<Rightarrow> 'w outcome" "'w handler"
  | Cond "'w wcontext \<Rightarrow> bool" "'w handler" "'w handler"
  | CallNext "'w handler"
  | Defer "string \<Rightarrow> 'w wcontext \<Rightarrow> 'w outcome" "'w handler"

text \<open>Running a handler, given what \<^verbatim>\<open>Next\<close> does; \<open>'s\<close> is the part of the state that only \<^verbatim>\<open>Next\<close> changes.
  \<^const>\<open>None\<close>: \<^verbatim>\<open>Next\<close> does not return.\<close>

type_synonym ('w, 's) run = "'w wcontext \<times> 's \<Rightarrow> (string option \<times> 'w wcontext \<times> 's) option"

primrec exec :: "('w, 's) run \<Rightarrow> 'w handler \<Rightarrow> ('w, 's) run" where
  "exec nx Return cs = Some (None, cs)"
| "exec nx (Do f h) cs =
     (case f (fst cs) of
        (Some p, c) \<Rightarrow> Some (Some p, c, snd cs)
      | (None, c) \<Rightarrow> exec nx h (c, snd cs))"
| "exec nx (Cond b h1 h2) cs = (if b (fst cs) then exec nx h1 cs else exec nx h2 cs)"
| "exec nx (CallNext h) cs =
     (case nx cs of
        None \<Rightarrow> None
      | Some (Some p, cs') \<Rightarrow> Some (Some p, cs')
      | Some (None, cs') \<Rightarrow> exec nx h cs')"
| "exec nx (Defer f h) cs =
     (case exec nx h cs of
        None \<Rightarrow> None
      | Some (None, cs') \<Rightarrow> Some (None, cs')
      | Some (Some p, c, s) \<Rightarrow> (case f p c of (p', c') \<Rightarrow> Some (p', c', s)))"

text \<open>\<^verbatim>\<open>Next\<close>: the loop from the current index on, and its start. The fuel bounds the depth of the calls and
  the rounds of the loop; \<open>ctx_Next\<close> starts with enough (\<open>ctx_loop_total\<close> below).\<close>

fun ctx_loop :: "'w handler list \<Rightarrow> nat \<Rightarrow> ('w, int) run" where
  "ctx_loop hs 0 cs = None"
| "ctx_loop hs (Suc n) (c, i) =
     (if i < int (length hs) then
        (case go_index hs i of
           None \<Rightarrow> Some (Some ''index out of range'', c, i)
         | Some h \<Rightarrow>
             (case exec (\<lambda>(c, i). ctx_loop hs n (c, i + 1)) h (c, i) of
                None \<Rightarrow> None
              | Some (Some p, cs') \<Rightarrow> Some (Some p, cs')
              | Some (None, c', i') \<Rightarrow> ctx_loop hs n (c', i' + 1)))
      else Some (None, c, i))"

definition ctx_Next :: "'w handler list \<Rightarrow> ('w, int) run" where
  "ctx_Next hs = (\<lambda>(c, i). ctx_loop hs (Suc (length hs)) (c, i + 1))"

subsection \<open>\<^verbatim>\<open>Next\<close> returns\<close>

lemma exec_total:
  assumes "\<And>c j. i \<le> j \<Longrightarrow> \<exists>p c' j'. nx (c, j) = Some (p, c', j') \<and> j \<le> (j' :: int)" and "i \<le> j"
  shows "\<exists>p c' j'. exec nx h (c, j) = Some (p, c', j') \<and> j \<le> j'"
  using assms(2)
proof (induction h arbitrary: c j)
  case (Do f h)
  then show ?case by (cases "f c"; cases "fst (f c)") auto
next
  case (CallNext h)
  obtain p c' j' where nx: "nx (c, j) = Some (p, c', j')" "j \<le> j'" using assms(1) CallNext.prems by blast
  then have "\<exists>q c'' j''. exec nx h (c', j') = Some (q, c'', j'') \<and> j' \<le> j''"
    by (intro CallNext.IH) (use CallNext.prems in simp)
  then show ?case using nx by (cases p) force+
next
  case (Defer f h)
  then obtain p c' j' where "exec nx h (c, j) = Some (p, c', j')" "j \<le> j'" by blast
  then show ?case by (cases p; cases "f (the p) c'") auto
qed auto

text \<open>A \<^verbatim>\<open>Next\<close> that returns more often changes no result.\<close>

lemma exec_mono:
  assumes "\<And>cs r. nx cs = Some r \<Longrightarrow> nx' cs = Some r"
  shows "exec nx h cs = Some r \<Longrightarrow> exec nx' h cs = Some r"
proof (induction h arbitrary: cs r)
  case (CallNext h)
  then obtain p cs' where nx: "nx cs = Some (p, cs')" by (auto split: option.splits)
  then show ?case using CallNext assms [OF nx] by (cases p) auto
next
  case (Defer f h)
  then obtain p cs' where "exec nx h cs = Some (p, cs')" by (auto split: option.splits)
  then show ?case using Defer.prems Defer.IH [of cs "(p, cs')"] by simp
qed (auto split: option.splits prod.splits if_splits)

lemma ctx_loop_mono: "ctx_loop hs n cs = Some r \<Longrightarrow> ctx_loop hs (Suc n) cs = Some r"
proof (induction n arbitrary: cs r)
  case (Suc n)
  obtain c i where cs: "cs = (c, i)" by (cases cs)
  let ?nx = "\<lambda>n (c, i). ctx_loop hs n (c, i + 1)"
  have nx: "?nx n cs = Some r \<Longrightarrow> ?nx (Suc n) cs = Some r" for cs r
    using Suc.IH by (auto split: prod.splits simp del: ctx_loop.simps)
  have up: "exec (?nx n) h cs = Some r \<Longrightarrow> exec (?nx (Suc n)) h cs = Some r" for h cs r
    by (erule exec_mono [rotated]) (rule nx)
  show ?case
  proof (cases "i < int (length hs)")
    case True
    show ?thesis
    proof (cases "go_index hs i")
      case None
      then show ?thesis using Suc.prems cs True by simp
    next
      case (Some h)
      then obtain p c' i' where e: "exec (?nx n) h (c, i) = Some (p, c', i')"
        using Suc.prems cs True by (auto split: option.splits)
      have step: "ctx_loop hs (Suc m) cs = (case exec (?nx m) h (c, i) of None \<Rightarrow> None
          | Some (Some p, cs') \<Rightarrow> Some (Some p, cs') | Some (None, c', i') \<Rightarrow> ctx_loop hs m (c', i' + 1))" for m
        using True Some by (simp add: cs)
      show ?thesis
        using Suc.prems Suc.IH [of "(c', i' + 1)" r] unfolding step e up [OF e] by (cases p) (auto simp del: ctx_loop.simps)
    qed
  qed (use Suc.prems cs in simp)
qed simp

lemma ctx_loop_mono': "n \<le> m \<Longrightarrow> ctx_loop hs n cs = Some r \<Longrightarrow> ctx_loop hs m cs = Some r"
  by (induction m rule: dec_induct) (auto intro: ctx_loop_mono)

text \<open>Enough fuel: one unit for every handler from the index on and one more.\<close>

lemma ctx_loop_total:
  "0 \<le> i \<Longrightarrow> 0 < n \<Longrightarrow> length hs < n + nat i \<Longrightarrow> \<exists>p c' i'. ctx_loop hs n (c, i) = Some (p, c', i') \<and> i \<le> i'"
proof (induction n arbitrary: c i)
  case (Suc n)
  show ?case
  proof (cases "i < int (length hs)")
    case True
    then have n: "0 < n" using Suc.prems by linarith
    have deeper: "\<exists>p c' j'. ctx_loop hs n (c, j + 1) = Some (p, c', j') \<and> j \<le> j'" if "i \<le> j" for c j
    proof -
      have "\<exists>p c' j'. ctx_loop hs n (c, j + 1) = Some (p, c', j') \<and> j + 1 \<le> j'"
        by (rule Suc.IH) (use that n Suc.prems in linarith)+
      then show ?thesis by force
    qed
    then obtain p c' j where e: "exec (\<lambda>(c, i). ctx_loop hs n (c, i + 1)) (hs ! nat i) (c, i) = Some (p, c', j)" "i \<le> j"
      using exec_total [of i "\<lambda>(c, i). ctx_loop hs n (c, i + 1)" i] by force
    have ix: "go_index hs i = Some (hs ! nat i)" using True Suc.prems(1) by (simp add: go_index_def)
    obtain q c'' j'' where "ctx_loop hs n (c', j + 1) = Some (q, c'', j'')" "j \<le> j''" using deeper [OF e(2)] by blast
    then show ?thesis using e ix True by (cases p) auto
  qed simp
qed simp

text \<open>So \<^verbatim>\<open>Next\<close> satisfies the equation of its loop.\<close>

definition loop_from :: "'w handler list \<Rightarrow> ('w, int) run" where
  "loop_from hs = ctx_loop hs (Suc (length hs))"

lemma ctx_Next_loop: "ctx_Next hs (c, i) = loop_from hs (c, i + 1)"
  by (simp add: ctx_Next_def loop_from_def)

lemma loop_from_more: "0 \<le> i \<Longrightarrow> 0 < n \<Longrightarrow> length hs < n + nat i \<Longrightarrow> n \<le> Suc (length hs) \<Longrightarrow> ctx_loop hs n (c, i) = loop_from hs (c, i)"
  unfolding loop_from_def using ctx_loop_total [of i n hs c] by (auto dest: ctx_loop_mono')

lemma loop_from_end: "int (length hs) \<le> i \<Longrightarrow> loop_from hs (c, i) = Some (None, c, i)"
  by (simp add: loop_from_def)

lemma loop_from_step:
  assumes "i < length hs"
  shows "loop_from hs (c, int i) =
    (case exec (ctx_Next hs) (hs ! i) (c, int i) of
       None \<Rightarrow> None
     | Some (Some p, cs') \<Rightarrow> Some (Some p, cs')
     | Some (None, c', i') \<Rightarrow> loop_from hs (c', i' + 1))"
proof -
  let ?nx = "\<lambda>(c, i). ctx_loop hs (length hs) (c, i + 1)"
  have deeper: "ctx_loop hs (length hs) (c, j + 1) = loop_from hs (c, j + 1)" if "int i \<le> j" for c j
    using that assms by (intro loop_from_more) auto
  have "\<exists>p c' j'. ?nx (c, j) = Some (p, c', j') \<and> j \<le> j'" if "int i \<le> j" for c j
    using ctx_loop_total [of "j + 1" "length hs" hs c] that assms by force
  then obtain p c' j where e: "exec ?nx (hs ! i) (c, int i) = Some (p, c', j)" "int i \<le> j"
    using exec_total [of "int i" ?nx "int i" "hs ! i" c] by blast
  have "?nx cs = Some r \<Longrightarrow> ctx_Next hs cs = Some r" for cs r
    by (cases cs) (auto simp: ctx_Next_def simp del: ctx_loop.simps intro: ctx_loop_mono)
  then have "exec (ctx_Next hs) (hs ! i) (c, int i) = Some (p, c', j)"
    using e(1) by (rule exec_mono)
  then show ?thesis
    using e assms deeper [OF e(2)] by (cases p) (simp_all add: loop_from_def [of hs] go_index_def)
qed

subsection \<open>The chain, by recursion over the handlers\<close>

text \<open>What handlers mean: each may run the handlers after it, once, by calling \<^verbatim>\<open>Next\<close>; if it has not done so
  they run when it returns. The flag tells whether they have run.\<close>

fun chain :: "'w handler list \<Rightarrow> 'w wcontext \<Rightarrow> 'w outcome option" where
  "chain [] c = Some (None, c)"
| "chain (h # hs) c =
     (case exec (\<lambda>(c, gone). if gone then Some (None, c, True) else map_option (\<lambda>(p, c'). (p, c', True)) (chain hs c)) h (c, False) of
        None \<Rightarrow> None
      | Some (Some p, c', _) \<Rightarrow> Some (Some p, c')
      | Some (None, c', gone) \<Rightarrow> if gone then Some (None, c') else chain hs c')"

primrec no_recover :: "'w handler \<Rightarrow> bool" where
  "no_recover Return = True"
| "no_recover (Do f h) = no_recover h"
| "no_recover (Cond b h1 h2) = (no_recover h1 \<and> no_recover h2)"
| "no_recover (CallNext h) = no_recover h"
| "no_recover (Defer f h) = False"

text \<open>The index has moved past the end exactly when the rest has run.\<close>

definition moved :: "nat \<Rightarrow> nat \<Rightarrow> int \<Rightarrow> bool \<Rightarrow> bool" where
  "moved L i j gone \<longleftrightarrow> (if gone then int L \<le> j else j = int i)"

lemma exec_moved:
  assumes "no_recover h" and "moved L i j gone"
    and "\<And>c. \<exists>p c' j'. nx1 (c, int i) = Some (p, c', j') \<and> nx2 (c, False) = Some (p, c', True) \<and> (p = None \<longrightarrow> int L \<le> j')"
    and "\<And>c j. int L \<le> j \<Longrightarrow> nx1 (c, j) = Some (None, c, j + 1)" and "\<And>c. nx2 (c, True) = Some (None, c, True)"
  shows "\<exists>p c' j' gone'. exec nx1 h (c, j) = Some (p, c', j') \<and> exec nx2 h (c, gone) = Some (p, c', gone') \<and> (p = None \<longrightarrow> moved L i j' gone')"
  using assms(1,2)
proof (induction h arbitrary: c j gone)
  case (Do f h)
  then show ?case by (cases "f c"; cases "fst (f c)") auto
next
  case (CallNext h)
  obtain p c' j' where n: "nx1 (c, j) = Some (p, c', j')" "nx2 (c, gone) = Some (p, c', True)" "p = None \<longrightarrow> int L \<le> j'"
    using CallNext.prems(2) assms(3) [of c] assms(4) [of j c] assms(5) [of c] by (cases gone) (auto simp: moved_def)
  show ?case
  proof (cases p)
    case None
    then have "moved L i j' True" using n(3) by (simp add: moved_def)
    then show ?thesis using CallNext.IH [of j' True c'] CallNext.prems(1) n None by simp
  qed (use n in auto)
qed auto

lemma loop_chain:
  assumes "list_all no_recover (drop m hs)" and "m \<le> i" and "i \<le> length hs"
  shows "\<exists>p c' j. loop_from hs (c, int i) = Some (p, c', j) \<and> chain (drop i hs) c = Some (p, c') \<and> (p = None \<longrightarrow> int (length hs) \<le> j)"
  using assms(2,3)
proof (induction "length hs - i" arbitrary: i c)
  case 0
  then show ?case by (simp add: loop_from_end)
next
  case (Suc n)
  then have i: "i < length hs" by simp
  have rest: "\<exists>p c' j. loop_from hs (c, int i + 1) = Some (p, c', j) \<and> chain (drop (Suc i) hs) c = Some (p, c') \<and>
      (p = None \<longrightarrow> int (length hs) \<le> j)" for c
    using Suc.hyps(1) [of "Suc i" c] Suc.hyps(2) Suc.prems(1) i by (simp add: add.commute)
  let ?nx2 = "\<lambda>(c, gone). if gone then Some (None, c, True) else map_option (\<lambda>(p, c'). (p, c', True)) (chain (drop (Suc i) hs) c)"
  have "no_recover (hs ! i)"
    using assms(1) i Suc.prems(1) unfolding list_all_length by (auto dest!: spec [of _ "i - m"])
  moreover have "moved (length hs) i (int i) False" by (simp add: moved_def)
  ultimately have "\<exists>p c' j' gone'. exec (ctx_Next hs) (hs ! i) (c, int i) = Some (p, c', j') \<and> exec ?nx2 (hs ! i) (c, False) = Some (p, c', gone') \<and>
      (p = None \<longrightarrow> moved (length hs) i j' gone')"
  proof (rule exec_moved)
    fix c show "\<exists>p c' j'. ctx_Next hs (c, int i) = Some (p, c', j') \<and> ?nx2 (c, False) = Some (p, c', True) \<and> (p = None \<longrightarrow> int (length hs) \<le> j')"
      using rest [of c] by (auto simp: ctx_Next_loop)
  qed (simp_all add: ctx_Next_loop loop_from_end)
  then obtain p c' j' gone' where e: "exec (ctx_Next hs) (hs ! i) (c, int i) = Some (p, c', j')"
    "exec ?nx2 (hs ! i) (c, False) = Some (p, c', gone')" "p = None \<longrightarrow> moved (length hs) i j' gone'" by blast
  have d: "drop i hs = hs ! i # drop (Suc i) hs" using i by (simp add: Cons_nth_drop_Suc)
  show ?case
  proof (cases "p = None \<and> \<not> gone'")
    case True
    then have "j' = int i" using e(3) by (simp add: moved_def)
    then show ?thesis using True e(1,2) rest [of c'] by (simp add: loop_from_step [OF i] d)
  next
    case False
    then show ?thesis using e by (cases p) (auto simp: loop_from_step [OF i] d moved_def loop_from_end)
  qed
qed

subsection \<open>Properties\<close>

text \<open>C28: \<^verbatim>\<open>Next\<close> with its shared index means the chain of handlers. For handlers that do not recover from
  panics, \<^verbatim>\<open>Next\<close> on a new context returns (with a panic or without), and what it leaves is given by recursion
  over the list: every handler runs once, inside or after the handler before it, depending on whether that one
  calls \<^verbatim>\<open>Next\<close>; calling \<^verbatim>\<open>Next\<close> again does nothing; a panic skips everything that is left. In particular,
  middlewares that work before and after \<^verbatim>\<open>Next\<close> nest around the last handler.\<close>

theorem Next_runs_chain:
  assumes "list_all no_recover hs"
  shows "(\<exists>p c' i. ctx_Next hs (c, -1) = Some (p, c', i) \<and> chain hs c = Some (p, c')) \<and>
    chain (map (\<lambda>(f, g). Do (\<lambda>c. (None, f c)) (CallNext (Do (\<lambda>c. (None, g c)) Return))) mws @ [Do (\<lambda>c. (None, h c)) Return]) c =
      Some (None, foldr (\<lambda>(f, g) k. g \<circ> k \<circ> f) mws h c)"
proof
  show "\<exists>p c' i. ctx_Next hs (c, -1) = Some (p, c', i) \<and> chain hs c = Some (p, c')"
    using loop_chain [of 0 hs 0 c] assms by (auto simp: ctx_Next_loop)
  show "chain (map (\<lambda>(f, g). Do (\<lambda>c. (None, f c)) (CallNext (Do (\<lambda>c. (None, g c)) Return))) mws @ [Do (\<lambda>c. (None, h c)) Return]) c =
      Some (None, foldr (\<lambda>(f, g) k. g \<circ> k \<circ> f) mws h c)"
    by (induction mws arbitrary: c) auto
qed

theorem Next_runs_chain_witness:
  "\<exists>c i. ctx_Next [Do (\<lambda>c. (None, c\<lparr>c_world := c_world c @ [1 :: nat]\<rparr>)) (CallNext (Do (\<lambda>c. (None, c\<lparr>c_world := c_world c @ [3]\<rparr>)) Return)),
       Do (\<lambda>c. (None, c\<lparr>c_world := c_world c @ [2]\<rparr>)) Return]
     (newContext new_writer \<lparr>q_Method = ''GET'', q_Path = ''/'', q_RequestURI = ''/'', q_query = [], q_form = [], q_params = []\<rparr> [], -1) = Some (None, c, i) \<and>
     c_world c = [1, 2, 3]"
proof -
  let ?hs = "[Do (\<lambda>c. (None, c\<lparr>c_world := c_world c @ [1 :: nat]\<rparr>)) (CallNext (Do (\<lambda>c. (None, c\<lparr>c_world := c_world c @ [3]\<rparr>)) Return)),
       Do (\<lambda>c. (None, c\<lparr>c_world := c_world c @ [2]\<rparr>)) Return]"
  let ?c = "newContext new_writer \<lparr>q_Method = ''GET'', q_Path = ''/'', q_RequestURI = ''/'', q_query = [], q_form = [], q_params = []\<rparr> []"
  have "list_all no_recover ?hs" by simp
  from Next_runs_chain [OF this, of ?c, THEN conjunct1]
  obtain p c' i where "ctx_Next ?hs (?c, -1) = Some (p, c', i)" "chain ?hs ?c = Some (p, c')" by blast
  then show ?thesis by (auto simp: newContext_def)
qed

end
