(* ===== verification/Web_Engine.thy ===== *)
theory Web_Engine
  imports Web_Context
begin

section \<open>The engine (\<^verbatim>\<open>web/engine\<close>) and the middlewares of \<^verbatim>\<open>web/main.go\<close>\<close>

text \<open>
  Routes are kept by the package \<^verbatim>\<open>httprouter\<close>, which is not part of the repository. Two functions stand
  for it: \<open>accepts\<close> says whether a pattern can be added to the patterns that are there (else the message of
  the panic), and \<open>lookup\<close> what becomes of a request: a route with the parameters of its pattern, or
  a response of the package's own (a redirect, 404, 405). A group is named by its index in the
  engine's list \<^verbatim>\<open>groups\<close>, to which every group is appended when it is made; index 0 is the group
  embedded in the engine. Listening on a socket is left out.
\<close>

subsection \<open>State\<close>

record 'w router_group =
  gr_prefix :: string
  gr_middlewares :: "'w handler list"
  gr_parent :: "nat option"

record 'w route =
  rt_method :: string
  rt_pattern :: string
  rt_handler :: "'w handler"

record 'w engine =
  en_routes :: "'w route list"
  en_groups :: "'w router_group list"

datatype matched = Found nat "(string, string) gomap" | Other "writer \<Rightarrow> writer"

type_synonym accepts = "(string \<times> string) list \<Rightarrow> string \<Rightarrow> string \<Rightarrow> string option"
type_synonym lookup = "(string \<times> string) list \<Rightarrow> web_request \<Rightarrow> matched"

definition patterns :: "'w engine \<Rightarrow> (string \<times> string) list" where
  "patterns e = map (\<lambda>r. (rt_method r, rt_pattern r)) (en_routes e)"

subsection \<open>Routes and groups\<close>

definition engine_New :: "'w engine" where
  "engine_New = \<lparr>en_routes = [], en_groups = [\<lparr>gr_prefix = '''', gr_middlewares = [], gr_parent = None\<rparr>]\<rparr>"

definition Router_add :: "accepts \<Rightarrow> string \<Rightarrow> string \<Rightarrow> 'w handler \<Rightarrow> 'w engine \<Rightarrow> string + 'w engine" where
  "Router_add accepts meth path handler e =
     (case accepts (patterns e) meth path of
        Some msg \<Rightarrow> Inl msg
      | None \<Rightarrow> Inr (e\<lparr>en_routes := en_routes e @ [\<lparr>rt_method = meth, rt_pattern = path, rt_handler = handler\<rparr>]\<rparr>))"

definition Router_Get :: "accepts \<Rightarrow> string \<Rightarrow> 'w handler \<Rightarrow> 'w engine \<Rightarrow> string + 'w engine" where
  "Router_Get accepts path handler e = Router_add accepts ''GET'' path handler e"

definition Router_Post :: "accepts \<Rightarrow> string \<Rightarrow> 'w handler \<Rightarrow> 'w engine \<Rightarrow> string + 'w engine" where
  "Router_Post accepts path handler e = Router_add accepts ''POST'' path handler e"

definition Router_Put :: "accepts \<Rightarrow> string \<Rightarrow> 'w handler \<Rightarrow> 'w engine \<Rightarrow> string + 'w engine" where
  "Router_Put accepts path handler e = Router_add accepts ''PUT'' path handler e"

definition Router_Delete :: "accepts \<Rightarrow> string \<Rightarrow> 'w handler \<Rightarrow> 'w engine \<Rightarrow> string + 'w engine" where
  "Router_Delete accepts path handler e = Router_add accepts ''DELETE'' path handler e"

text \<open>The methods of \<^verbatim>\<open>Engine\<close> with these names.\<close>

definition engine_Get :: "accepts \<Rightarrow> string \<Rightarrow> 'w handler \<Rightarrow> 'w engine \<Rightarrow> string + 'w engine" where
  "engine_Get accepts path handler e = Router_Get accepts path handler e"

definition engine_Post :: "accepts \<Rightarrow> string \<Rightarrow> 'w handler \<Rightarrow> 'w engine \<Rightarrow> string + 'w engine" where
  "engine_Post accepts path handler e = Router_Post accepts path handler e"

definition engine_Put :: "accepts \<Rightarrow> string \<Rightarrow> 'w handler \<Rightarrow> 'w engine \<Rightarrow> string + 'w engine" where
  "engine_Put accepts path handler e = Router_Put accepts path handler e"

definition engine_Delete :: "accepts \<Rightarrow> string \<Rightarrow> 'w handler \<Rightarrow> 'w engine \<Rightarrow> string + 'w engine" where
  "engine_Delete accepts path handler e = Router_Delete accepts path handler e"

definition RouterGroup_Group :: "nat \<Rightarrow> string \<Rightarrow> 'w engine \<Rightarrow> nat \<times> 'w engine" where
  "RouterGroup_Group g prefix e =
     (length (en_groups e),
      e\<lparr>en_groups := en_groups e @ [\<lparr>gr_prefix = gr_prefix (en_groups e ! g) @ prefix, gr_middlewares = [], gr_parent = Some g\<rparr>]\<rparr>)"

definition RouterGroup_add :: "accepts \<Rightarrow> nat \<Rightarrow> string \<Rightarrow> string \<Rightarrow> 'w handler \<Rightarrow> 'w engine \<Rightarrow> string + 'w engine" where
  "RouterGroup_add accepts g meth path handler e =
     (let pattern = gr_prefix (en_groups e ! g) @ path in Router_add accepts meth pattern handler e)"

definition RouterGroup_Get :: "accepts \<Rightarrow> nat \<Rightarrow> string \<Rightarrow> 'w handler \<Rightarrow> 'w engine \<Rightarrow> string + 'w engine" where
  "RouterGroup_Get accepts g path handler e = RouterGroup_add accepts g ''GET'' path handler e"

definition RouterGroup_Post :: "accepts \<Rightarrow> nat \<Rightarrow> string \<Rightarrow> 'w handler \<Rightarrow> 'w engine \<Rightarrow> string + 'w engine" where
  "RouterGroup_Post accepts g path handler e = RouterGroup_add accepts g ''POST'' path handler e"

definition RouterGroup_Use :: "nat \<Rightarrow> 'w handler list \<Rightarrow> 'w engine \<Rightarrow> 'w engine" where
  "RouterGroup_Use g mws e =
     e\<lparr>en_groups := (en_groups e)[g := (en_groups e ! g)\<lparr>gr_middlewares := gr_middlewares (en_groups e ! g) @ mws\<rparr>]\<rparr>"

subsection \<open>Serving a request\<close>

text \<open>The loop in the closure that \<^verbatim>\<open>add\<close> registers. It looks at the groups when a request is served.\<close>

fun collect_middlewares :: "string \<Rightarrow> 'w router_group list \<Rightarrow> 'w handler list \<Rightarrow> 'w handler list" where
  "collect_middlewares path [] mws = mws"
| "collect_middlewares path (g # gs) mws =
     collect_middlewares path gs (if strings_HasPrefix path (gr_prefix g) then mws @ gr_middlewares g else mws)"

definition route_closure :: "'w engine \<Rightarrow> 'w handler \<Rightarrow> writer \<Rightarrow> web_request \<Rightarrow> 'w \<Rightarrow> (string option \<times> 'w wcontext) option" where
  "route_closure e handler res req w =
     (let middlewares = collect_middlewares (q_Path req) (en_groups e) [];
          c = newContext res req w
      in map_option (\<lambda>(p, c', _). (p, c')) (ctx_Next (middlewares @ [handler]) (c, -1)))"

text \<open>The result: the message of a panic that nothing recovered, the response, and the world. (The server of
  \<^verbatim>\<open>net/http\<close> recovers such a panic and ends the connection.)\<close>

definition engine_ServeHTTP ::
  "lookup \<Rightarrow> 'w engine \<Rightarrow> writer \<Rightarrow> web_request \<Rightarrow> 'w \<Rightarrow> (string option \<times> writer \<times> 'w) option" where
  "engine_ServeHTTP lookup e res req w =
     (case lookup (patterns e) req of
        Other f \<Rightarrow> Some (None, f res, w)
      | Found i params \<Rightarrow>
          map_option (\<lambda>(p, c). (p, c_Res c, c_world c))
            (route_closure e (rt_handler (en_routes e ! i)) res (req\<lparr>q_params := params\<rparr>) w))"

subsection \<open>The middlewares of \<^verbatim>\<open>web/main.go\<close>\<close>

text \<open>\<^verbatim>\<open>trace\<close>: the callers (file and line, from the inside out) without the first three, at most 32 of them. The stack
  of the goroutine is an argument.\<close>

definition trace :: "string \<Rightarrow> (string \<times> nat) list \<Rightarrow> string" where
  "trace message stack =
     (let pcs = take 32 (drop 3 stack)
      in message @ CHR 0x0A # ''Traceback:'' @ concat (map (\<lambda>(file, line). CHR 0x0A # CHR 0x09 # file @ '':'' @ strconv_Itoa line) pcs))"

text \<open>\<open>stack\<close> gives the stack on which a panic with this message finds the context, \<open>logp\<close> is the effect of a log line. The
  deferred function logs the trace and answers.\<close>

definition recovered ::
  "(string \<Rightarrow> 'w wcontext \<Rightarrow> (string \<times> nat) list) \<Rightarrow> (string \<Rightarrow> 'w \<Rightarrow> 'w) \<Rightarrow> string \<Rightarrow> 'w wcontext \<Rightarrow> 'w outcome" where
  "recovered stack logp err c =
     (let message = err
      in ctx_Fail 500 ''Internal Server Error'' (c\<lparr>c_world := logp (trace message (stack err c) @ [CHR 0x0A, CHR 0x0A]) (c_world c)\<rparr>))"

definition Recovery :: "(string \<Rightarrow> 'w wcontext \<Rightarrow> (string \<times> nat) list) \<Rightarrow> (string \<Rightarrow> 'w \<Rightarrow> 'w) \<Rightarrow> 'w handler" where
  "Recovery stack logp = Defer (recovered stack logp) (CallNext Return)"

text \<open>\<open>logf\<close> is the effect of the log line with the status and the URI (and the time taken).\<close>

definition Logger :: "(nat \<Rightarrow> string \<Rightarrow> 'w \<Rightarrow> 'w) \<Rightarrow> 'w handler" where
  "Logger logf = CallNext (Do (\<lambda>c. (None, c\<lparr>c_world := logf (c_StatusCode c) (q_RequestURI (c_Req c)) (c_world c)\<rparr>)) Return)"

subsection \<open>Facts\<close>

lemma collect_middlewares_eq:
  "collect_middlewares path gs mws = mws @ concat (map gr_middlewares (filter (\<lambda>g. strings_HasPrefix path (gr_prefix g)) gs))"
  by (induction path gs mws rule: collect_middlewares.induct) auto

text \<open>The engines that a program can build.\<close>

inductive built :: "accepts \<Rightarrow> 'w engine \<Rightarrow> bool" for accepts where
  new: "built accepts engine_New"
| grp: "built accepts e \<Longrightarrow> g < length (en_groups e) \<Longrightarrow> built accepts (snd (RouterGroup_Group g prefix e))"
| usem: "built accepts e \<Longrightarrow> g < length (en_groups e) \<Longrightarrow> built accepts (RouterGroup_Use g mws e)"
| route: "built accepts e \<Longrightarrow> Router_add accepts meth path handler e = Inr e' \<Longrightarrow> built accepts e'"

lemma built_RouterGroup_add: "built accepts e \<Longrightarrow> RouterGroup_add accepts g meth path handler e = Inr e' \<Longrightarrow> built accepts e'"
  by (auto simp: RouterGroup_add_def Let_def intro: built.route)

definition engine_inv :: "'w engine \<Rightarrow> bool" where
  "engine_inv e \<longleftrightarrow> en_groups e \<noteq> [] \<and> gr_prefix (en_groups e ! 0) = '''' \<and> gr_parent (en_groups e ! 0) = None \<and>
     (\<forall>k < length (en_groups e). \<forall>j. gr_parent (en_groups e ! k) = Some j \<longrightarrow>
        j < k \<and> (\<exists>s. gr_prefix (en_groups e ! k) = gr_prefix (en_groups e ! j) @ s))"

lemma engine_inv_Group: "engine_inv e \<Longrightarrow> g < length (en_groups e) \<Longrightarrow> engine_inv (snd (RouterGroup_Group g prefix e))"
  unfolding engine_inv_def RouterGroup_Group_def by (auto simp: nth_append less_Suc_eq)

lemma engine_inv_Use: "engine_inv e \<Longrightarrow> g < length (en_groups e) \<Longrightarrow> engine_inv (RouterGroup_Use g mws e)"
  unfolding engine_inv_def RouterGroup_Use_def by (auto simp: nth_list_update)

lemma built_inv: "built accepts e \<Longrightarrow> engine_inv e"
proof (induction rule: built.induct)
  case new
  then show ?case by (simp add: engine_inv_def engine_New_def)
next
  case (route e meth path handler e')
  then show ?case by (auto simp: Router_add_def engine_inv_def split: option.splits)
qed (auto intro: engine_inv_Group engine_inv_Use)

text \<open>A handler that ends without calling \<^verbatim>\<open>Next\<close> does the same whatever \<^verbatim>\<open>Next\<close> would do.\<close>

lemma exec_no_Next: "exec (\<lambda>_. None) h (c, ()) = Some (p, c', ()) \<Longrightarrow> exec nx h (c, s) = Some (p, c', s)"
proof (induction h arbitrary: c p c')
  case (Defer f h)
  then obtain q c1 where q: "exec (\<lambda>_. None) h (c, ()) = Some (q, c1, ())" by (auto split: option.splits)
  then show ?case using Defer.prems Defer.IH [OF q] by (cases q) (auto split: prod.splits)
qed (auto split: option.splits prod.splits if_splits)

lemma ctx_Fail_500:
  "fst (ctx_Fail 500 html c) = None"
  "w_code (c_Res (snd (ctx_Fail 500 html c))) = Some (case w_code (c_Res c) of None \<Rightarrow> 500 | Some k \<Rightarrow> k)"
  by (auto simp: ctx_Fail_def ctx_Status_def ctx_SetHeader_def w_WriteHeader_def w_Set_def w_Write_def Let_def split: option.splits)

lemma recovered_500:
  "fst (recovered stack logp err c) = None"
  "w_code (c_Res (snd (recovered stack logp err c))) = Some (case w_code (c_Res c) of None \<Rightarrow> 500 | Some k \<Rightarrow> k)"
  by (simp_all add: recovered_def Let_def ctx_Fail_500)

lemma ctx_Next_total: "\<exists>p c' j. ctx_Next hs (c, -1) = Some (p, c', j)"
  using ctx_loop_total [of 0 "Suc (length hs)" hs c] by (auto simp: ctx_Next_loop loop_from_def simp del: ctx_loop.simps)

text \<open>\<^verbatim>\<open>Recovery\<close> in front of handlers that do not panic changes nothing.\<close>

lemma Recovery_transparent:
  assumes "list_all no_recover hs" and "chain hs c = Some (None, c1)"
  shows "\<exists>j. ctx_Next (Recovery stack logp # hs) (c, -1) = Some (None, c1, j)"
proof -
  let ?hs = "Recovery stack logp # hs"
  obtain j where j: "loop_from ?hs (c, int 1) = Some (None, c1, j)" "int (length ?hs) \<le> j"
    using loop_chain [of 1 ?hs 1 c] assms by auto
  then have "exec (ctx_Next ?hs) (Recovery stack logp) (c, 0) = Some (None, c1, j)"
    by (simp add: Recovery_def ctx_Next_loop)
  then have "ctx_Next ?hs (c, -1) = loop_from ?hs (c1, j + 1)"
    using loop_from_step [of 0 ?hs c] by (simp add: ctx_Next_loop)
  also have "\<dots> = Some (None, c1, j + 1)" using j(2) by (intro loop_from_end) simp
  finally show ?thesis by blast
qed

subsection \<open>Properties\<close>

text \<open>C30: groups nest. In every engine that can be built, a group comes after its parent in the list and extends its
  prefix; so a request that gets the middlewares of a group gets those of all groups around it, and
  before them, and every request starts with the middlewares of the engine itself.\<close>

theorem groups_nest:
  assumes "built accepts e"
  shows "(\<forall>k < length (en_groups e). \<forall>j. gr_parent (en_groups e ! k) = Some j \<longrightarrow>
      j < k \<and> (\<forall>path. strings_HasPrefix path (gr_prefix (en_groups e ! k)) \<longrightarrow> strings_HasPrefix path (gr_prefix (en_groups e ! j)))) \<and>
    (\<forall>path. \<exists>rest. collect_middlewares path (en_groups e) [] = gr_middlewares (en_groups e ! 0) @ rest)"
proof -
  have inv: "engine_inv e" using assms by (rule built_inv)
  then obtain g gs where "en_groups e = g # gs" "gr_prefix g = ''''" by (cases "en_groups e") (auto simp: engine_inv_def)
  then have "\<exists>rest. collect_middlewares path (en_groups e) [] = gr_middlewares (en_groups e ! 0) @ rest" for path
    by (simp add: collect_middlewares_eq HasPrefix_iff)
  moreover have "\<exists>t'. path = p @ t'" if "q = p @ s" "path = q @ t" for path p q s t :: string using that by simp
  ultimately show ?thesis using inv unfolding engine_inv_def HasPrefix_iff by fastforce
qed

text \<open>C29: what runs for a request. When the router finds a route, the handlers are the middlewares of the groups
  whose prefix is a prefix of the path, as they are when the request is served, in the order in which the groups
  were made, and then the route's handler. \<^verbatim>\<open>Next\<close> is called on them once, it returns, and the response is what they have
  written. If none of them recovers from panics they run as the chain defined by recursion. If only the first does, and that is
  \<^verbatim>\<open>Recovery\<close> as in \<^verbatim>\<open>web/main.go\<close>, the others run as a chain as long as none panics (for a panic see
  \<open>Recovery_resumes\<close>). The prefix is compared as a string: a group
  \<^verbatim>\<open>/v1\<close> takes part in a request for \<^verbatim>\<open>/v10/x\<close>. Without a route the response is the router's own.\<close>

theorem ServeHTTP_runs_groups:
  assumes "lookup (patterns e) req = Found i params"
    and "hs = concat (map gr_middlewares (filter (\<lambda>g. strings_HasPrefix (q_Path req) (gr_prefix g)) (en_groups e))) @ [rt_handler (en_routes e ! i)]"
    and "c0 = newContext res (req\<lparr>q_params := params\<rparr>) w"
  shows "(\<exists>p c j. ctx_Next hs (c0, -1) = Some (p, c, j) \<and> engine_ServeHTTP lookup e res req w = Some (p, c_Res c, c_world c) \<and>
      (list_all no_recover hs \<longrightarrow> chain hs c0 = Some (p, c)) \<and>
      (\<forall>stack logp rest c1. hs = Recovery stack logp # rest \<and> list_all no_recover rest \<and> chain rest c0 = Some (None, c1) \<longrightarrow>
         p = None \<and> c = c1)) \<and>
    (lookup (patterns e) req' = Other f \<longrightarrow> engine_ServeHTTP lookup e res req' w = Some (None, f res, w))"
proof -
  obtain p c j where n: "ctx_Next hs (c0, -1) = Some (p, c, j)" using ctx_Next_total [of hs c0] by blast
  have "engine_ServeHTTP lookup e res req w = Some (p, c_Res c, c_world c)"
    using assms n by (simp add: engine_ServeHTTP_def route_closure_def collect_middlewares_eq)
  moreover have "chain hs c0 = Some (p, c)" if "list_all no_recover hs"
    using loop_chain [of 0 hs 0 c0] that n by (auto simp: ctx_Next_loop)
  moreover have "p = None \<and> c = c1"
    if "hs = Recovery stack logp # rest" "list_all no_recover rest" "chain rest c0 = Some (None, c1)" for stack logp rest c1
    using Recovery_transparent [OF that(2,3), of stack logp] n that(1) by auto
  ultimately show ?thesis using n by (auto simp: engine_ServeHTTP_def)
qed

text \<open>C31: \<^verbatim>\<open>Recovery\<close> turns a panic into the response 500 (unless a header was sent before) but does not end the
  request. It returns to the loop of \<^verbatim>\<open>Next\<close>, whose index stands at the handler that panicked: the handlers
  after that one run then, outside \<^verbatim>\<open>Recovery\<close>. So a route's handler runs although the middleware that
  guards it has panicked, and a second panic is not recovered.\<close>

theorem Recovery_resumes:
  assumes "exec (\<lambda>_. None) h (c, ()) = Some (Some err, c1, ())" and "list_all no_recover hs"
    and "c2 = snd (recovered stack logp err c1)"
  shows "(\<exists>p c' i. ctx_Next (Recovery stack logp # h # hs) (c, -1) = Some (p, c', i) \<and> chain hs c2 = Some (p, c')) \<and>
    w_code (c_Res c2) = Some (case w_code (c_Res c1) of None \<Rightarrow> 500 | Some k \<Rightarrow> k)"
proof -
  let ?hs = "Recovery stack logp # h # hs"
  have "exec (ctx_Next ?hs) h (c, 1) = Some (Some err, c1, 1)" by (rule exec_no_Next [OF assms(1)])
  then have "ctx_Next ?hs (c, 0) = Some (Some err, c1, 1)"
    using loop_from_step [of 1 ?hs c] by (simp add: ctx_Next_loop)
  then have "exec (ctx_Next ?hs) (Recovery stack logp) (c, 0) = Some (None, c2, 1)"
    using recovered_500(1) [of stack logp err c1] assms(3) by (cases "recovered stack logp err c1") (simp add: Recovery_def)
  then have "ctx_Next ?hs (c, -1) = loop_from ?hs (c2, int 2)"
    using loop_from_step [of 0 ?hs c] by (simp add: ctx_Next_loop)
  then show ?thesis
    using loop_chain [of 2 ?hs 2 c2] assms(2) unfolding assms(3) recovered_500(2) by auto
qed

subsection \<open>Examples\<close>

text \<open>A router for patterns without parameters.\<close>

definition static_lookup :: lookup where
  "static_lookup ps req =
     (case filter (\<lambda>i. ps ! i = (q_Method req, q_Path req)) [0..<length ps] of
        [] \<Rightarrow> Other (\<lambda>w. snd (w_Error ''404 page not found'' 404 w))
      | i # _ \<Rightarrow> Found i [])"

definition get_request :: "string \<Rightarrow> web_request" where
  "get_request path = \<lparr>q_Method = ''GET'', q_Path = path, q_RequestURI = path, q_query = [], q_form = [], q_params = []\<rparr>"

text \<open>A group \<^verbatim>\<open>/v1\<close> with a middleware that leaves a mark, and a route outside it.\<close>

definition mark :: "nat \<Rightarrow> nat list handler" where
  "mark n = Do (\<lambda>c. (None, c\<lparr>c_world := c_world c @ [n]\<rparr>)) Return"

definition v1_engine :: "nat list engine" where
  "v1_engine = RouterGroup_Use 1 [mark 1] (snd (RouterGroup_Group 0 ''/v1'' engine_New))"

definition v10_engine :: "nat list engine" where
  "v10_engine = (case Router_Get (\<lambda>_ _ _. None) ''/v10/x'' (mark 2) v1_engine of Inr e \<Rightarrow> e)"

lemma v10_engine_eq:
  "v10_engine = \<lparr>en_routes = [\<lparr>rt_method = ''GET'', rt_pattern = ''/v10/x'', rt_handler = mark 2\<rparr>],
     en_groups = [\<lparr>gr_prefix = '''', gr_middlewares = [], gr_parent = None\<rparr>, \<lparr>gr_prefix = ''/v1'', gr_middlewares = [mark 1], gr_parent = Some 0\<rparr>]\<rparr>"
  by (simp add: v10_engine_def v1_engine_def Router_Get_def Router_add_def RouterGroup_Use_def RouterGroup_Group_def engine_New_def)

theorem groups_nest_witness:
  "built (\<lambda>_ _ _. None) v1_engine \<and>
   (\<exists>rest. collect_middlewares ''/v1/hello'' (en_groups v1_engine) [] = gr_middlewares (en_groups v1_engine ! 0) @ rest)"
proof -
  have "built (\<lambda>_ _ _. None) (snd (RouterGroup_Group 0 ''/v1'' (engine_New :: nat list engine)))"
    by (intro built.intros) (simp add: engine_New_def)
  then have "built (\<lambda>_ _ _. None) v1_engine"
    unfolding v1_engine_def by (rule built.usem) (simp add: RouterGroup_Group_def engine_New_def)
  then show ?thesis using groups_nest by blast
qed

theorem ServeHTTP_runs_groups_witness:
  "engine_ServeHTTP static_lookup v10_engine new_writer (get_request ''/v10/x'') [] = Some (None, new_writer, [1, 2])"
proof -
  let ?req = "get_request ''/v10/x''"
  have f: "static_lookup (patterns v10_engine) ?req = Found 0 []"
    by (simp add: static_lookup_def patterns_def v10_engine_eq get_request_def)
  have hs: "[mark 1, mark 2] = concat (map gr_middlewares (filter (\<lambda>g. strings_HasPrefix (q_Path ?req) (gr_prefix g)) (en_groups v10_engine)))
      @ [rt_handler (en_routes v10_engine ! 0)]"
    by (simp add: v10_engine_eq get_request_def strings_HasPrefix_def)
  have "list_all no_recover [mark 1, mark 2]" by (simp add: mark_def)
  moreover obtain p c where "engine_ServeHTTP static_lookup v10_engine new_writer ?req [] = Some (p, c_Res c, c_world c)"
    "list_all no_recover [mark 1, mark 2] \<longrightarrow> chain [mark 1, mark 2] (newContext new_writer (?req\<lparr>q_params := []\<rparr>) []) = Some (p, c)"
    using ServeHTTP_runs_groups [where lookup = static_lookup and e = v10_engine, OF f hs refl, of new_writer "[]"] by blast
  ultimately show ?thesis by (auto simp: mark_def newContext_def)
qed

text \<open>A guard that panics, then the handler it guards.\<close>

theorem Recovery_resumes_witness:
  "\<exists>c i. ctx_Next [Recovery (\<lambda>_ _. []) (\<lambda>_ w. w @ [0]), Do (\<lambda>c. (Some ''no user'', c)) Return, mark 1] (newContext new_writer (get_request ''/'') [], -1)
      = Some (None, c, i) \<and> w_code (c_Res c) = Some 500 \<and> c_world c = [0, 1]"
proof -
  let ?c = "newContext new_writer (get_request ''/'') [] :: nat list wcontext" and ?h = "Do (\<lambda>c. (Some ''no user'', c)) Return"
  let ?c2 = "snd (recovered (\<lambda>_ _. []) (\<lambda>_ w. w @ [0]) ''no user'' ?c)"
  have e: "exec (\<lambda>_. None) ?h (?c, ()) = Some (Some ''no user'', ?c, ())" by simp
  have w: "c_world ?c2 = [0]"
    by (simp add: recovered_def ctx_Fail_def ctx_Status_def ctx_SetHeader_def w_WriteHeader_def w_Set_def newContext_def new_writer_def)
  have "w_code (c_Res ?c) = None" by (simp add: newContext_def new_writer_def)
  moreover have "list_all no_recover [mark 1]" by (simp add: mark_def)
  ultimately show ?thesis using Recovery_resumes [OF e _ refl, of "[mark 1]" "\<lambda>_ _. []" "\<lambda>_ w. w @ [0]"] w by (auto simp: mark_def)
qed

end
