(* ===== verification/Web_Demo.thy ===== *)
theory Web_Demo
  imports Web_Engine
begin

section \<open>The program of \<^verbatim>\<open>web/main.go\<close>\<close>

text \<open>
  The engine that \<^verbatim>\<open>main\<close> builds, and what it answers to every request. What is said of \<^verbatim>\<open>httprouter\<close> here is
  what its documentation promises: a pattern is compared with the path segment by segment, a segment
  \<^verbatim>\<open>:name\<close> stands for any segment that is not empty, and a request that matches no pattern is answered by the
  router. Listening on the port is left out.
\<close>

subsection \<open>The engine\<close>

text \<open>\<^verbatim>\<open>names[100]\<close> panics before \<^verbatim>\<open>String\<close> is called. \<open>json\<close> is the encoder of \<^verbatim>\<open>encoding/json\<close> on a map of strings.\<close>

definition names_panic :: string where
  "names_panic = ''runtime error: index out of range [100] with length 1''"

definition login_form :: "(string \<Rightarrow> string) \<Rightarrow> (string \<times> string) list" where
  "login_form form = [(''username'', form ''username''), (''password'', form ''password'')]"

definition web_main ::
  "accepts \<Rightarrow> (string \<Rightarrow> 'w wcontext \<Rightarrow> (string \<times> nat) list) \<Rightarrow> (string \<Rightarrow> 'w \<Rightarrow> 'w) \<Rightarrow> (nat \<Rightarrow> string \<Rightarrow> 'w \<Rightarrow> 'w) \<Rightarrow>
    ((string \<times> string) list \<Rightarrow> string + bytes) \<Rightarrow> string + 'w engine" where
  "web_main accepts stack logp logf json =
     (let e = RouterGroup_Use 0 [Recovery stack logp] engine_New
      in and_then (engine_Get accepts ''/panic'' (Do (\<lambda>c. (Some names_panic, c)) Return) e) (\<lambda>e.
         and_then (engine_Get accepts ''/hello'' (Do (ctx_HTML 200 ''hello world'') Return) e) (\<lambda>e.
         and_then (engine_Get accepts ''/blogs/:id'' (Do (\<lambda>c. ctx_HTML 200 (''blog:'' @ ctx_Param c ''id'') c) Return) e) (\<lambda>e.
         let (v1, e) = RouterGroup_Group 0 ''/v1'' e;
             e = RouterGroup_Use v1 [Logger logf] e
         in and_then (RouterGroup_Get accepts v1 ''/'' (Do (ctx_HTML 200 ''v1 index'') Return) e) (\<lambda>e.
            and_then (RouterGroup_Get accepts v1 ''/hello'' (Do (ctx_String 200 ''v1 hello world'') Return) e) (\<lambda>e.
            let (v2, e) = RouterGroup_Group 0 ''/v2'' e
            in and_then (RouterGroup_Get accepts v2 ''/hello/:name'' (Do (\<lambda>c. ctx_String 200 (''hello '' @ ctx_Param c ''name'') c) Return) e) (\<lambda>e.
               RouterGroup_Post accepts v2 ''/login''
                 (Do (\<lambda>c. ctx_JSON 200 (json (login_form (ctx_PostForm c))) c) Return) e)))))))"

subsection \<open>What the router promises\<close>

text \<open>A pattern without \<^verbatim>\<open>*\<close> against a path, both cut at the slashes; the result gives the parameters.\<close>

fun seg_match :: "string list \<Rightarrow> string list \<Rightarrow> (string, string) gomap option" where
  "seg_match [] [] = Some []"
| "seg_match (p # ps) (s # ss) =
     (if take 1 p = '':'' then (if s = [] then None else map_option (\<lambda>m. (drop 1 p, s) # m) (seg_match ps ss))
      else if p = s then seg_match ps ss else None)"
| "seg_match _ _ = None"

definition segs :: "string \<Rightarrow> string list" where
  "segs path = strings_Split path CHR ''/''"

definition route_match :: "string \<times> string \<Rightarrow> web_request \<Rightarrow> (string, string) gomap option" where
  "route_match r req = (if q_Method req = fst r then seg_match (segs (snd r)) (segs (q_Path req)) else None)"

definition routes_found :: "lookup \<Rightarrow> (string \<times> string) list \<Rightarrow> bool" where
  "routes_found lookup ps \<longleftrightarrow>
     (\<forall>req. (\<forall>i < length ps. \<forall>m. route_match (ps ! i) req = Some m \<longrightarrow>
               (\<forall>j < length ps. j \<noteq> i \<longrightarrow> route_match (ps ! j) req = None) \<longrightarrow> lookup ps req = Found i m) \<and>
            ((\<forall>i < length ps. route_match (ps ! i) req = None) \<longrightarrow> (\<exists>f. lookup ps req = Other f)))"

definition all_accepted :: "accepts \<Rightarrow> (string \<times> string) list \<Rightarrow> bool" where
  "all_accepted accepts ps \<longleftrightarrow> (\<forall>i < length ps. accepts (take i ps) (fst (ps ! i)) (snd (ps ! i)) = None)"

subsection \<open>What the program answers\<close>

definition demo_patterns :: "(string \<times> string) list" where
  "demo_patterns = [(''GET'', ''/panic''), (''GET'', ''/hello''), (''GET'', ''/blogs/:id''), (''GET'', ''/v1/''), (''GET'', ''/v1/hello''),
     (''GET'', ''/v2/hello/:name''), (''POST'', ''/v2/login'')]"

definition answered :: "nat \<Rightarrow> string \<Rightarrow> bytes \<Rightarrow> writer" where
  "answered code ctype body =
     \<lparr>w_header = [(''Content-Type'', ctype)], w_code = Some code, w_sent = [(''Content-Type'', ctype)], w_body = body\<rparr>"

text \<open>An encoding error comes when the header with the status 200 is out.\<close>

definition login_answer :: "string + bytes \<Rightarrow> writer" where
  "login_answer enc =
     (case enc of
        Inr data \<Rightarrow> answered 200 ''application/json'' data
      | Inl err \<Rightarrow> snd (w_Error err 500 (answered 200 ''application/json'' [])))"

text \<open>The response and the logs, by the segments of the path. \<^const>\<open>None\<close>: the program has no route for the request.\<close>

definition web_answer ::
  "(string \<Rightarrow> 'w wcontext \<Rightarrow> (string \<times> nat) list) \<Rightarrow> (string \<Rightarrow> 'w \<Rightarrow> 'w) \<Rightarrow> (nat \<Rightarrow> string \<Rightarrow> 'w \<Rightarrow> 'w) \<Rightarrow>
    ((string \<times> string) list \<Rightarrow> string + bytes) \<Rightarrow> web_request \<Rightarrow> 'w \<Rightarrow> (writer \<times> 'w) option" where
  "web_answer stack logp logf json req w =
     (let path = segs (q_Path req);
          c = newContext new_writer (req\<lparr>q_params := []\<rparr>) w
      in if q_Method req = ''GET'' then
           (if path = ['''', ''panic''] then
              Some (answered 500 ''text/html'' ''Internal Server Error'', logp (trace names_panic (stack names_panic c) @ [CHR 0x0A, CHR 0x0A]) w)
            else if path = ['''', ''hello''] then Some (answered 200 ''text/html'' ''hello world'', w)
            else if length path = 3 \<and> take 2 path = ['''', ''blogs''] \<and> path ! 2 \<noteq> '''' then
              Some (answered 200 ''text/html'' (''blog:'' @ path ! 2), w)
            else if path = ['''', ''v1'', ''''] then Some (answered 200 ''text/html'' ''v1 index'', logf 200 (q_RequestURI req) w)
            else if path = ['''', ''v1'', ''hello''] then Some (answered 200 ''text/plain'' ''v1 hello world'', logf 200 (q_RequestURI req) w)
            else if length path = 4 \<and> take 3 path = ['''', ''v2'', ''hello''] \<and> path ! 3 \<noteq> '''' then
              Some (answered 200 ''text/plain'' (''hello '' @ path ! 3), w)
            else None)
         else if q_Method req = ''POST'' \<and> path = ['''', ''v2'', ''login''] then
           Some (login_answer (json (login_form (first_value (q_form req)))), w)
         else None)"

subsection \<open>Facts\<close>

text \<open>The engine that \<^verbatim>\<open>main\<close> ends with.\<close>

definition demo_handlers ::
  "((string \<times> string) list \<Rightarrow> string + bytes) \<Rightarrow> 'w handler list" where
  "demo_handlers json =
     [Do (\<lambda>c. (Some names_panic, c)) Return, Do (ctx_HTML 200 ''hello world'') Return,
      Do (\<lambda>c. ctx_HTML 200 (''blog:'' @ ctx_Param c ''id'') c) Return, Do (ctx_HTML 200 ''v1 index'') Return,
      Do (ctx_String 200 ''v1 hello world'') Return, Do (\<lambda>c. ctx_String 200 (''hello '' @ ctx_Param c ''name'') c) Return,
      Do (\<lambda>c. ctx_JSON 200 (json (login_form (ctx_PostForm c))) c) Return]"

definition demo_engine ::
  "(string \<Rightarrow> 'w wcontext \<Rightarrow> (string \<times> nat) list) \<Rightarrow> (string \<Rightarrow> 'w \<Rightarrow> 'w) \<Rightarrow> (nat \<Rightarrow> string \<Rightarrow> 'w \<Rightarrow> 'w) \<Rightarrow>
    ((string \<times> string) list \<Rightarrow> string + bytes) \<Rightarrow> 'w engine" where
  "demo_engine stack logp logf json =
     \<lparr>en_routes = map2 (\<lambda>(m, p) h. \<lparr>rt_method = m, rt_pattern = p, rt_handler = h\<rparr>) demo_patterns (demo_handlers json),
      en_groups = [\<lparr>gr_prefix = '''', gr_middlewares = [Recovery stack logp], gr_parent = None\<rparr>,
        \<lparr>gr_prefix = ''/v1'', gr_middlewares = [Logger logf], gr_parent = Some 0\<rparr>,
        \<lparr>gr_prefix = ''/v2'', gr_middlewares = [], gr_parent = Some 0\<rparr>]\<rparr>"

lemma all_accepted_demo:
  assumes "all_accepted accepts demo_patterns"
  shows "i < 7 \<Longrightarrow> accepts (take i demo_patterns) (fst (demo_patterns ! i)) (snd (demo_patterns ! i)) = None"
  using assms by (simp add: all_accepted_def demo_patterns_def)

lemma web_main_eq:
  assumes "all_accepted accepts demo_patterns"
  shows "web_main accepts stack logp logf json = Inr (demo_engine stack logp logf json)"
proof -
  note a = all_accepted_demo [OF assms, unfolded demo_patterns_def]
  show ?thesis
    using a [of 0] a [of 1] a [of 2] a [of 3] a [of 4] a [of 5] a [of 6]
    by (simp add: web_main_def engine_Get_def Router_Get_def RouterGroup_Get_def RouterGroup_Post_def RouterGroup_add_def Router_add_def
        RouterGroup_Use_def RouterGroup_Group_def engine_New_def patterns_def demo_engine_def demo_patterns_def demo_handlers_def Let_def numeral_eq_Suc)
qed

lemma patterns_demo: "patterns (demo_engine stack logp logf json) = demo_patterns"
  by (simp add: patterns_def demo_engine_def demo_patterns_def demo_handlers_def)

text \<open>Patterns against paths.\<close>

lemma seg_match_static: "list_all (\<lambda>p. take 1 p \<noteq> '':'') ps \<Longrightarrow> seg_match ps ss = (if ss = ps then Some [] else None)"
  by (induction ps ss rule: seg_match.induct) auto

lemma demo_segs:
  "segs ''/panic'' = ['''', ''panic'']" "segs ''/hello'' = ['''', ''hello'']" "segs ''/blogs/:id'' = ['''', ''blogs'', '':id'']"
  "segs ''/v1/'' = ['''', ''v1'', '''']" "segs ''/v1/hello'' = ['''', ''v1'', ''hello'']"
  "segs ''/v2/hello/:name'' = ['''', ''v2'', ''hello'', '':name'']" "segs ''/v2/login'' = ['''', ''v2'', ''login'']"
  by (simp_all add: segs_def)

lemma seg_match_param:
  assumes "list_all (\<lambda>p. take 1 p \<noteq> '':'') ps"
  shows "seg_match (ps @ ['':'' @ name]) ss =
    (if length ss = Suc (length ps) \<and> take (length ps) ss = ps \<and> ss ! length ps \<noteq> '''' then Some [(name, ss ! length ps)] else None)"
  using assms
proof (induction ps arbitrary: ss)
  case Nil
  then show ?case by (cases ss; cases "tl ss") auto
next
  case (Cons p ps)
  then show ?case by (cases ss) auto
qed

lemma seg_match_blogs:
  "seg_match ['''', ''blogs'', '':id''] ss =
     (if length ss = 3 \<and> take 2 ss = ['''', ''blogs''] \<and> ss ! 2 \<noteq> '''' then Some [(''id'', ss ! 2)] else None)"
  using seg_match_param [of "['''', ''blogs'']" "''id''" ss] by (simp add: numeral_eq_Suc)

lemma seg_match_hello:
  "seg_match ['''', ''v2'', ''hello'', '':name''] ss =
     (if length ss = 4 \<and> take 3 ss = ['''', ''v2'', ''hello''] \<and> ss ! 3 \<noteq> '''' then Some [(''name'', ss ! 3)] else None)"
  using seg_match_param [of "['''', ''v2'', ''hello'']" "''name''" ss] by (simp add: numeral_eq_Suc)

lemma path_of_segs: "q_Path req = strings_Join (segs (q_Path req)) ''/''"
  by (simp add: segs_def Join_Split)

text \<open>The handlers of a request: the route's handler inside \<^verbatim>\<open>Recovery\<close>, with or without \<^verbatim>\<open>Logger\<close>.\<close>

lemma Next_Recovery:
  "map_option (\<lambda>(p, c', _). (p, c')) (ctx_Next [Recovery stack logp, Do f Return] (c, -1)) =
     Some (case f c of (None, c1) \<Rightarrow> (None, c1) | (Some err, c1) \<Rightarrow> recovered stack logp err c1)"
  using recovered_500(1) [of stack logp "the (fst (f c))" "snd (f c)"]
  by (cases "f c"; cases "fst (f c)") (auto simp: ctx_Next_def go_index_def Recovery_def numeral_eq_Suc split: prod.splits)

lemma Next_Recovery_Logger:
  "f c = (None, c1) \<Longrightarrow> map_option (\<lambda>(p, c', _). (p, c')) (ctx_Next [Recovery stack logp, Logger logf, Do f Return] (c, -1)) =
     Some (None, c1\<lparr>c_world := logf (c_StatusCode c1) (q_RequestURI (c_Req c1)) (c_world c1)\<rparr>)"
  by (simp add: ctx_Next_def go_index_def Recovery_def Logger_def numeral_eq_Suc)

text \<open>Serving a request for which the router finds route \<open>i\<close>.\<close>

lemma HasPrefix_Nil: "strings_HasPrefix s []"
  by (simp add: HasPrefix_iff)

lemma demo_length: "length demo_patterns = 7" "length (demo_handlers json) = 7"
  by (simp_all add: demo_patterns_def demo_handlers_def)

lemma demo_serve:
  assumes "lookup demo_patterns req = Found i m" and "i < 7"
  shows "engine_ServeHTTP lookup (demo_engine stack logp logf json) new_writer req w =
    map_option (\<lambda>(p, c). (p, c_Res c, c_world c)) (map_option (\<lambda>(p, c', _). (p, c'))
      (ctx_Next (Recovery stack logp # (if strings_HasPrefix (q_Path req) ''/v1'' then [Logger logf] else []) @ [demo_handlers json ! i])
        (newContext new_writer (req\<lparr>q_params := m\<rparr>) w, -1)))"
proof -
  have "rt_handler (en_routes (demo_engine stack logp logf json) ! i) = demo_handlers json ! i"
    using assms(2) by (simp add: demo_engine_def demo_length split_def)
  moreover have "collect_middlewares path (en_groups (demo_engine stack logp logf json)) [] =
      Recovery stack logp # (if strings_HasPrefix path ''/v1'' then [Logger logf] else [])" for path
    by (simp add: demo_engine_def HasPrefix_Nil)
  ultimately show ?thesis by (simp add: engine_ServeHTTP_def route_closure_def patterns_demo assms(1))
qed

lemma demo_serve_plain:
  assumes "lookup demo_patterns req = Found i m" "i < 7" "demo_handlers json ! i = Do f Return"
    and "\<not> strings_HasPrefix (q_Path req) ''/v1''"
    and "f (newContext new_writer (req\<lparr>q_params := m\<rparr>) w) = (None, c1)"
  shows "engine_ServeHTTP lookup (demo_engine stack logp logf json) new_writer req w = Some (None, c_Res c1, c_world c1)"
  using Next_Recovery [of stack logp f "newContext new_writer (req\<lparr>q_params := m\<rparr>) w"] assms(3-5)
  by (auto simp: demo_serve [where lookup = lookup, OF assms(1,2)])

lemma demo_serve_logged:
  assumes "lookup demo_patterns req = Found i m" "i < 7" "demo_handlers json ! i = Do f Return"
    and "strings_HasPrefix (q_Path req) ''/v1''"
    and "f (newContext new_writer (req\<lparr>q_params := m\<rparr>) w) = (None, c1)"
  shows "engine_ServeHTTP lookup (demo_engine stack logp logf json) new_writer req w =
    Some (None, c_Res c1, logf (c_StatusCode c1) (q_RequestURI (c_Req c1)) (c_world c1))"
  using Next_Recovery_Logger [of f "newContext new_writer (req\<lparr>q_params := m\<rparr>) w" c1 stack logp logf] assms(3-5)
  by (auto simp: demo_serve [where lookup = lookup, OF assms(1,2)])

text \<open>What the methods of a new context leave.\<close>

lemma new_ctx_answers:
  "ctx_HTML 200 html (newContext new_writer req w) = (None, (newContext new_writer req w)\<lparr>c_Res := answered 200 ''text/html'' html, c_StatusCode := 200\<rparr>)"
  "ctx_String 200 html (newContext new_writer req w) = (None, (newContext new_writer req w)\<lparr>c_Res := answered 200 ''text/plain'' html, c_StatusCode := 200\<rparr>)"
  "ctx_Fail 500 html (newContext new_writer req w) = (None, (newContext new_writer req w)\<lparr>c_Res := answered 500 ''text/html'' html, c_StatusCode := 500\<rparr>)"
  "ctx_JSON 200 enc (newContext new_writer req w) = (None, (newContext new_writer req w)\<lparr>c_Res := login_answer enc, c_StatusCode := 200\<rparr>)"
  by (simp_all add: ctx_HTML_def ctx_String_def ctx_Fail_def ctx_JSON_def ctx_Status_def ctx_SetHeader_def newContext_def new_writer_def
      w_WriteHeader_def w_Set_def w_Write_def w_Error_def body_allowed_def answered_def login_answer_def split: sum.splits)

text \<open>Which route the router finds.\<close>

lemma demo_nth:
  "demo_patterns ! 0 = (''GET'', ''/panic'')" "demo_patterns ! 1 = (''GET'', ''/hello'')" "demo_patterns ! 2 = (''GET'', ''/blogs/:id'')"
  "demo_patterns ! 3 = (''GET'', ''/v1/'')" "demo_patterns ! 4 = (''GET'', ''/v1/hello'')" "demo_patterns ! 5 = (''GET'', ''/v2/hello/:name'')"
  "demo_patterns ! 6 = (''POST'', ''/v2/login'')"
  by (simp_all add: demo_patterns_def)

lemma if_both: "(if a then (if b then x else y) else y) = (if a \<and> b then x else y)"
  by simp

lemma demo_statics:
  "seg_match ['''', ''panic''] ss = (if ss = ['''', ''panic''] then Some [] else None)"
  "seg_match ['''', ''hello''] ss = (if ss = ['''', ''hello''] then Some [] else None)"
  "seg_match ['''', ''v1'', ''''] ss = (if ss = ['''', ''v1'', ''''] then Some [] else None)"
  "seg_match ['''', ''v1'', ''hello''] ss = (if ss = ['''', ''v1'', ''hello''] then Some [] else None)"
  "seg_match ['''', ''v2'', ''login''] ss = (if ss = ['''', ''v2'', ''login''] then Some [] else None)"
  by (rule seg_match_static; simp)+

lemma demo_matches:
  "route_match (demo_patterns ! 0) req = (if q_Method req = ''GET'' \<and> segs (q_Path req) = ['''', ''panic''] then Some [] else None)"
  "route_match (demo_patterns ! 1) req = (if q_Method req = ''GET'' \<and> segs (q_Path req) = ['''', ''hello''] then Some [] else None)"
  "route_match (demo_patterns ! 2) req = (if q_Method req = ''GET'' \<and> length (segs (q_Path req)) = 3 \<and> take 2 (segs (q_Path req)) = ['''', ''blogs''] \<and>
     segs (q_Path req) ! 2 \<noteq> '''' then Some [(''id'', segs (q_Path req) ! 2)] else None)"
  "route_match (demo_patterns ! 3) req = (if q_Method req = ''GET'' \<and> segs (q_Path req) = ['''', ''v1'', ''''] then Some [] else None)"
  "route_match (demo_patterns ! 4) req = (if q_Method req = ''GET'' \<and> segs (q_Path req) = ['''', ''v1'', ''hello''] then Some [] else None)"
  "route_match (demo_patterns ! 5) req = (if q_Method req = ''GET'' \<and> length (segs (q_Path req)) = 4 \<and>
     take 3 (segs (q_Path req)) = ['''', ''v2'', ''hello''] \<and> segs (q_Path req) ! 3 \<noteq> '''' then Some [(''name'', segs (q_Path req) ! 3)] else None)"
  "route_match (demo_patterns ! 6) req = (if q_Method req = ''POST'' \<and> segs (q_Path req) = ['''', ''v2'', ''login''] then Some [] else None)"
  unfolding demo_nth route_match_def fst_conv snd_conv demo_segs seg_match_blogs seg_match_hello demo_statics
  by (rule if_both)+

lemma all_less_7: "(\<forall>i < 7. P i) \<longleftrightarrow> P 6 \<and> P 5 \<and> P 4 \<and> P 3 \<and> P 2 \<and> P 1 \<and> P (0 :: nat)"
  by (simp add: numeral_eq_Suc All_less_Suc conj_assoc)

lemma demo_found:
  assumes "routes_found lookup demo_patterns" and "i < 7" and "route_match (demo_patterns ! i) req = Some m"
    and "\<forall>j < 7. j \<noteq> i \<longrightarrow> route_match (demo_patterns ! j) req = None"
  shows "lookup demo_patterns req = Found i m"
  using assms unfolding routes_found_def demo_length by blast

lemma demo_not_found:
  assumes "routes_found lookup demo_patterns" and "\<forall>j < 7. route_match (demo_patterns ! j) req = None"
  shows "\<exists>f. lookup demo_patterns req = Other f"
  using assms unfolding routes_found_def demo_length by blast

lemma demo_segs_found:
  assumes "routes_found lookup demo_patterns"
  shows "q_Method req = ''GET'' \<Longrightarrow> segs (q_Path req) = ['''', ''panic''] \<Longrightarrow> lookup demo_patterns req = Found 0 []"
    "q_Method req = ''GET'' \<Longrightarrow> segs (q_Path req) = ['''', ''hello''] \<Longrightarrow> lookup demo_patterns req = Found 1 []"
    "q_Method req = ''GET'' \<Longrightarrow> segs (q_Path req) = ['''', ''blogs'', s] \<Longrightarrow> s \<noteq> '''' \<Longrightarrow> lookup demo_patterns req = Found 2 [(''id'', s)]"
    "q_Method req = ''GET'' \<Longrightarrow> segs (q_Path req) = ['''', ''v1'', ''''] \<Longrightarrow> lookup demo_patterns req = Found 3 []"
    "q_Method req = ''GET'' \<Longrightarrow> segs (q_Path req) = ['''', ''v1'', ''hello''] \<Longrightarrow> lookup demo_patterns req = Found 4 []"
    "q_Method req = ''GET'' \<Longrightarrow> segs (q_Path req) = ['''', ''v2'', ''hello'', s] \<Longrightarrow> s \<noteq> '''' \<Longrightarrow> lookup demo_patterns req = Found 5 [(''name'', s)]"
    "q_Method req = ''POST'' \<Longrightarrow> segs (q_Path req) = ['''', ''v2'', ''login''] \<Longrightarrow> lookup demo_patterns req = Found 6 []"
  by (rule demo_found [OF assms]; simp add: all_less_7 demo_matches del: One_nat_def)+

text \<open>The cases of \<open>web_answer\<close>.\<close>

lemma length_3_last: "length xs = 3 \<Longrightarrow> take 2 xs = [a, b] \<Longrightarrow> xs = [a, b, xs ! 2]"
  by (cases xs; cases "tl xs"; cases "tl (tl xs)") auto

lemma length_4_last: "length xs = 4 \<Longrightarrow> take 3 xs = [a, b, c] \<Longrightarrow> xs = [a, b, c, xs ! 3]"
  by (cases xs; cases "tl xs"; cases "tl (tl xs)"; cases "tl (tl (tl xs))") auto

lemma web_answer_None:
  assumes "web_answer stack logp logf json req w = None"
  shows "\<forall>j < 7. route_match (demo_patterns ! j) req = None"
  using assms unfolding all_less_7 demo_matches web_answer_def Let_def
  by (auto split: if_splits simp del: One_nat_def)

lemma web_answer_Some:
  assumes "web_answer stack logp logf json req w = Some (res, w')"
  obtains (panic) "q_Method req = ''GET''" "segs (q_Path req) = ['''', ''panic'']" "res = answered 500 ''text/html'' ''Internal Server Error''"
      "w' = logp (trace names_panic (stack names_panic (newContext new_writer (req\<lparr>q_params := []\<rparr>) w)) @ [CHR 0x0A, CHR 0x0A]) w"
    | (hello) "q_Method req = ''GET''" "segs (q_Path req) = ['''', ''hello'']" "res = answered 200 ''text/html'' ''hello world''" "w' = w"
    | (blog) s where "q_Method req = ''GET''" "segs (q_Path req) = ['''', ''blogs'', s]" "s \<noteq> ''''" "res = answered 200 ''text/html'' (''blog:'' @ s)" "w' = w"
    | (v1) "q_Method req = ''GET''" "segs (q_Path req) = ['''', ''v1'', '''']" "res = answered 200 ''text/html'' ''v1 index''"
      "w' = logf 200 (q_RequestURI req) w"
    | (v1_hello) "q_Method req = ''GET''" "segs (q_Path req) = ['''', ''v1'', ''hello'']" "res = answered 200 ''text/plain'' ''v1 hello world''"
      "w' = logf 200 (q_RequestURI req) w"
    | (v2_hello) s where "q_Method req = ''GET''" "segs (q_Path req) = ['''', ''v2'', ''hello'', s]" "s \<noteq> ''''"
      "res = answered 200 ''text/plain'' (''hello '' @ s)" "w' = w"
    | (login) "q_Method req = ''POST''" "segs (q_Path req) = ['''', ''v2'', ''login'']"
      "res = login_answer (json (login_form (first_value (q_form req))))" "w' = w"
  using assms unfolding web_answer_def Let_def
  by (simp only: split: if_splits) (auto dest: length_3_last length_4_last)

lemma handlers_nth:
  "demo_handlers json ! 0 = Do (\<lambda>c. (Some names_panic, c)) Return"
  "demo_handlers json ! 1 = Do (ctx_HTML 200 ''hello world'') Return"
  "demo_handlers json ! 2 = Do (\<lambda>c. ctx_HTML 200 (''blog:'' @ ctx_Param c ''id'') c) Return"
  "demo_handlers json ! 3 = Do (ctx_HTML 200 ''v1 index'') Return"
  "demo_handlers json ! 4 = Do (ctx_String 200 ''v1 hello world'') Return"
  "demo_handlers json ! 5 = Do (\<lambda>c. ctx_String 200 (''hello '' @ ctx_Param c ''name'') c) Return"
  "demo_handlers json ! 6 = Do (\<lambda>c. ctx_JSON 200 (json (login_form (ctx_PostForm c))) c) Return"
  by (simp_all add: demo_handlers_def)

lemma segs_HasPrefix:
  "segs (q_Path req) = [a, b] \<Longrightarrow> q_Path req = a @ CHR ''/'' # b"
  "segs (q_Path req) = [a, b, c] \<Longrightarrow> q_Path req = a @ CHR ''/'' # b @ CHR ''/'' # c"
  "segs (q_Path req) = [a, b, c, d] \<Longrightarrow> q_Path req = a @ CHR ''/'' # b @ CHR ''/'' # c @ CHR ''/'' # d"
  by (subst path_of_segs, simp)+

lemma newContext_fields:
  "c_Req (newContext res req w) = req" "c_world (newContext res req w) = w" "c_Res (newContext res req w) = res"
  by (simp_all add: newContext_def)

lemma newContext_Param: "ctx_Param (newContext res (req\<lparr>q_params := m\<rparr>) w) k = first_value m k"
  by (simp add: ctx_Param_def newContext_def)

lemma newContext_PostForm: "ctx_PostForm (newContext res (req\<lparr>q_params := m\<rparr>) w) = first_value (q_form req)"
  by (simp add: ctx_PostForm_def newContext_def fun_eq_iff)

lemma first_value_one: "first_value [(k, v)] k = v"
  by (simp add: first_value_def)

text \<open>A request of a route gets the answer.\<close>

lemma demo_panics:
  assumes "lookup demo_patterns req = Found 0 []" and "\<not> strings_HasPrefix (q_Path req) ''/v1''"
  shows "engine_ServeHTTP lookup (demo_engine stack logp logf json) new_writer req w =
    Some (None, answered 500 ''text/html'' ''Internal Server Error'',
      logp (trace names_panic (stack names_panic (newContext new_writer (req\<lparr>q_params := []\<rparr>) w)) @ [CHR 0x0A, CHR 0x0A]) w)"
proof -
  let ?c = "newContext new_writer (req\<lparr>q_params := []\<rparr>) w"
  have "recovered stack logp names_panic ?c = (None, newContext new_writer (req\<lparr>q_params := []\<rparr>)
      (logp (trace names_panic (stack names_panic ?c) @ [CHR 0x0A, CHR 0x0A]) w)
      \<lparr>c_Res := answered 500 ''text/html'' ''Internal Server Error'', c_StatusCode := 500\<rparr>)"
    unfolding recovered_def Let_def new_ctx_answers(3) [symmetric] by (simp add: newContext_def)
  then show ?thesis
    using Next_Recovery [of stack logp "\<lambda>c. (Some names_panic, c)" ?c] assms(2)
    by (auto simp: demo_serve [where lookup = lookup and i = 0, OF assms(1)] handlers_nth newContext_fields)
qed

lemma demo_answers:
  assumes found: "routes_found lookup demo_patterns" and some: "web_answer stack logp logf json req w = Some (res, w')"
  shows "engine_ServeHTTP lookup (demo_engine stack logp logf json) new_writer req w = Some (None, res, w')"
  using some
proof (cases rule: web_answer_Some)
  case panic
  have "\<not> strings_HasPrefix (q_Path req) ''/v1''" by (simp add: segs_HasPrefix(1) [OF panic(2)] strings_HasPrefix_def)
  from demo_panics [where lookup = lookup, OF demo_segs_found(1) [OF found panic(1,2)] this] show ?thesis unfolding panic(3,4) .
next
  case hello
  have pre: "\<not> strings_HasPrefix (q_Path req) ''/v1''" by (simp add: segs_HasPrefix(1) [OF hello(2)] strings_HasPrefix_def)
  show ?thesis
    using demo_serve_plain [where i = 1 and lookup = lookup, OF demo_segs_found(2) [OF found hello(1,2)] _ handlers_nth(2) pre new_ctx_answers(1)]
    by (simp add: hello(3,4) newContext_fields)
next
  case (blog s)
  have pre: "\<not> strings_HasPrefix (q_Path req) ''/v1''" by (simp add: segs_HasPrefix(2) [OF blog(2)] strings_HasPrefix_def)
  show ?thesis
    using demo_serve_plain [where i = 2 and lookup = lookup, OF demo_segs_found(3) [OF found blog(1-3)] _ handlers_nth(3) pre new_ctx_answers(1)]
    by (simp add: blog(4,5) newContext_fields newContext_Param first_value_one)
next
  case v1
  have pre: "strings_HasPrefix (q_Path req) ''/v1''" by (simp add: segs_HasPrefix(2) [OF v1(2)] strings_HasPrefix_def)
  show ?thesis
    using demo_serve_logged [where i = 3 and lookup = lookup, OF demo_segs_found(4) [OF found v1(1,2)] _ handlers_nth(4) pre new_ctx_answers(1)]
    by (simp add: v1(3,4) newContext_fields)
next
  case v1_hello
  have pre: "strings_HasPrefix (q_Path req) ''/v1''" by (simp add: segs_HasPrefix(2) [OF v1_hello(2)] strings_HasPrefix_def)
  show ?thesis
    using demo_serve_logged [where i = 4 and lookup = lookup, OF demo_segs_found(5) [OF found v1_hello(1,2)] _ handlers_nth(5) pre new_ctx_answers(2)]
    by (simp add: v1_hello(3,4) newContext_fields)
next
  case (v2_hello s)
  have pre: "\<not> strings_HasPrefix (q_Path req) ''/v1''" by (simp add: segs_HasPrefix(3) [OF v2_hello(2)] strings_HasPrefix_def)
  show ?thesis
    using demo_serve_plain [where i = 5 and lookup = lookup, OF demo_segs_found(6) [OF found v2_hello(1-3)] _ handlers_nth(6) pre new_ctx_answers(2)]
    by (simp add: v2_hello(4,5) newContext_fields newContext_Param first_value_one)
next
  case login
  have pre: "\<not> strings_HasPrefix (q_Path req) ''/v1''" by (simp add: segs_HasPrefix(2) [OF login(2)] strings_HasPrefix_def)
  show ?thesis
    using demo_serve_plain [where i = 6 and lookup = lookup, OF demo_segs_found(7) [OF found login(1,2)] _ handlers_nth(7) pre new_ctx_answers(4)]
    by (simp add: login(3,4) newContext_fields newContext_PostForm)
qed

subsection \<open>Properties\<close>

text \<open>C32: the program and every request to it. With a router that takes the seven patterns and keeps to its
  documentation, \<^verbatim>\<open>main\<close> builds its engine, and each request to one of the routes gets the response of that
  route, whatever the parameters are: a panic is answered with 500 and its trace logged, the pages under
  \<^verbatim>\<open>/v1\<close> are logged with their status and no others, nothing panics through to the server. All other requests
  are left to the router and touch nothing.\<close>

theorem web_demo_responses:
  assumes "all_accepted accepts demo_patterns" and "routes_found lookup demo_patterns"
  shows "\<exists>e. web_main accepts stack logp logf json = Inr e \<and> patterns e = demo_patterns \<and>
    (case web_answer stack logp logf json req w of
       Some (res, w') \<Rightarrow> engine_ServeHTTP lookup e new_writer req w = Some (None, res, w')
     | None \<Rightarrow> \<exists>f. lookup demo_patterns req = Other f \<and> engine_ServeHTTP lookup e new_writer req w = Some (None, f new_writer, w))"
proof (cases "web_answer stack logp logf json req w")
  case None
  obtain f where "lookup demo_patterns req = Other f"
    using demo_not_found [OF assms(2) web_answer_None [OF None]] by blast
  then show ?thesis using None web_main_eq [OF assms(1), of stack logp logf json] by (simp add: patterns_demo engine_ServeHTTP_def)
next
  case (Some r)
  then show ?thesis using demo_answers [OF assms(2)] web_main_eq [OF assms(1), of stack logp logf json] by (cases r) (simp add: patterns_demo)
qed

subsection \<open>Example\<close>

text \<open>A router that tries the patterns in order.\<close>

definition router_lookup :: lookup where
  "router_lookup ps req =
     (case filter (\<lambda>i. route_match (ps ! i) req \<noteq> None) [0..<length ps] of
        [] \<Rightarrow> Other (\<lambda>w. snd (w_Error ''404 page not found'' 404 w))
      | i # _ \<Rightarrow> Found i (the (route_match (ps ! i) req)))"

lemma router_lookup_finds: "routes_found router_lookup ps"
  unfolding routes_found_def
proof (intro allI conjI impI)
  fix req i m
  assume i: "i < length ps" "route_match (ps ! i) req = Some m" "\<forall>j < length ps. j \<noteq> i \<longrightarrow> route_match (ps ! j) req = None"
  let ?is = "filter (\<lambda>i. route_match (ps ! i) req \<noteq> None) [0..<length ps]"
  have "hd ?is = i" "?is \<noteq> []" using i hd_in_set [of ?is] by (force simp: filter_empty_conv)+
  then show "router_lookup ps req = Found i m" using i(2) by (cases ?is) (simp_all add: router_lookup_def)
next
  fix req
  assume "\<forall>i < length ps. route_match (ps ! i) req = None"
  then have "filter (\<lambda>i. route_match (ps ! i) req \<noteq> None) [0..<length ps] = []" by (simp add: filter_empty_conv)
  then show "\<exists>f. router_lookup ps req = Other f" by (simp add: router_lookup_def)
qed

text \<open>A page under \<^verbatim>\<open>/v1\<close>, on a world that is the list of the lines logged.\<close>

theorem web_demo_responses_witness:
  "\<exists>e. web_main (\<lambda>_ _ _. None) (\<lambda>_ _. []) (\<lambda>l w. w @ [l]) (\<lambda>k uri w. w @ [strconv_Itoa k @ uri]) (\<lambda>_. Inl ''no encoder'') = Inr e \<and>
     engine_ServeHTTP router_lookup e new_writer (get_request ''/v1/hello'') [] =
       Some (None, answered 200 ''text/plain'' ''v1 hello world'', [strconv_Itoa 200 @ ''/v1/hello''])"
proof -
  have a: "all_accepted (\<lambda>_ _ _. None) demo_patterns" by (simp add: all_accepted_def)
  have "web_answer (\<lambda>_ _. []) (\<lambda>l w. w @ [l]) (\<lambda>k uri w. w @ [strconv_Itoa k @ uri]) (\<lambda>_. Inl ''no encoder'') (get_request ''/v1/hello'') [] =
      Some (answered 200 ''text/plain'' ''v1 hello world'', [strconv_Itoa 200 @ ''/v1/hello''])"
    by (simp add: web_answer_def get_request_def segs_def)
  then show ?thesis
    using web_demo_responses [OF a router_lookup_finds, of "\<lambda>_ _. []" "\<lambda>l w. w @ [l]" "\<lambda>k uri w. w @ [strconv_Itoa k @ uri]"
        "\<lambda>_. Inl ''no encoder''" "get_request ''/v1/hello''" "[]"] by force
qed

end
