(* ===== verification/Spec2Isabelle.thy ===== *)
theory Spec2Isabelle
  imports Lru Consistenthash Singleflight Geecache Http_Pool Cluster Cache_Demo Rpc_Registry Registry_Server Discovery Balancer
    Service Gob_Codec Rpc_Server Rpcx_Server Rpc_Client Rpc_System Rpc_Dial XClient Rpcx_Registry Rpcx_Client
    Rpcx_System Rpc_Link Rpc_Callers Rpc_Calls Rpc_Sends Rpc_Returns Rpc_Debug Rpc_Process Rpc_Demo Rpcx_Link Rpcx_Demo Web_Context Web_Engine Web_Demo
begin

text \<open>
  \<^bold>\<open>A verification of the Go repository \<^verbatim>\<open>gee\<close>.\<close> The repository holds four programs: a distributed cache
  (\<^verbatim>\<open>src/cache\<close>), an RPC framework with registry and discovery (\<^verbatim>\<open>src/rpc\<close>), a second version of that framework
  with its own registry protocol (\<^verbatim>\<open>src/rpcx\<close>), and a small web framework (\<^verbatim>\<open>src/web\<close>). They are modelled as functions
  and step relations; the theories follow the packages.

  \<^bold>\<open>Conventions.\<close> A struct is a record, an interface value that the source calls is an argument of the definitions that
  call it, an error is a message (\<^typ>\<open>string\<close>) in a sum or an option, and a panic is \<^const>\<open>None\<close> or a value of its own. A Go
  string or byte slice is a list of bytes (\<open>Prelude\<close>). \<^verbatim>\<open>int64\<close>, \<^verbatim>\<open>uint64\<close> and hash values are words where they can
  wrap around; lengths and times are unbounded. Mutexes do not appear: what runs under one is one step. Goroutines
  that interleave are the steps of a relation. Log output is left out everywhere. The time of an operation
  is an argument.

  \<^bold>\<open>Library.\<close> \<open>Prelude\<close>: strings, slices and maps of Go with their lemmas. \<open>Http_Lib\<close>: responses, escaping, and delivery of
  requests. Interfaces are locales, interpreted on the model: \<open>Kv_Cache\<close> (a bounded key-value cache; the LRU cache provides
  it, a cache group uses it), \<open>Lease\<close> (tables of leases, with and without removal; both registries), \<open>Rotation\<close> (round
  robin; the discovery and the balancer), \<open>discovery\<close> in \<open>XClient\<close> (the interface \<^verbatim>\<open>Discovery\<close>; both discoveries),
  \<open>message_codec\<close> in \<open>Gob_Codec\<close> (a writer with its reader; all five codecs), and \<open>live_discovery\<close> in \<open>Rpc_Calls\<close> (a discovery that goes
  on returning live servers; a fixed list and a registry), \<open>connection\<close> in \<open>Rpc_Callers\<close> (what callers may rely on; the connections of \<^verbatim>\<open>rpc\<close> and
  \<^verbatim>\<open>rpcx\<close>).

  \<^bold>\<open>Cache.\<close>
  \<^item> \<open>Lru\<close> (\<^verbatim>\<open>lru/lru.go\<close>): list of elements, index map, byte count. \<^verbatim>\<open>Add\<close> refines moving to the front and keeping the longest
    prefix that fits; the count stays within a positive limit; a key that is found has the value added last; a negative
    limit makes \<^verbatim>\<open>Add\<close> loop for ever (the loop is a partial function, so that is a theorem).
  \<^item> \<open>Consistenthash\<close> (\<^verbatim>\<open>consistenthash.go\<close>): binary search finds the first point at or after the hash; adding a node moves
    keys to that node only; the order of adding does not matter without collisions.
  \<^item> \<open>Singleflight\<close> (\<^verbatim>\<open>singleflight.go\<close>): any number of goroutines in \<^verbatim>\<open>Do\<close> as steps. One call per key at a time, results
    are those of the function, no deadlock unless the function panics, and then the key is blocked.
  \<^item> \<open>Geecache\<close> (\<^verbatim>\<open>geecache.go\<close>, \<^verbatim>\<open>cache.go\<close>, \<^verbatim>\<open>byteview.go\<close>, \<^verbatim>\<open>peers.go\<close>): groups; \<^verbatim>\<open>Get\<close> on every branch, and any sequence of
    \<^verbatim>\<open>Get\<close> answers as the data source does.
  \<^item> \<open>Http_Pool\<close> (\<^verbatim>\<open>http.go\<close>): peers agree on the owner of a key; a getter fetches over HTTP what the peer's \<^verbatim>\<open>Get\<close> returns.
  \<^item> \<open>Cluster\<close> (\<^verbatim>\<open>main/main.go\<close>): one process, and several of them over a network; calls at any node get the answer of the
    data source, with one request to the owner from any other node; only the owner of a key loads what the source has; keys with a space are left
    out, since they reach the owner changed. \<open>Cache_Demo\<close>: the three
    processes of the demonstration; their points on the ring are computed and found distinct, so the order in which
    a process visits its map of addresses does not matter.

  \<^bold>\<open>RPC.\<close>
  \<^item> \<open>Service\<close>, \<open>Gob_Codec\<close>: registration of methods by reflection; the codecs on streams of whole gob values, of \<^verbatim>\<open>rpc\<close> and \<^verbatim>\<open>rpcx\<close>
    (requests of \<^verbatim>\<open>gobrpc\<close> cannot be encoded, as their type has no exported field).
  \<^item> \<open>Rpc_Server\<close> (\<^verbatim>\<open>server.go\<close>), \<open>Rpc_Client\<close> (\<^verbatim>\<open>client.go\<close>): the loop that reads requests with its handlers as a step
    relation, the client's map of pending calls on a heap and its receiving loop. \<open>Rpc_System\<close>: both together; in every
    interleaving in which no handler times out every call of one goroutine ends with the value of its method. \<open>Rpc_Dial\<close>: options and dialling; what a client sends
    first is what a server accepts.
  \<^item> \<open>Rpc_Registry\<close>, \<open>Discovery\<close>, \<open>XClient\<close>: leases and heartbeats; lists fetched from the registry; calls go to listed
    servers over one connection each; \<^verbatim>\<open>Broadcast\<close>. This theory: a discovery sees exactly the servers that are alive.
  \<^item> \<open>Rpc_Link\<close>: a client and a server that work on one connection at the same time, with an invariant of both. \<open>Rpc_Callers\<close>: the
    callers of one client whose sends are undisturbed. \<open>Rpc_Calls\<close>: any number of
    goroutines that call through one \<^verbatim>\<open>XClient\<close>, with all their connections, as two relations: \<open>calls_step\<close>, which follows the code, with sends in
    pieces that can mix, timeouts of handlers, and requests lost with the options; and the specification \<open>atomic_step\<close>, where a send is one step. \<open>Rpc_Sends\<close>:
    where goroutines are not in \<^verbatim>\<open>send\<close> on the same client together, and nothing times out or is lost (\<open>calm_step\<close>), the first refines the second, by a function from its
    states (\<open>settle\<close>). \<open>Rpc_Returns\<close>: so all such runs end, and every call returns what its method yields; and where sends overlap, or a request is lost with the options,
    runs in which calls fail, return nothing, or never return.
  \<^item> \<open>Rpc_Debug\<close> (\<^verbatim>\<open>debug.go\<close> of both packages): the page of call counters, and that it counts what was served. \<open>Rpc_Process\<close>: default
    instances, \<^verbatim>\<open>http.Handle\<close> and the dispatch of requests (also of \<^verbatim>\<open>rpcx\<close> and its registry server). \<open>Rpc_Demo\<close> (\<^verbatim>\<open>main/main.go\<close>):
    the demonstration from its start to the lines it prints, in the runs of \<open>calm_step\<close>.

  \<^bold>\<open>RPCX.\<close>
  \<^item> \<open>Rpcx_Server\<close>, \<open>Rpcx_Client\<close>, \<open>Balancer\<close>, \<open>Registry_Server\<close>, \<open>Rpcx_Registry\<close>: the same parts as they are in \<^verbatim>\<open>rpcx\<close>.
    \<open>Rpcx_System\<close>: calls end to end; an announced server is found and dialled; what a heartbeat breaks; calls on a broken
    connection. \<open>Rpcx_Link\<close>: the connection with both its ends at work. \<open>Rpcx_Demo\<close> (\<^verbatim>\<open>main/main.go\<close>, with the registry server of
    \<^verbatim>\<open>register_main\<close>): the demonstration from its start to the lines it prints.

  \<^bold>\<open>Web.\<close> \<open>Web_Context\<close> (\<^verbatim>\<open>context.go\<close>): handlers as programs, \<^verbatim>\<open>Next\<close> with its shared index against a chain defined by
  recursion. \<open>Web_Engine\<close> (\<^verbatim>\<open>engine.go\<close>, \<^verbatim>\<open>router.go\<close>, \<^verbatim>\<open>router_group.go\<close>, middlewares of \<^verbatim>\<open>main.go\<close>): groups, dispatch, and
  what \<^verbatim>\<open>Recovery\<close> does. \<open>Web_Demo\<close> (\<^verbatim>\<open>web/main.go\<close>): the engine of the program and its answer to every request.

  \<^bold>\<open>Bounds and fuel.\<close> \<open>cl_net\<close> is the network to a depth of requests inside one another, beyond which a request does not
  return; depth one is enough (\<open>cl_run_serves\<close>), and any greater one gives the same answers. \<open>ctx_loop\<close> has fuel; \<open>ctx_Next\<close> gives it one unit more than there are handlers, which is enough
  (\<open>ctx_loop_total\<close>) and leads to the equation of the loop without fuel (\<open>loop_from_step\<close>). All other loops are total
  functions, or partial functions whose result is proved. Sequence numbers are 64 bit words; the theorems on whole systems are for
  fewer than \<open>2 ^ 63\<close> calls.

  \<^bold>\<open>Outside code.\<close> \<^verbatim>\<open>encoding/gob\<close> and \<^verbatim>\<open>encoding/json\<close> work on whole values; the write buffer of \<^verbatim>\<open>bufio\<close> has no
  limit. Arguments stand for sockets, the random number generator (a value from 0 up to the bound), the data
  source of a cache, and the package \<^verbatim>\<open>httprouter\<close>.

  \<^bold>\<open>Not modelled.\<close> Of the demo program of \<^verbatim>\<open>rpc\<close> the broadcasts of \<^verbatim>\<open>Foo.Sleep\<close> that wait for a timeout; interfaces without code
  and the error type of \<^verbatim>\<open>rpcx\<close>, which nothing uses; sockets beyond the result of listening and dialling; and data races outside locks (two goroutines in
  \<^verbatim>\<open>send\<close> on one client are in a race when one flushes while the other encodes; the model takes each of these as whole).
\<close>

section \<open>Discovery and registry together\<close>

text \<open>The copy of the list is not older than the timeout.\<close>

definition gd_fresh :: "'r gee_disc \<Rightarrow> int \<Rightarrow> bool" where
  "gd_fresh d now \<longleftrightarrow> (case gd_lastUpdate d of None \<Rightarrow> False | Some t \<Rightarrow> t + gd_timeout d > now)"

text \<open>C25: a discovery sees the servers that are alive. Let the registry have handled any history of
  requests, with addresses that are not empty and contain no comma and no space at either end. A discovery
  whose copy is too old, or that has none, then gets the addresses whose last heartbeat is less than the registry's
  timeout ago, in increasing order; until its own timeout has passed it returns that list without asking.\<close>

theorem discovery_sees_live_servers:
  assumes "sorted (map fst reqs @ [now])" and "\<And>t h. (t, ''POST'', h) \<in> set reqs \<Longrightarrow> h \<noteq> '''' \<Longrightarrow> clean_addr h"
    and "\<not> gd_fresh d now"
  shows "\<exists>servers d' r'. gd_GetAll (registry_get now) d now now' (rg_run (rg_New timeout) reqs) = (d', Inr servers, r') \<and>
    sorted_wrt (<) servers \<and>
    set servers = {a. \<exists>t. rg_last_post Map.empty reqs ((), a) = Some t \<and> lease_alive timeout now t} \<and>
    (\<forall>http_get t t' w. t < now' + gd_timeout d \<longrightarrow> gd_GetAll http_get d' t t' w = (d', Inr servers, w))"
proof -
  let ?r = "rg_run (rg_New timeout) reqs"
  obtain servers where s: "rs_header (snd (rg_ServeHTTP ?r now ''GET'' '''')) = [(''X-Rpc-Servers'', strings_Join servers '','')]"
    "sorted_wrt (<) servers" "set servers = {a. \<exists>t. rg_last_post Map.empty reqs ((), a) = Some t \<and> lease_alive timeout now t}"
    using registry_live [OF assms(1), of timeout] by auto
  have "list_all clean_addr servers"
    unfolding list_all_iff
  proof
    fix a assume "a \<in> set servers"
    then obtain t where "rg_last_post Map.empty reqs ((), a) = Some t" using s(3) by blast
    from rg_last_post_posted [OF this] show "clean_addr a" using assms(2) by blast
  qed
  then have "gd_collect (strings_Split (strings_Join servers '','') CHR '','') [] = servers" by (rule gd_collect_Join)
  then have "gd_Refresh (registry_get now) d now now' ?r =
      (d\<lparr>gd_multi := (gd_multi d)\<lparr>ms_servers := servers\<rparr>, gd_lastUpdate := Some now'\<rparr>, None, fst (rg_ServeHTTP ?r now ''GET'' ''''))"
    using assms(3) s(1)
    by (cases "rg_ServeHTTP ?r now ''GET'' ''''") (auto simp: gd_Refresh_def registry_get_def gd_fresh_def header_get_def)
  then show ?thesis using s(2,3) by (auto simp: gd_GetAll_def ms_GetAll_def gd_Refresh_def)
qed

theorem discovery_sees_live_servers_witness:
  "\<exists>servers d' r'. gd_GetAll (registry_get 8) (gd_New (\<lambda>n r. (0, r)) () ''http://r'' 0) 8 9
       (rg_run (rg_New 5) [(0, ''POST'', ''tcp@b''), (4, ''POST'', ''tcp@a''), (7, ''POST'', ''tcp@c'')]) = (d', Inr servers, r') \<and>
     set servers = {''tcp@a'', ''tcp@c''}"
proof -
  let ?reqs = "[(0, ''POST'', ''tcp@b''), (4, ''POST'', ''tcp@a''), (7, ''POST'', ''tcp@c'')] :: reg_req list"
  have "{a. \<exists>t. rg_last_post Map.empty ?reqs ((), a) = Some t \<and> lease_alive 5 8 t} = {''tcp@a'', ''tcp@c''}"
    by (auto simp: rg_last_post_def lease_alive_def)
  moreover have "\<not> gd_fresh (gd_New (\<lambda>n r. (0, r)) () ''http://r'' 0) 8" by (simp add: gd_fresh_def gd_New_def)
  moreover have "clean_addr h" if "(t, ''POST'', h) \<in> set ?reqs" for t h using that by (auto simp: clean_addr_def is_space_def)
  ultimately show ?thesis
    using discovery_sees_live_servers [of ?reqs 8 "gd_New (\<lambda>n r. (0, r)) () ''http://r'' 0" 9 5] by force
qed

end
